(* ===== verification/Gookv_Prelude.thy ===== *)
theory Gookv_Prelude
  imports Main "HOL-Library.Word" "HOL-Library.List_Lexorder"
begin

unbundle bit_operations_syntax

section \<open>Shared vocabulary of the development\<close>

text \<open>
  The types every component uses, the errors of the Go code as values, the
  parts of Go's standard library the sources call (big-endian and varint
  encodings of \<^verbatim>\<open>encoding/binary\<close>), and the generic lemmas on lists, orders and
  words the component theories share.

  A Go \<^verbatim>\<open>[]byte\<close> is a list of 8-bit words; where the source distinguishes a nil
  slice from an empty one, the model uses \<open>bytes option\<close> with \<^const>\<open>None\<close> for nil.
  \<^verbatim>\<open>bytes.Compare\<close> is the lexicographic order of \<open>HOL-Library.List_Lexorder\<close>.
\<close>

type_synonym byte = "8 word"
type_synonym bytes = "8 word list"
type_synonym u64 = "64 word"

text \<open>
  The error values of the storage layers. \<open>PanicMakeSlice\<close> is the run-time panic of
  Go's \<^verbatim>\<open>make\<close> when the requested slice is larger than the address space allows.
\<close>

datatype go_error =
    ErrInsufficientData
  | ErrInvalidEncodedKey
  | ErrUnexpectedEOF
  | ErrUnknownLockTag
  | ErrUnknownWriteTag
  | ErrNotFound
  | ErrCFNotFound string
  | ErrEngine string
  | PanicMakeSlice

type_synonym 'a res = "go_error + 'a"

text \<open>Go's \<open>if err != nil { return err }\<close>: continue with the value or return the error.\<close>

definition res_bind :: "'e + 'a \<Rightarrow> ('a \<Rightarrow> 'e + 'b) \<Rightarrow> 'e + 'b" where
  "res_bind m f = (case m of Inl e \<Rightarrow> Inl e | Inr x \<Rightarrow> f x)"

lemma res_bind_simps [simp]: "res_bind (Inl e) f = Inl e" "res_bind (Inr x) f = f x"
  by (simp_all add: res_bind_def)

lemma res_bind_cong [fundef_cong]:
  "m = m' \<Longrightarrow> (\<And>x. m' = Inr x \<Longrightarrow> f x = g x) \<Longrightarrow> res_bind m f = res_bind m' g"
  by (simp add: res_bind_def split: sum.splits)

lemma res_bind_eq_Inr: "res_bind m f = Inr y \<longleftrightarrow> (\<exists>x. m = Inr x \<and> f x = Inr y)"
  by (cases m) auto

named_theorems codec_simps \<open>round trips and lengths of the encoders\<close>
named_theorems cf_simps \<open>column family contents under the engine operations\<close>

subsection \<open>Lists and lexicographic order\<close>

lemma lex_append_same_length:
  fixes u v x y :: "'a :: linorder list"
  assumes "length u = length v"
  shows "u @ x < v @ y \<longleftrightarrow> u < v \<or> (u = v \<and> x < y)"
  using assms by (induction u v rule: list_induct2) auto

lemma lex_less_append_shorter:
  fixes u v x :: "'a :: linorder list"
  assumes "length v < length u"
  shows "u @ x < v \<longleftrightarrow> u < v"
  using assms
proof (induction u arbitrary: v)
  case Nil
  then show ?case by simp
next
  case (Cons a u)
  then show ?case by (cases v) auto
qed

lemma lex_shorter_less_append:
  fixes u v x :: "'a :: linorder list"
  assumes "length v < length u"
  shows "v < u @ x \<longleftrightarrow> v < u"
  using assms
proof (induction u arbitrary: v)
  case Nil
  then show ?case by simp
next
  case (Cons a u)
  then show ?case by (cases v) auto
qed

lemma lex_append_less_prefix_free:
  fixes u v :: "'a :: linorder list"
  assumes "u < v" and "\<And>w. v \<noteq> u @ w"
  shows "u @ r < v @ s"
  using assms
proof (induction u arbitrary: v)
  case Nil
  then show ?case by (cases v) auto
next
  case (Cons a u)
  then show ?case by (cases v) auto
qed

lemma lex_map_antimono:
  fixes f :: "'a :: linorder \<Rightarrow> 'b :: linorder"
  assumes "length u = length v"
    and "\<And>a b. f a < f b \<longleftrightarrow> b < a"
  shows "map f u < map f v \<longleftrightarrow> v < u"
proof -
  have eq: "f a = f b \<longleftrightarrow> a = b" for a b
    by (metis assms(2) linorder_neq_iff)
  show ?thesis
    using assms(1) by (induction u v rule: list_induct2) (auto simp: assms(2) eq)
qed

lemma lex_map_antimono_prefix_free:
  fixes f :: "'a :: linorder \<Rightarrow> 'b :: linorder"
  assumes "u < v" and "\<And>w. v \<noteq> u @ w" and "\<And>a b. f a < f b \<longleftrightarrow> b < a"
  shows "map f v < map f u"
  using assms(1,2)
proof (induction u arbitrary: v)
  case Nil
  then show ?case by auto
next
  case (Cons a u)
  then show ?case by (cases v) (auto simp: assms(3))
qed

lemma sorted_wrt_dropWhile:
  "sorted_wrt P xs \<Longrightarrow> sorted_wrt P (dropWhile Q xs)"
  by (induction xs) auto

lemma sorted_wrt_set_unique:
  assumes "sorted_wrt R xs" "sorted_wrt R ys" "set xs = set ys"
    and asym: "\<And>x y. R x y \<Longrightarrow> \<not> R y x"
  shows "xs = ys"
  using assms(1-3)
proof (induction xs arbitrary: ys)
  case Nil
  then show ?case by simp
next
  case (Cons x xs)
  then obtain y ys' where ys: "ys = y # ys'" by (cases ys) auto
  have irrefl: "\<not> R z z" for z using asym by blast
  have "x = y"
  proof (rule ccontr)
    assume "x \<noteq> y"
    then have "x \<in> set ys'" "y \<in> set xs" using Cons.prems(3) ys by auto
    then show False using Cons.prems(1,2) ys asym by auto
  qed
  moreover have "x \<notin> set xs" "y \<notin> set ys'" using Cons.prems(1,2) ys irrefl by auto
  then have "set xs = set ys'" using Cons.prems(3) ys \<open>x = y\<close> by auto
  ultimately show ?case using Cons ys by simp
qed

lemma dropWhile_eq_filter:
  assumes "sorted_wrt R xs"
    and "\<And>x y. R x y \<Longrightarrow> P y \<Longrightarrow> P x"
  shows "dropWhile P xs = filter (\<lambda>x. \<not> P x) xs"
  using assms(1)
proof (induction xs)
  case Nil
  then show ?case by simp
next
  case (Cons a xs)
  show ?case
  proof (cases "P a")
    case True
    with Cons show ?thesis by simp
  next
    case False
    have "\<not> P y" if "y \<in> set xs" for y
      using that Cons.prems False assms(2) by auto
    then have "filter (\<lambda>x. \<not> P x) xs = xs" by (simp add: filter_id_conv)
    with False show ?thesis by simp
  qed
qed

lemma takeWhile_eq_filter:
  assumes "sorted_wrt R xs"
    and "\<And>x y. R x y \<Longrightarrow> P y \<Longrightarrow> P x"
  shows "takeWhile P xs = filter P xs"
  using assms(1)
proof (induction xs)
  case Nil
  then show ?case by simp
next
  case (Cons a xs)
  show ?case
  proof (cases "P a")
    case True
    with Cons show ?thesis by simp
  next
    case False
    have "\<not> P y" if "y \<in> set xs" for y
      using that Cons.prems False assms(2) by auto
    then have "filter P xs = []" by (simp add: filter_empty_conv)
    with False show ?thesis by simp
  qed
qed

subsection \<open>Big-endian integers (encoding/binary)\<close>

text \<open>
  \<^verbatim>\<open>binary.BigEndian.PutUint64(buf, v)\<close> stores the bytes of \<open>v\<close> from the most
  significant one; \<^verbatim>\<open>binary.BigEndian.Uint64\<close> reads eight bytes back.
\<close>

definition PutUint64 :: "u64 \<Rightarrow> bytes" where
  "PutUint64 v = map (\<lambda>i. ucast (drop_bit (8 * i) v)) (rev [0..<8])"

definition Uint64 :: "bytes \<Rightarrow> u64" where
  "Uint64 bs = foldl (\<lambda>acc b. push_bit 8 acc OR ucast b) 0 bs"

text \<open>
  Both are related to the digits of a natural number in base 256, most significant
  first, which gives the order and the round trip by induction on the length.
\<close>

definition be_digits :: "nat \<Rightarrow> nat \<Rightarrow> bytes" where
  "be_digits n x = map (\<lambda>i. of_nat (x div 256 ^ i)) (rev [0..<n])"

lemma be_digits_simps [simp]:
  "be_digits 0 x = []"
  "be_digits (Suc n) x = of_nat (x div 256 ^ n) # be_digits n x"
  by (simp_all add: be_digits_def)

lemma length_be_digits [simp]: "length (be_digits n x) = n"
  by (simp add: be_digits_def)

lemma unat_drop_bit_div: "unat (drop_bit n v) = unat v div 2 ^ n" for v :: "'a :: len word"
  by (simp add: unat_drop_bit_eq flip: drop_bit_eq_div)

lemma ucast_drop_bit_byte: "(ucast (drop_bit n v) :: byte) = of_nat (unat v div 2 ^ n)"
  for v :: u64
proof -
  have "(ucast (drop_bit n v) :: byte) = of_nat (unat (drop_bit n v))" by simp
  also have "unat (drop_bit n v) = unat v div 2 ^ n" by (rule unat_drop_bit_div)
  finally show ?thesis .
qed

lemma PutUint64_be_digits: "PutUint64 v = be_digits 8 (unat v)"
  unfolding PutUint64_def be_digits_def ucast_drop_bit_byte power_mult by simp

lemma div_mod_step: "x mod (b ^ Suc n) = (x div b ^ n mod b) * b ^ n + x mod b ^ n" for x b :: nat
  by (metis add.commute mod_mult2_eq mult.commute power_Suc2 power_Suc)

lemma unat_mod_256_8: "unat v mod 256 ^ 8 = unat v" for v :: u64
proof -
  have "unat v < 2 ^ LENGTH(64)" by (rule unsigned_less)
  then show ?thesis by simp
qed

lemma push_bit_or_byte: "push_bit 8 acc OR ucast (b::byte) = acc * 256 + ucast b" for acc :: u64
proof -
  have "push_bit 8 acc AND ucast b = 0"
    by (rule bit_word_eqI) (auto simp: bit_simps dest: bit_imp_le_length)
  then have "push_bit 8 acc OR ucast b = push_bit 8 acc + ucast b"
    by (simp add: disjunctive_add_eq_or)
  then show ?thesis by (simp add: push_bit_eq_mult)
qed

lemma be_digits_less: "be_digits n x < be_digits n y \<longleftrightarrow> x mod 256 ^ n < y mod 256 ^ n"
proof (induction n)
  case 0
  then show ?case by simp
next
  case (Suc n)
  let ?b = "256 ^ n :: nat"
  have d: "z mod 256 ^ Suc n = (z div ?b mod 256) * ?b + z mod ?b" for z
    by (rule div_mod_step)
  have lt: "(of_nat (x div ?b) :: byte) < of_nat (y div ?b) \<longleftrightarrow> x div ?b mod 256 < y div ?b mod 256"
    by (simp add: word_less_nat_alt unat_of_nat)
  have eq: "(of_nat (x div ?b) :: byte) = of_nat (y div ?b) \<longleftrightarrow> x div ?b mod 256 = y div ?b mod 256"
    by (simp add: word_unat_eq_iff unat_of_nat)
  have "p * ?b + r < q * ?b + s \<longleftrightarrow> p < q \<or> (p = q \<and> r < s)"
    if "r < ?b" "s < ?b" for p q r s :: nat
  proof (cases p q rule: linorder_cases)
    case less
    then have "p * ?b + ?b \<le> q * ?b"
      by (metis Suc_leI add.commute mult_Suc mult_le_mono1)
    with less that show ?thesis by simp
  next
    case equal
    then show ?thesis by simp
  next
    case greater
    then have "q * ?b + ?b \<le> p * ?b"
      by (metis Suc_leI add.commute mult_Suc mult_le_mono1)
    with greater that show ?thesis by simp
  qed
  from this [of "x mod ?b" "y mod ?b"] show ?case
    unfolding d by (simp add: lt eq Suc.IH)
qed

lemma PutUint64_less [codec_simps]: "PutUint64 a < PutUint64 b \<longleftrightarrow> a < b"
  unfolding PutUint64_be_digits be_digits_less unat_mod_256_8 word_less_nat_alt ..

lemma length_PutUint64 [simp]: "length (PutUint64 v) = 8"
  by (simp add: PutUint64_def)

lemma be_digits_mod: "be_digits n (a * 256 ^ n + r) = be_digits n r"
proof -
  have "(of_nat ((a * 256 ^ n + r) div 256 ^ i) :: byte) = of_nat (r div 256 ^ i)" if i: "i < n" for i
  proof -
    obtain j where n: "n = Suc (i + j)" using less_imp_Suc_add [OF i] by auto
    have "a * 256 ^ n + r = (a * 256 ^ j * 256) * 256 ^ i + r"
      by (simp add: n power_add)
    then have "(a * 256 ^ n + r) div 256 ^ i = a * 256 ^ j * 256 + r div 256 ^ i"
      by (simp only:) simp
    then show ?thesis by (simp only: word_unat_eq_iff unat_of_nat) simp
  qed
  then show ?thesis by (simp add: be_digits_def)
qed

fun be_value :: "bytes \<Rightarrow> nat" where
  "be_value [] = 0"
| "be_value (b # bs) = unat b * 256 ^ length bs + be_value bs"

lemma be_value_less: "be_value bs < 256 ^ length bs"
proof (induction bs)
  case Nil
  then show ?case by simp
next
  case (Cons b bs)
  have "unat b < 2 ^ LENGTH(8)" by (rule unsigned_less)
  then have "Suc (unat b) \<le> 256" by simp
  then have "Suc (unat b) * 256 ^ length bs \<le> 256 * 256 ^ length bs"
    by (rule mult_le_mono1)
  with Cons.IH show ?case
    by (simp only: be_value.simps length_Cons power_Suc mult_Suc)
qed

lemma be_digits_be_value: "be_digits (length bs) (be_value bs) = bs"
proof (induction bs)
  case Nil
  then show ?case by simp
next
  case (Cons b bs)
  with be_value_less [of bs] show ?case by (simp add: be_digits_mod)
qed

lemma Uint64_foldl: "foldl (\<lambda>acc b. push_bit 8 acc OR ucast b) acc bs
    = acc * 256 ^ length bs + of_nat (be_value bs)" for acc :: u64
proof (induction bs arbitrary: acc)
  case Nil
  then show ?case by simp
next
  case (Cons b bs)
  have "(ucast b :: u64) = of_nat (unat b)" by simp
  then show ?case by (simp only: foldl_Cons Cons.IH) (simp add: push_bit_or_byte algebra_simps)
qed

lemma Uint64_be_value: "Uint64 bs = of_nat (be_value bs)"
  by (simp add: Uint64_def Uint64_foldl)

lemma PutUint64_Uint64 [codec_simps]:
  assumes "length bs = 8" shows "PutUint64 (Uint64 bs) = bs"
proof -
  have "be_value bs < 256 ^ 8" using be_value_less [of bs] assms by simp
  then have "unat (Uint64 bs) = be_value bs" by (simp add: Uint64_be_value unat_of_nat)
  then show ?thesis
    using be_digits_be_value [of bs] by (simp only: PutUint64_be_digits assms)
qed

lemma PutUint64_inject [simp]: "PutUint64 a = PutUint64 b \<longleftrightarrow> a = b"
  using PutUint64_less [of a b] PutUint64_less [of b a] by (metis less_irrefl linorder_neqE)

lemma Uint64_PutUint64 [simp]: "Uint64 (PutUint64 v) = v"
  using PutUint64_Uint64 [OF length_PutUint64] by (simp only: PutUint64_inject)

subsection \<open>Unsigned LEB128 varints (encoding/binary)\<close>

text \<open>
  \<^verbatim>\<open>binary.PutUvarint\<close> emits seven bits per byte, least significant first, with the
  high bit set on all but the last byte. \<^verbatim>\<open>binary.Uvarint\<close> returns the value and the
  number of bytes read: 0 when the buffer is too short, negative on overflow.
\<close>

function PutUvarint :: "u64 \<Rightarrow> bytes" where
  "PutUvarint x =
     (if 128 \<le> x then (ucast x OR 128) # PutUvarint (drop_bit 7 x) else [ucast x])"
  by pat_completeness auto
termination
  by (relation "measure unat")
    (auto simp: unat_drop_bit_div word_le_nat_alt intro!: div_less_dividend)

declare PutUvarint.simps [simp del]

definition MaxVarintLen64 :: nat where
  "MaxVarintLen64 = 10"

fun Uvarint_loop :: "bytes \<Rightarrow> nat \<Rightarrow> u64 \<Rightarrow> nat \<Rightarrow> u64 \<times> int" where
  "Uvarint_loop [] i x s = (0, 0)"
| "Uvarint_loop (b # buf) i x s =
     (if i = MaxVarintLen64 then (0, - (int i + 1))
      else if b < 128 then
        (if i = MaxVarintLen64 - 1 \<and> b > 1 then (0, - (int i + 1))
         else (x OR push_bit s (ucast b), int i + 1))
      else Uvarint_loop buf (i + 1) (x OR push_bit s (ucast (b AND 127))) (s + 7))"

definition Uvarint :: "bytes \<Rightarrow> u64 \<times> int" where
  "Uvarint buf = Uvarint_loop buf 0 0 0"

lemma varint_byte_join:
  "(x OR push_bit s (ucast ((ucast v OR 128 :: byte) AND 127))) OR push_bit (7 + s) (drop_bit 7 v)
     = x OR push_bit s v" for x v :: u64
proof -
  have "push_bit s (ucast ((ucast v OR 128 :: byte) AND 127)) OR push_bit (7 + s) (drop_bit 7 v)
      = push_bit s v"
  proof (rule bit_word_eqI)
    fix n assume "n < LENGTH(64)"
    have b127: "bit (127 :: int) m \<longleftrightarrow> m < 7" for m
      using bit_mask_iff [of 7 m, where ?'a = int] by (simp add: mask_eq_exp_minus_1)
    have b128: "bit (128 :: int) m \<longleftrightarrow> m = 7" for m
      using bit_exp_iff [of 7 m, where ?'a = int] by auto
    show "bit (push_bit s (ucast ((ucast v OR 128 :: byte) AND 127)) OR push_bit (7 + s) (drop_bit 7 v)) n
       = bit (push_bit s v) n"
      using \<open>n < LENGTH(64)\<close>
      by (cases "n < s + 7") (auto simp: bit_simps b127 b128)
  qed
  then show ?thesis by (simp add: or.assoc)
qed

lemma Uvarint_loop_Put:
  assumes "i \<le> 9" and "unat v < 2 ^ (64 - 7 * i)"
  shows "Uvarint_loop (PutUvarint v @ rest) i x (7 * i)
    = (x OR push_bit (7 * i) v, int i + int (length (PutUvarint v)))"
  using assms
proof (induction v arbitrary: i x rule: PutUvarint.induct)
  case (1 v)
  show ?case
  proof (cases "128 \<le> v")
    case True
    then have v: "128 \<le> unat v" by (simp add: word_le_nat_alt)
    have i9: "i \<noteq> 9"
    proof
      assume "i = 9"
      with "1.prems" v show False by simp
    qed
    define m where "m = 64 - 7 * (i + 1)"
    have m: "64 - 7 * i = 7 + m" using "1.prems" i9 by (simp add: m_def)
    have "unat v < 2 ^ 7 * 2 ^ m"
      using "1.prems"(2) unfolding m power_add .
    then have "unat v div 2 ^ 7 < 2 ^ m"
      by (simp only: less_mult_imp_div_less mult.commute)
    then have d: "unat (drop_bit 7 v) < 2 ^ (64 - 7 * (i + 1))"
      by (simp only: unat_drop_bit_div m_def)
    have nb: "\<not> (ucast v OR 128 :: byte) < 128"
    proof -
      have "128 \<le> (ucast v OR 128 :: byte)" by (rule le_word_or1)
      then show ?thesis by simp
    qed
    have s: "7 * i + 7 = 7 * (i + 1)" by simp
    show ?thesis
      using True nb i9 "1.prems"(1) "1.IH" [OF True _ d, of "x OR push_bit (7 * i) (ucast ((ucast v OR 128 :: byte) AND 127))"]
      by (simp add: PutUvarint.simps [of v] MaxVarintLen64_def varint_byte_join s)
  next
    case False
    then have v: "unat v < 128" by (simp add: word_le_nat_alt word_less_nat_alt)
    have b: "unat (ucast v :: byte) = unat v" using v by (simp add: unsigned_ucast_eq take_bit_nat_eq_self)
    have "(ucast v :: byte) < 128" using b v by (simp add: word_less_nat_alt)
    moreover have "ucast (ucast v :: byte) = v" using v by (simp add: word_unat_eq_iff unsigned_ucast_eq unsigned_take_bit_eq take_bit_nat_eq_self)
    moreover have "\<not> (i = 9 \<and> (ucast v :: byte) > 1)"
      using "1.prems" b by (auto simp: word_less_nat_alt)
    ultimately show ?thesis
      using False "1.prems"(1) by (simp add: PutUvarint.simps [of v] MaxVarintLen64_def)
  qed
qed

lemma Uvarint_Put [simp]:
  "Uvarint (PutUvarint v @ rest) = (v, int (length (PutUvarint v)))"
proof -
  have "unat v < 2 ^ LENGTH(64)" by (rule unsigned_less)
  then show ?thesis using Uvarint_loop_Put [of 0 v rest 0] by (simp add: Uvarint_def)
qed

lemma length_PutUvarint_pos [simp]: "0 < length (PutUvarint v)"
  by (subst PutUvarint.simps) simp

lemma PutUvarint_nonempty [simp]: "PutUvarint v \<noteq> []"
  by (rule length_greater_0_conv [THEN iffD1, OF length_PutUvarint_pos])

subsection \<open>Inversion and the sign bit\<close>

lemma map_NOT_NOT [simp]: "map NOT (map NOT (bs :: bytes)) = bs"
  by (simp add: comp_def)

lemma unat_NOT: "unat (NOT (a :: 'a::len word)) = unat (- 1 :: 'a word) - unat a"
proof -
  have "NOT a = - 1 - a" by (simp add: not_eq_complement)
  then show ?thesis by (simp only: unat_sub [OF word_order.extremum])
qed

lemma NOT_less_iff: "NOT (a :: 'a::len word) < NOT b \<longleftrightarrow> b < a"
proof -
  have le: "unat c \<le> unat (- 1 :: 'a word)" for c :: "'a word"
    by (simp only: word_le_nat_alt [symmetric] word_order.extremum)
  show ?thesis using le [of a] le [of b] unfolding word_less_nat_alt unat_NOT by linarith
qed

lemma map_NOT_less: 
  "length (x :: bytes) = length y \<Longrightarrow> map NOT x < map NOT y \<longleftrightarrow> y < x"
  by (rule lex_map_antimono) (auto simp: NOT_less_iff)

lemma bit_sign_mask [simp]:
  "bit (9223372036854775808 :: int) n \<longleftrightarrow> n = 63" "bit (9223372036854775808 :: u64) n \<longleftrightarrow> n = 63"
  using bit_exp_iff [of 63 n, where 'a = int] bit_exp_iff [of 63 n, where 'a = u64] by auto

lemma sign_flip_add: "(v :: u64) XOR push_bit 63 1 = v + push_bit 63 1"
proof (cases "bit v 63")
  case False
  have "v AND push_bit 63 1 = 0"
    using False by (intro bit_word_eqI) (auto simp: bit_simps)
  then show ?thesis by (rule disjunctive_add_eq_xor [symmetric])
next
  case True
  let ?y = "v XOR push_bit 63 1"
  have "?y AND push_bit 63 1 = 0"
    using True by (intro bit_word_eqI) (auto simp: bit_simps)
  then have "?y + push_bit 63 1 = ?y XOR push_bit 63 1" by (rule disjunctive_add_eq_xor)
  also have "\<dots> = v" by (simp add: xor.assoc)
  finally have "?y + push_bit 63 1 + push_bit 63 1 = v + push_bit 63 1" by (rule arg_cong)
  moreover have "(push_bit 63 1 :: u64) + push_bit 63 1 = 0" by simp
  ultimately show ?thesis by (simp only: add.assoc add.right_neutral)
qed

lemma sign_test: "(v :: u64) AND push_bit 63 1 = 0 \<longleftrightarrow> \<not> bit v 63"
proof
  assume "v AND push_bit 63 1 = 0"
  then have "\<not> bit (v AND push_bit 63 1) 63" by simp
  then show "\<not> bit v 63" by (simp add: bit_and_iff)
next
  assume "\<not> bit v 63"
  then show "v AND push_bit 63 1 = 0" by (intro bit_word_eqI) (auto simp: bit_simps)
qed

lemma sign_bit_uint: "bit (v :: u64) 63 \<longleftrightarrow> 2 ^ 63 \<le> uint v"
proof -
  have "uint v < 2 ^ 64" using uint_lt2p [of v] by simp
  then have "uint v div 2 ^ 63 = 0 \<or> uint v div 2 ^ 63 = 1"
    using uint_ge_0 [of v] by auto
  moreover have "bit v 63 \<longleftrightarrow> bit (uint v) 63" by (simp add: bit_uint_iff)
  moreover have "bit (uint v) 63 \<longleftrightarrow> odd (uint v div 2 ^ 63)" by (rule bit_iff_odd)
  ultimately show ?thesis using uint_ge_0 [of v] by auto
qed

lemma uint_NOT64: "uint (NOT (v :: u64)) = 2 ^ 64 - 1 - uint v"
proof -
  have "NOT v = - 1 - v" by (simp add: not_eq_complement)
  moreover have "uint (- 1 - v) = uint (- 1 :: u64) - uint v"
    by (rule uint_minus_simple_iff [THEN iffD1, OF word_order.extremum])
  ultimately show ?thesis by (simp add: unsigned_minus_1_eq_mask mask_eq_exp_minus_1)
qed

lemma sint_sign: "sint (v :: u64) < 0 \<longleftrightarrow> bit v 63"
  by (simp add: sint_uint bit_uint_iff signed_take_bit_negative_iff)

end
