(* ===== verification/Codec.thy ===== *)
theory Codec
  imports Gookv_Prelude
begin

unbundle bit_operations_syntax

section \<open>Package codec: memcomparable and number encodings\<close>

text \<open>
  Models \<^verbatim>\<open>pkg/codec/bytes.go\<close> and \<^verbatim>\<open>pkg/codec/number.go\<close>. The encoders append to
  \<open>dst\<close>; the decoders return the value and the unread rest, or an error. A
  \<^verbatim>\<open>float64\<close> is its IEEE-754 bit pattern (\<^verbatim>\<open>math.Float64bits\<close> is the identity on it).

  The locale \<open>codec\<close> states what a decoder promises of its encoder, \<open>ordered_codec\<close>
  adds that the encoding preserves an order under byte comparison, and
  \<open>codec_pair\<close> composes two of them by concatenation. Every encoder of the package is
  an interpretation.
\<close>

subsection \<open>bytes.go\<close>

definition encGroupSize :: nat where
  "encGroupSize = 8"

definition encMarker :: byte where
  "encMarker = 0xFF"

definition encPad :: byte where
  "encPad = 0"

definition EncodedBytesLength :: "nat \<Rightarrow> nat" where
  "EncodedBytesLength srcLen = (srcLen div encGroupSize + 1) * (encGroupSize + 1)"

lemmas enc_consts = encGroupSize_def encMarker_def encPad_def

text \<open>The loop over full groups, then the padded final group.\<close>

function EncodeBytes_loop :: "bytes \<Rightarrow> bytes" where
  "EncodeBytes_loop data =
     (if encGroupSize \<le> length data
      then take encGroupSize data @ [encMarker] @ EncodeBytes_loop (drop encGroupSize data)
      else (let padCount = encGroupSize - length data in
            data @ replicate padCount encPad @ [encMarker - of_nat padCount]))"
  by pat_completeness auto
termination
  by (relation "measure length") (auto simp: encGroupSize_def)

declare EncodeBytes_loop.simps [simp del]

definition EncodeBytes :: "bytes \<Rightarrow> bytes \<Rightarrow> bytes" where
  "EncodeBytes dst data = dst @ EncodeBytes_loop data"

definition EncodeBytesDesc :: "bytes \<Rightarrow> bytes \<Rightarrow> bytes" where
  "EncodeBytesDesc dst data =
     (let result = EncodeBytes dst data; start = length dst in
      take start result @ map NOT (drop start result))"

function DecodeBytes_loop :: "bytes \<Rightarrow> bytes \<Rightarrow> (bytes \<times> bytes) res" where
  "DecodeBytes_loop result data =
     (if length data < encGroupSize + 1 then Inl ErrInsufficientData
      else
        let group = take encGroupSize data;
            marker = data ! encGroupSize;
            data' = drop (encGroupSize + 1) data in
        if marker = encMarker then DecodeBytes_loop (result @ group) data'
        else
          let padCount = unat (encMarker - marker) in
          if encGroupSize < padCount then Inl ErrInvalidEncodedKey
          else
            let realLen = encGroupSize - padCount in
            if list_all (\<lambda>b. b = encPad) (drop realLen group)
            then Inr (result @ take realLen group, data')
            else Inl ErrInvalidEncodedKey)"
  by pat_completeness auto
termination
  by (relation "measure (\<lambda>(result, data). length data)") auto

declare DecodeBytes_loop.simps [simp del]

definition DecodeBytes :: "bytes \<Rightarrow> (bytes \<times> bytes) res" where
  "DecodeBytes data = DecodeBytes_loop [] data"

text \<open>The descending decoder inverts each group and its marker as it reads them.\<close>

function DecodeBytesDesc_loop :: "bytes \<Rightarrow> bytes \<Rightarrow> (bytes \<times> bytes) res" where
  "DecodeBytesDesc_loop result data =
     (if length data < encGroupSize + 1 then Inl ErrInsufficientData
      else
        let group = map NOT (take encGroupSize data);
            marker = NOT (data ! encGroupSize);
            data' = drop (encGroupSize + 1) data in
        if marker = encMarker then DecodeBytesDesc_loop (result @ group) data'
        else
          let padCount = unat (encMarker - marker) in
          if encGroupSize < padCount then Inl ErrInvalidEncodedKey
          else
            let realLen = encGroupSize - padCount in
            if list_all (\<lambda>b. b = encPad) (drop realLen group)
            then Inr (result @ take realLen group, data')
            else Inl ErrInvalidEncodedKey)"
  by pat_completeness auto
termination
  by (relation "measure (\<lambda>(result, data). length data)") auto

declare DecodeBytesDesc_loop.simps [simp del]

definition DecodeBytesDesc :: "bytes \<Rightarrow> (bytes \<times> bytes) res" where
  "DecodeBytesDesc data = DecodeBytesDesc_loop [] data"

subsection \<open>number.go\<close>

definition EncodeUint64 :: "bytes \<Rightarrow> u64 \<Rightarrow> bytes" where
  "EncodeUint64 dst v = dst @ PutUint64 v"

definition EncodeUint64Desc :: "bytes \<Rightarrow> u64 \<Rightarrow> bytes" where
  "EncodeUint64Desc dst v = dst @ PutUint64 (NOT v)"

definition DecodeUint64 :: "bytes \<Rightarrow> (u64 \<times> bytes) res" where
  "DecodeUint64 data =
     (if length data < 8 then Inl ErrInsufficientData
      else Inr (Uint64 (take 8 data), drop 8 data))"

definition DecodeUint64Desc :: "bytes \<Rightarrow> (u64 \<times> bytes) res" where
  "DecodeUint64Desc data =
     (if length data < 8 then Inl ErrInsufficientData
      else Inr (NOT (Uint64 (take 8 data)), drop 8 data))"

text \<open>An \<^verbatim>\<open>int64\<close> is a 64-bit word read in two's complement.\<close>

definition encodeInt64ToComparable :: "u64 \<Rightarrow> u64" where
  "encodeInt64ToComparable v = v XOR push_bit 63 1"

definition decodeComparableToInt64 :: "u64 \<Rightarrow> u64" where
  "decodeComparableToInt64 u = u XOR push_bit 63 1"

definition EncodeInt64 :: "bytes \<Rightarrow> u64 \<Rightarrow> bytes" where
  "EncodeInt64 dst v = EncodeUint64 dst (encodeInt64ToComparable v)"

definition DecodeInt64 :: "bytes \<Rightarrow> (u64 \<times> bytes) res" where
  "DecodeInt64 data =
     (case DecodeUint64 data of
        Inl e \<Rightarrow> Inl e
      | Inr (u, rest) \<Rightarrow> Inr (decodeComparableToInt64 u, rest))"

definition encodeFloat64ToComparable :: "u64 \<Rightarrow> u64" where
  "encodeFloat64ToComparable bits =
     (if bits AND push_bit 63 1 = 0 then bits XOR push_bit 63 1 else NOT bits)"

definition decodeComparableToFloat64 :: "u64 \<Rightarrow> u64" where
  "decodeComparableToFloat64 u =
     (if u AND push_bit 63 1 \<noteq> 0 then u XOR push_bit 63 1 else NOT u)"

definition EncodeFloat64 :: "bytes \<Rightarrow> u64 \<Rightarrow> bytes" where
  "EncodeFloat64 dst v = EncodeUint64 dst (encodeFloat64ToComparable v)"

definition DecodeFloat64 :: "bytes \<Rightarrow> (u64 \<times> bytes) res" where
  "DecodeFloat64 data =
     (case DecodeUint64 data of
        Inl e \<Rightarrow> Inl e
      | Inr (u, rest) \<Rightarrow> Inr (decodeComparableToFloat64 u, rest))"

definition EncodeVarint :: "bytes \<Rightarrow> u64 \<Rightarrow> bytes" where
  "EncodeVarint dst v = dst @ PutUvarint v"

definition DecodeVarint :: "bytes \<Rightarrow> (u64 \<times> bytes) res" where
  "DecodeVarint data =
     (let (v, n) = Uvarint data in
      if n = 0 then Inl ErrInsufficientData
      else if n < 0 then Inl ErrInvalidEncodedKey
      else Inr (v, drop (nat n) data))"

text \<open>\<^verbatim>\<open>binary.PutVarint\<close> and \<^verbatim>\<open>binary.Varint\<close>: zig-zag over the unsigned varint.\<close>

definition PutVarint :: "u64 \<Rightarrow> bytes" where
  "PutVarint x =
     (let ux = push_bit 1 x in PutUvarint (if sint x < 0 then NOT ux else ux))"

definition Varint :: "bytes \<Rightarrow> u64 \<times> int" where
  "Varint buf =
     (let (ux, n) = Uvarint buf; x = drop_bit 1 ux in
      (if ux AND 1 \<noteq> 0 then NOT x else x, n))"

definition EncodeSignedVarint :: "bytes \<Rightarrow> u64 \<Rightarrow> bytes" where
  "EncodeSignedVarint dst v = dst @ PutVarint v"

definition DecodeSignedVarint :: "bytes \<Rightarrow> (u64 \<times> bytes) res" where
  "DecodeSignedVarint data =
     (let (v, n) = Varint data in
      if n = 0 then Inl ErrInsufficientData
      else if n < 0 then Inl ErrInvalidEncodedKey
      else Inr (v, drop (nat n) data))"

subsection \<open>What an encoding promises\<close>

locale codec =
  fixes enc :: "'a \<Rightarrow> bytes"
    and dec :: "bytes \<Rightarrow> ('a \<times> bytes) res"
  assumes dec_enc: "dec (enc x @ rest) = Inr (x, rest)"
begin

lemma enc_append_inject: "enc x @ r = enc y @ s \<longleftrightarrow> x = y \<and> r = s"
  by (metis dec_enc prod.inject sum.inject(2))

lemma enc_inject: "enc x = enc y \<longleftrightarrow> x = y"
  using enc_append_inject [of x "[]" y "[]"] by simp

end

locale ordered_codec = codec enc dec
  for enc :: "'a \<Rightarrow> bytes" and dec :: "bytes \<Rightarrow> ('a \<times> bytes) res" +
  fixes lt :: "'a \<Rightarrow> 'a \<Rightarrow> bool"
  assumes enc_less: "enc x < enc y \<longleftrightarrow> lt x y"
begin

lemma lt_irrefl: "\<not> lt x x"
  using enc_less [of x x] by simp

lemma lt_trans: "lt x y \<Longrightarrow> lt y z \<Longrightarrow> lt x z"
  by (metis enc_less less_trans)

lemma lt_total: "lt x y \<or> x = y \<or> lt y x"
  by (metis enc_inject enc_less linorder_neqE)

lemma enc_append_less: "enc x @ r < enc y @ s \<longleftrightarrow> lt x y \<or> (x = y \<and> r < s)"
proof -
  have pre: "enc y \<noteq> enc x @ w" if "x \<noteq> y" for x y w
    using that enc_append_inject [of x w y "[]"] by simp
  consider "lt x y" | "x = y" | "lt y x" using lt_total by blast
  then show ?thesis
  proof cases
    case 1
    then have "x \<noteq> y" using lt_irrefl by blast
    with 1 pre show ?thesis by (simp add: enc_less lex_append_less_prefix_free)
  next
    case 2
    then show ?thesis
      by (simp add: lt_irrefl lex_append_same_length)
  next
    case 3
    then have ne: "x \<noteq> y" using lt_irrefl by blast
    have "\<not> lt x y" using 3 lt_irrefl lt_trans by blast
    moreover have "enc y @ s < enc x @ r"
      using 3 ne pre [of y x] by (intro lex_append_less_prefix_free) (auto simp: enc_less)
    ultimately show ?thesis using ne by (auto dest: less_asym)
  qed
qed

lemma sorted_enc: "sorted_wrt (<) (map enc xs) \<longleftrightarrow> sorted_wrt lt xs"
  by (induction xs) (auto simp: enc_less)

end

locale canonical_codec = codec enc dec
  for enc :: "'a \<Rightarrow> bytes" and dec :: "bytes \<Rightarrow> ('a \<times> bytes) res" +
  assumes dec_canonical: "dec d = Inr (x, rest) \<Longrightarrow> d = enc x @ rest"
begin

lemma dec_iff: "dec d = Inr (x, rest) \<longleftrightarrow> d = enc x @ rest"
  using dec_canonical dec_enc by blast

end

definition enc_pair :: "('a \<Rightarrow> bytes) \<Rightarrow> ('b \<Rightarrow> bytes) \<Rightarrow> 'a \<times> 'b \<Rightarrow> bytes" where
  "enc_pair e1 e2 p = e1 (fst p) @ e2 (snd p)"

definition dec_pair ::
  "(bytes \<Rightarrow> ('a \<times> bytes) res) \<Rightarrow> (bytes \<Rightarrow> ('b \<times> bytes) res) \<Rightarrow> bytes \<Rightarrow> (('a \<times> 'b) \<times> bytes) res"
where
  "dec_pair d1 d2 d =
     (case d1 d of
        Inl e \<Rightarrow> Inl e
      | Inr (a, r) \<Rightarrow> (case d2 r of Inl e \<Rightarrow> Inl e | Inr (b, r') \<Rightarrow> Inr ((a, b), r')))"

definition lt_pair :: "('a \<Rightarrow> 'a \<Rightarrow> bool) \<Rightarrow> ('b \<Rightarrow> 'b \<Rightarrow> bool) \<Rightarrow> 'a \<times> 'b \<Rightarrow> 'a \<times> 'b \<Rightarrow> bool" where
  "lt_pair l1 l2 p q \<longleftrightarrow> l1 (fst p) (fst q) \<or> (fst p = fst q \<and> l2 (snd p) (snd q))"

locale codec_pair =
  c1: canonical_codec enc1 dec1 + c1: ordered_codec enc1 dec1 lt1 +
  c2: canonical_codec enc2 dec2 + c2: ordered_codec enc2 dec2 lt2
  for enc1 :: "'a \<Rightarrow> bytes" and dec1 lt1 and enc2 :: "'b \<Rightarrow> bytes" and dec2 lt2

sublocale codec_pair \<subseteq> pair: canonical_codec "enc_pair enc1 enc2" "dec_pair dec1 dec2"
  by unfold_locales
    (auto simp: enc_pair_def dec_pair_def c1.dec_enc c2.dec_enc
      dest!: c1.dec_canonical c2.dec_canonical split: sum.splits)

sublocale codec_pair \<subseteq> pair: ordered_codec "enc_pair enc1 enc2" "dec_pair dec1 dec2" "lt_pair lt1 lt2"
  by unfold_locales (auto simp: enc_pair_def lt_pair_def c1.enc_append_less c2.enc_less)

subsection \<open>The memcomparable byte encoding\<close>

definition enc_group :: "bytes \<Rightarrow> bytes" where
  "enc_group x = x @ replicate (8 - length x) 0 @ [255 - of_nat (8 - length x)]"

lemma length_enc_group: "length x \<le> 8 \<Longrightarrow> length (enc_group x) = 9"
  by (simp add: enc_group_def)

lemma EncodeBytes_loop_group:
  "EncodeBytes_loop data =
     (if 8 \<le> length data then enc_group (take 8 data) @ EncodeBytes_loop (drop 8 data)
      else enc_group data)"
  by (subst EncodeBytes_loop.simps) (simp add: enc_consts enc_group_def Let_def)

lemma zeros_minimal: "length y = n \<Longrightarrow> replicate n (0 :: byte) = y \<or> replicate n 0 < y"
proof (induction n arbitrary: y)
  case 0
  then show ?case by simp
next
  case (Suc n)
  then obtain b z where y: "y = b # z" "length z = n" by (cases y) auto
  with Suc.IH [of z] show ?case by (auto simp: word_gt_0)
qed

lemma padded_less:
  assumes "length x \<le> n" "length y \<le> n"
  shows "(x @ replicate (n - length x) (0 :: byte) < y @ replicate (n - length y) 0 \<or>
           (x @ replicate (n - length x) 0 = y @ replicate (n - length y) 0 \<and> length x < length y))
         \<longleftrightarrow> x < y"
  using assms
proof (induction n arbitrary: x y)
  case 0
  then show ?case by simp
next
  case (Suc n)
  show ?case
  proof (cases x)
    case Nil
    show ?thesis
    proof (cases y)
      case Nil
      with \<open>x = []\<close> show ?thesis by simp
    next
      case (Cons b z)
      have "replicate n 0 = z @ replicate (n - length z) 0 \<or> replicate n 0 < z @ replicate (n - length z) 0"
        using Suc.prems Cons by (intro zeros_minimal) simp
      with \<open>x = []\<close> Cons show ?thesis by (auto simp: word_gt_0)
    qed
  next
    case (Cons a w)
    show ?thesis
    proof (cases y)
      case Nil
      have "replicate n 0 = w @ replicate (n - length w) 0 \<or> replicate n 0 < w @ replicate (n - length w) 0"
        using Suc.prems Cons by (intro zeros_minimal) simp
      then have "\<not> w @ replicate (n - length w) 0 < replicate n 0" by (metis less_asym less_irrefl)
      with \<open>x = a # w\<close> Nil show ?thesis by simp
    next
      case (Cons b z)
      with \<open>x = a # w\<close> Suc.IH [of w z] Suc.prems show ?thesis by auto
    qed
  qed
qed

lemma marker_less:
  assumes "m \<le> 8" "n \<le> 8"
  shows "(255 - of_nat (8 - m) :: byte) < 255 - of_nat (8 - n) \<longleftrightarrow> m < n"
proof -
  have "unat (255 - of_nat (8 - k) :: byte) = 247 + k" if "k \<le> 8" for k
  proof -
    have "(255 - of_nat (8 - k) :: byte) = of_nat (247 + k)"
      using that by (simp add: of_nat_diff)
    then show ?thesis using that by (simp only: unat_of_nat) simp
  qed
  with assms show ?thesis by (simp add: word_less_nat_alt)
qed

lemma enc_group_less:
  assumes "length x \<le> 8" "length y \<le> 8"
  shows "enc_group x < enc_group y \<longleftrightarrow> x < y"
proof -
  let ?p = "\<lambda>x. x @ replicate (8 - length x) (0 :: byte)"
  have "enc_group x < enc_group y \<longleftrightarrow>
      ?p x < ?p y \<or> (?p x = ?p y \<and> [255 - of_nat (8 - length x) :: byte] < [255 - of_nat (8 - length y)])"
    using lex_append_same_length [of "?p x" "?p y"] assms by (simp add: enc_group_def)
  also have "\<dots> \<longleftrightarrow> ?p x < ?p y \<or> (?p x = ?p y \<and> length x < length y)"
    using marker_less [OF assms] by simp
  also have "\<dots> \<longleftrightarrow> x < y"
    using padded_less [OF assms] .
  finally show ?thesis .
qed

lemma enc_group_inject:
  assumes "length x \<le> 8" "length y \<le> 8"
  shows "enc_group x = enc_group y \<longleftrightarrow> x = y"
  using enc_group_less [OF assms] enc_group_less [OF assms(2,1)]
  by (metis less_irrefl linorder_neqE)

lemma EncodeBytes_loop_less: "EncodeBytes_loop a < EncodeBytes_loop b \<longleftrightarrow> a < b"
proof (induction a arbitrary: b rule: length_induct)
  case (1 a)
  let ?E = EncodeBytes_loop
  consider "8 \<le> length a" "8 \<le> length b" | "8 \<le> length a" "length b < 8"
    | "length a < 8" "8 \<le> length b" | "length a < 8" "length b < 8" by linarith
  then show ?case
  proof cases
    case 1
    have IH: "?E (drop 8 a) < ?E (drop 8 b) \<longleftrightarrow> drop 8 a < drop 8 b"
      using "1.IH" 1 by auto
    have "?E a < ?E b \<longleftrightarrow>
        enc_group (take 8 a) < enc_group (take 8 b) \<or>
        (enc_group (take 8 a) = enc_group (take 8 b) \<and> ?E (drop 8 a) < ?E (drop 8 b))"
      using 1 by (simp add: EncodeBytes_loop_group [of a] EncodeBytes_loop_group [of b]
          lex_append_same_length length_enc_group)
    also have "\<dots> \<longleftrightarrow> take 8 a < take 8 b \<or> (take 8 a = take 8 b \<and> drop 8 a < drop 8 b)"
      using 1 by (simp add: enc_group_less enc_group_inject IH)
    also have "\<dots> \<longleftrightarrow> a < b"
      using lex_append_same_length [of "take 8 a" "take 8 b" "drop 8 a" "drop 8 b"] 1 by simp
    finally show ?thesis .
  next
    case 2
    have "?E a < ?E b \<longleftrightarrow> enc_group (take 8 a) < enc_group b"
      using 2 lex_append_same_length [of "enc_group (take 8 a)" "enc_group b" "?E (drop 8 a)" "[]"]
      by (simp add: EncodeBytes_loop_group [of a] EncodeBytes_loop_group [of b] length_enc_group)
    also have "\<dots> \<longleftrightarrow> take 8 a < b" using 2 by (simp add: enc_group_less)
    also have "\<dots> \<longleftrightarrow> a < b"
      using lex_less_append_shorter [of b "take 8 a" "drop 8 a"] 2 by simp
    finally show ?thesis .
  next
    case 3
    have ne: "enc_group a \<noteq> enc_group (take 8 b)"
      using 3 enc_group_inject [of a "take 8 b"] by auto
    have "?E a < ?E b \<longleftrightarrow> enc_group a < enc_group (take 8 b)"
      using 3 ne lex_append_same_length [of "enc_group a" "enc_group (take 8 b)" "[]" "?E (drop 8 b)"]
      by (simp add: EncodeBytes_loop_group [of a] EncodeBytes_loop_group [of b] length_enc_group)
    also have "\<dots> \<longleftrightarrow> a < take 8 b" using 3 by (simp add: enc_group_less)
    also have "\<dots> \<longleftrightarrow> a < b"
      using lex_shorter_less_append [of a "take 8 b" "drop 8 b"] 3 by simp
    finally show ?thesis .
  next
    case 4
    then show ?thesis
      by (simp add: EncodeBytes_loop_group [of a] EncodeBytes_loop_group [of b] enc_group_less)
  qed
qed

lemma length_EncodeBytes_loop: "length (EncodeBytes_loop data) = EncodedBytesLength (length data)"
proof (induction data rule: length_induct)
  case (1 a)
  show ?case
  proof (cases "8 \<le> length a")
    case True
    with 1 have "length (EncodeBytes_loop (drop 8 a)) = EncodedBytesLength (length a - 8)"
      by auto
    with True show ?thesis
      by (simp add: EncodeBytes_loop_group [of a] length_enc_group EncodedBytesLength_def
          encGroupSize_def le_div_geq)
  next
    case False
    then show ?thesis
      by (simp add: EncodeBytes_loop_group [of a] length_enc_group EncodedBytesLength_def
          encGroupSize_def)
  qed
qed

lemma marker_pad:
  assumes "n \<le> 8"
  shows "unat (255 - (255 - of_nat n :: byte)) = n" and "(255 - of_nat n :: byte) = 255 \<longleftrightarrow> n = 0"
proof -
  have u: "unat (of_nat n :: byte) = n" using assms by (simp add: unat_of_nat)
  then show "unat (255 - (255 - of_nat n :: byte)) = n" by simp
  have "(255 - of_nat n :: byte) = 255 \<longleftrightarrow> (of_nat n :: byte) = 0" by auto
  also have "\<dots> \<longleftrightarrow> n = 0" using u unat_eq_zero [of "of_nat n :: byte"] by auto
  finally show "(255 - of_nat n :: byte) = 255 \<longleftrightarrow> n = 0" .
qed

lemma DecodeBytes_loop_group:
  assumes "length g \<le> 8"
  shows "DecodeBytes_loop acc (enc_group g @ rest) =
    (if length g = 8 then DecodeBytes_loop (acc @ g) rest else Inr (acc @ g, rest))"
proof -
  define e where "e = enc_group g @ rest"
  have e: "\<not> length e < 9" "take 8 e = g @ replicate (8 - length g) 0"
    "e ! 8 = 255 - of_nat (8 - length g)" "drop 9 e = rest"
    using assms length_enc_group [OF assms]
    by (simp_all add: e_def enc_group_def nth_append)
  have pad: "8 - (8 - length g) = length g" "\<not> 8 < 8 - length g" using assms by simp_all
  have "DecodeBytes_loop acc e =
    (if length g = 8 then DecodeBytes_loop (acc @ g) rest else Inr (acc @ g, rest))"
    using assms marker_pad [of "8 - length g"]
    by (subst DecodeBytes_loop.simps)
      (simp add: enc_consts e pad Let_def list_all_iff del: of_nat_diff)
  then show ?thesis by (simp add: e_def)
qed

lemma DecodeBytes_loop_Encode:
  "DecodeBytes_loop acc (EncodeBytes_loop data @ rest) = Inr (acc @ data, rest)"
proof (induction data arbitrary: acc rule: length_induct)
  case (1 a)
  show ?case
  proof (cases "8 \<le> length a")
    case True
    with 1 have "DecodeBytes_loop (acc @ take 8 a) (EncodeBytes_loop (drop 8 a) @ rest)
        = Inr ((acc @ take 8 a) @ drop 8 a, rest)" by auto
    with True show ?thesis
      by (simp add: EncodeBytes_loop_group [of a] DecodeBytes_loop_group)
  next
    case False
    then show ?thesis
      by (simp add: EncodeBytes_loop_group [of a] DecodeBytes_loop_group)
  qed
qed

lemma DecodeBytes_loop_canonical:
  "DecodeBytes_loop acc d = Inr (x, rest) \<Longrightarrow>
     \<exists>y. x = acc @ y \<and> d = EncodeBytes_loop y @ rest"
proof (induction acc d rule: DecodeBytes_loop.induct)
  case (1 acc d)
  let ?g = "take 8 d" and ?m = "d ! 8" and ?r = "drop 9 d" and ?p = "unat (255 - d ! 8)"
  from "1.prems" have len: "9 \<le> length d"
    by (subst (asm) DecodeBytes_loop.simps) (simp add: enc_consts split: if_splits)
  then have d: "d = ?g @ ?m # ?r"
    using id_take_nth_drop [of 8 d] by simp
  have lg: "length ?g = 8" using len by simp
  show ?case
  proof (cases "?m = 255")
    case True
    have "DecodeBytes_loop (acc @ ?g) ?r = Inr (x, rest)"
      using "1.prems" len True
      by (subst (asm) DecodeBytes_loop.simps) (simp add: enc_consts Let_def)
    with "1.IH" [of ?g ?m ?r] len True
    obtain y where y: "x = (acc @ ?g) @ y" "?r = EncodeBytes_loop y @ rest"
      by (auto simp: enc_consts)
    have "d = EncodeBytes_loop (?g @ y) @ rest"
      using d y(2) True lg
      by (simp add: EncodeBytes_loop_group [of "?g @ y"] enc_group_def)
    with y(1) show ?thesis by auto
  next
    case False
    have res: "?p \<le> 8 \<and> list_all (\<lambda>b. b = 0) (drop (8 - ?p) ?g)
        \<and> x = acc @ take (8 - ?p) ?g \<and> rest = ?r"
      using "1.prems" len False
      by (subst (asm) DecodeBytes_loop.simps)
        (simp add: enc_consts Let_def split: if_splits)
    define g where "g = take (8 - ?p) ?g"
    have p: "?p \<le> 8" using res by simp
    have pz: "?p \<noteq> 0" using False by (simp add: unat_eq_zero)
    have g: "length g = 8 - ?p" using lg unfolding g_def by simp
    have "drop (8 - ?p) ?g = replicate ?p 0"
      using res lg p by (intro replicate_eqI) (auto simp: list_all_iff)
    then have "?g = g @ replicate ?p 0"
      unfolding g_def by (metis append_take_drop_id)
    moreover have "?m = 255 - of_nat ?p" by simp
    moreover have lt: "length g < 8" "8 - length g = ?p"
      using p pz g by linarith+
    moreover have "EncodeBytes_loop g = enc_group g"
      using lt(1) by (simp add: EncodeBytes_loop_group [of g])
    ultimately have "d = EncodeBytes_loop g @ rest"
      using d res by (simp add: enc_group_def)
    with res show ?thesis unfolding g_def by blast
  qed
qed

definition invert_rest :: "(bytes \<times> bytes) res \<Rightarrow> (bytes \<times> bytes) res" where
  "invert_rest r = (case r of Inl e \<Rightarrow> Inl e | Inr (x, rest) \<Rightarrow> Inr (x, map NOT rest))"

lemma invert_rest_simps [simp]:
  "invert_rest (Inl e) = Inl e" "invert_rest (Inr (x, rest)) = Inr (x, map NOT rest)"
  by (simp_all add: invert_rest_def)

lemma DecodeBytesDesc_loop_NOT:
  "DecodeBytesDesc_loop acc d =
     invert_rest (DecodeBytes_loop acc (map NOT d))"
proof (induction acc d rule: DecodeBytesDesc_loop.induct)
  case (1 acc d)
  let ?d = "map NOT d"
  show ?case
  proof (cases "length d < 9")
    case True
    then show ?thesis
      by (simp add: DecodeBytesDesc_loop.simps [of acc d] DecodeBytes_loop.simps [of acc ?d] enc_consts)
  next
    case False
    then have n: "map NOT d ! 8 = NOT (d ! 8)" by simp
    show ?thesis
    proof (cases "NOT (d ! 8) = 255")
      case True
      then have "DecodeBytesDesc_loop (acc @ map NOT (take 8 d)) (drop 9 d) =
          invert_rest
            (DecodeBytes_loop (acc @ map NOT (take 8 d)) (map NOT (drop 9 d)))"
        using "1.IH" [of "map NOT (take 8 d)" "NOT (d ! 8)" "drop 9 d"] False
        by (simp add: enc_consts)
      then show ?thesis using True False
        by (simp add: DecodeBytesDesc_loop.simps [of acc d] DecodeBytes_loop.simps [of acc ?d]
            enc_consts n Let_def take_map drop_map)
    next
      case m: False
      then show ?thesis using False
        by (simp add: DecodeBytesDesc_loop.simps [of acc d] DecodeBytes_loop.simps [of acc ?d]
            enc_consts n Let_def take_map drop_map comp_def)
    qed
  qed
qed

lemma EncodeBytes_append: "EncodeBytes dst data = dst @ EncodeBytes [] data"
  by (simp add: EncodeBytes_def)

lemma EncodeBytesDesc_NOT: "EncodeBytesDesc dst data = dst @ map NOT (EncodeBytes [] data)"
  by (simp add: EncodeBytesDesc_def EncodeBytes_def)

subsection \<open>Every encoder of the package is a codec\<close>

interpretation bytes_codec: canonical_codec "EncodeBytes []" DecodeBytes
  by unfold_locales
    (auto simp: EncodeBytes_def DecodeBytes_def DecodeBytes_loop_Encode dest: DecodeBytes_loop_canonical)

interpretation bytes_codec: ordered_codec "EncodeBytes []" DecodeBytes "(<)"
  by unfold_locales (simp add: EncodeBytes_def EncodeBytes_loop_less)

lemma DecodeBytesDesc_NOT:
  "DecodeBytesDesc d = invert_rest (DecodeBytes (map NOT d))"
  by (simp add: DecodeBytesDesc_def DecodeBytes_def DecodeBytesDesc_loop_NOT)

interpretation bytes_desc_codec: canonical_codec "EncodeBytesDesc []" DecodeBytesDesc
proof
  fix x rest
  show "DecodeBytesDesc (EncodeBytesDesc [] x @ rest) = Inr (x, rest)"
    by (simp add: DecodeBytesDesc_NOT EncodeBytesDesc_NOT bytes_codec.dec_enc del: map_map)
next
  fix d x rest
  assume "DecodeBytesDesc d = Inr (x, rest)"
  then obtain r where "DecodeBytes (map NOT d) = Inr (x, r)" and r: "rest = map NOT r"
    by (cases "DecodeBytes (map NOT d)") (auto simp: DecodeBytesDesc_NOT)
  then have "map NOT d = EncodeBytes [] x @ r" by (simp add: bytes_codec.dec_canonical)
  then have "map NOT (map NOT d) = map NOT (EncodeBytes [] x) @ rest" by (simp add: r)
  then show "d = EncodeBytesDesc [] x @ rest" by (simp add: EncodeBytesDesc_NOT del: map_map)
qed

lemma EncodeBytes_Nil_prefix_free: "x \<noteq> y \<Longrightarrow> EncodeBytes [] y \<noteq> EncodeBytes [] x @ w"
  using bytes_codec.enc_append_inject [of x w y "[]"] by auto

lemma EncodeBytesDesc_antimono: "x < y \<Longrightarrow> EncodeBytesDesc [] y < EncodeBytesDesc [] x"
  by (simp add: EncodeBytesDesc_NOT lex_map_antimono_prefix_free EncodeBytes_Nil_prefix_free
      bytes_codec.enc_less NOT_less_iff)

interpretation bytes_desc_codec: ordered_codec "EncodeBytesDesc []" DecodeBytesDesc "(>)"
proof
  fix x y :: bytes
  show "EncodeBytesDesc [] x < EncodeBytesDesc [] y \<longleftrightarrow> x > y"
    using EncodeBytesDesc_antimono [of x y] EncodeBytesDesc_antimono [of y x]
    by (metis less_asym less_irrefl linorder_neqE)
qed

interpretation u64_codec: canonical_codec "EncodeUint64 []" DecodeUint64
proof
  fix x rest
  show "DecodeUint64 (EncodeUint64 [] x @ rest) = Inr (x, rest)"
    by (simp add: DecodeUint64_def EncodeUint64_def)
next
  fix d x rest
  assume "DecodeUint64 d = Inr (x, rest)"
  then show "d = EncodeUint64 [] x @ rest"
    by (auto simp: DecodeUint64_def EncodeUint64_def PutUint64_Uint64 split: if_splits)
qed

interpretation u64_codec: ordered_codec "EncodeUint64 []" DecodeUint64 "(<)"
  by unfold_locales (simp add: EncodeUint64_def PutUint64_less)

interpretation u64_desc_codec: canonical_codec "EncodeUint64Desc []" DecodeUint64Desc
proof
  fix x rest
  show "DecodeUint64Desc (EncodeUint64Desc [] x @ rest) = Inr (x, rest)"
    by (simp add: DecodeUint64Desc_def EncodeUint64Desc_def)
next
  fix d x rest
  assume "DecodeUint64Desc d = Inr (x, rest)"
  then show "d = EncodeUint64Desc [] x @ rest"
    by (auto simp: DecodeUint64Desc_def EncodeUint64Desc_def PutUint64_Uint64 split: if_splits)
qed

interpretation u64_desc_codec: ordered_codec "EncodeUint64Desc []" DecodeUint64Desc "(>)"
  by unfold_locales (simp add: EncodeUint64Desc_def PutUint64_less NOT_less_iff)

text \<open>Signed integers: flipping the sign bit adds \<open>2 ^ 63\<close>.\<close>

lemma uint_encodeInt64: "uint (encodeInt64ToComparable v) = sint v + 2 ^ 63"
proof -
  have "sint v = take_bit 64 (uint v + 2 ^ 63) - 2 ^ 63"
    by (simp add: sint_uint signed_take_bit_eq_take_bit_shift)
  moreover have "uint (v + push_bit 63 1) = take_bit 64 (uint v + 2 ^ 63)"
    by (simp add: uint_word_ariths take_bit_eq_mod)
  ultimately show ?thesis
    by (simp only: encodeInt64ToComparable_def sign_flip_add diff_add_cancel)
qed

lemma encodeInt64_less:
  "encodeInt64ToComparable v < encodeInt64ToComparable w \<longleftrightarrow> sint v < sint w"
  by (simp only: word_less_def uint_encodeInt64) simp

lemma encodeInt64_inverse [simp]:
  "decodeComparableToInt64 (encodeInt64ToComparable v) = v"
  "encodeInt64ToComparable (decodeComparableToInt64 v) = v"
  by (simp_all add: decodeComparableToInt64_def encodeInt64ToComparable_def xor.assoc)

interpretation i64_codec: canonical_codec "EncodeInt64 []" DecodeInt64
  by unfold_locales
    (auto simp: DecodeInt64_def EncodeInt64_def u64_codec.dec_enc dest: u64_codec.dec_canonical
      split: sum.splits)

interpretation i64_codec: ordered_codec "EncodeInt64 []" DecodeInt64 "\<lambda>x y. sint x < sint y"
  by unfold_locales (simp add: EncodeInt64_def u64_codec.enc_less encodeInt64_less)

text \<open>Floats: the order of the bit patterns as sign and magnitude.\<close>

definition float64_order :: "u64 \<Rightarrow> int" where
  "float64_order bits = (if bit bits 63 then - 1 - (uint bits - 2 ^ 63) else uint bits)"

lemma uint_encodeFloat64: "uint (encodeFloat64ToComparable v) = float64_order v + 2 ^ 63"
proof (cases "bit v 63")
  case True
  then show ?thesis using uint_NOT64 [of v]
    by (simp only: encodeFloat64ToComparable_def sign_test float64_order_def) simp
next
  case False
  then have "uint v < 2 ^ 63" by (simp add: sign_bit_uint)
  then have "uint (v + push_bit 63 1) = uint v + 2 ^ 63"
    by (simp add: uint_word_ariths)
  with False show ?thesis
    by (simp only: encodeFloat64ToComparable_def sign_test float64_order_def sign_flip_add) simp
qed

lemma encodeFloat64_less:
  "encodeFloat64ToComparable v < encodeFloat64ToComparable w \<longleftrightarrow> float64_order v < float64_order w"
  by (simp only: word_less_def uint_encodeFloat64) simp

lemma encodeFloat64_inverse:
  "decodeComparableToFloat64 (encodeFloat64ToComparable v) = v"
  "encodeFloat64ToComparable (decodeComparableToFloat64 v) = v"
proof -
  define m :: u64 where "m = push_bit 63 1"
  have b: "bit (w XOR m) 63 \<longleftrightarrow> \<not> bit w 63" "bit (NOT w) 63 \<longleftrightarrow> \<not> bit w 63" for w :: u64
    by (simp_all add: bit_simps m_def)
  have d: "decodeComparableToFloat64 w = (if bit w 63 then w XOR m else NOT w)"
    "encodeFloat64ToComparable w = (if bit w 63 then NOT w else w XOR m)" for w
    by (simp_all only: decodeComparableToFloat64_def encodeFloat64ToComparable_def sign_test m_def
        not_not if_not_P split: if_splits) simp_all
  show "decodeComparableToFloat64 (encodeFloat64ToComparable v) = v"
    and "encodeFloat64ToComparable (decodeComparableToFloat64 v) = v"
    by (simp_all add: d b xor.assoc)
qed

interpretation f64_codec: canonical_codec "EncodeFloat64 []" DecodeFloat64
  by unfold_locales
    (auto simp: DecodeFloat64_def EncodeFloat64_def u64_codec.dec_enc encodeFloat64_inverse
      split: sum.splits dest: u64_codec.dec_canonical)

interpretation f64_codec: ordered_codec "EncodeFloat64 []" DecodeFloat64
    "\<lambda>x y. float64_order x < float64_order y"
  by unfold_locales (simp add: EncodeFloat64_def u64_codec.enc_less encodeFloat64_less)

interpretation varint_codec: codec "EncodeVarint []" DecodeVarint
  by unfold_locales (simp add: EncodeVarint_def DecodeVarint_def)

lemma zigzag_inverse:
  fixes x :: u64
  defines "ux \<equiv> (if sint x < 0 then NOT (push_bit 1 x) else push_bit 1 x)"
  shows "(if ux AND 1 \<noteq> 0 then NOT (drop_bit 1 ux) else drop_bit 1 ux) = x"
proof -
  have odd: "ux AND 1 \<noteq> 0 \<longleftrightarrow> bit ux 0" by (simp add: and_one_eq bit_0 odd_iff_mod_2_eq_one)
  have ux0: "bit ux 0 \<longleftrightarrow> bit x 63"
    by (simp add: ux_def sint_sign bit_simps bit_0)
  have dbl: "bit (x * 2) (Suc n) = bit x n" if "n < 63" for n
    using bit_double_iff [of x "Suc n"] that by (simp add: mult.commute)
  have top: "\<not> bit (x * 2) 64" using bit_imp_le_length [of "x * 2" 64] by auto
  show ?thesis
  proof (cases "bit x 63")
    case True
    have "bit (NOT (drop_bit 1 ux)) n = bit x n" if "n < 64" for n
      using that True by (cases "n = 63") (simp_all add: ux_def sint_sign bit_simps dbl top)
    then have "NOT (drop_bit 1 ux) = x" by (intro bit_word_eqI) simp
    with True ux0 odd show ?thesis by simp
  next
    case False
    have "bit (drop_bit 1 ux) n = bit x n" if "n < 64" for n
      using that False by (cases "n = 63") (simp_all add: ux_def sint_sign bit_simps dbl top)
    then have "drop_bit 1 ux = x" by (intro bit_word_eqI) simp
    with False ux0 odd show ?thesis by simp
  qed
qed

lemma Varint_PutVarint: "Varint (PutVarint x @ rest) = (x, int (length (PutVarint x)))"
proof -
  define ux where "ux = (if sint x < 0 then NOT (push_bit 1 x) else push_bit 1 x)"
  have "PutVarint x = PutUvarint ux" by (simp only: PutVarint_def Let_def ux_def)
  with zigzag_inverse [of x, folded ux_def] show ?thesis
    by (simp add: Varint_def Let_def split: if_splits)
qed

lemma PutVarint_nonempty: "0 < length (PutVarint x)"
  by (simp add: PutVarint_def Let_def)

interpretation signed_varint_codec: codec "EncodeSignedVarint []" DecodeSignedVarint
  using PutVarint_nonempty
  by unfold_locales (simp add: EncodeSignedVarint_def DecodeSignedVarint_def Varint_PutVarint)

lemma length_EncodeBytes: "length (EncodeBytes dst x) = length dst + EncodedBytesLength (length x)"
  by (simp add: EncodeBytes_def length_EncodeBytes_loop)

subsection \<open>Properties of the package\<close>

text \<open>C38: \<^verbatim>\<open>DecodeBytes\<close> succeeds exactly on the canonical encodings: it returns \<open>x\<close> and
  \<open>rest\<close> if and only if its input is \<^verbatim>\<open>EncodeBytes(nil, x)\<close> followed by \<open>rest\<close>. This is the
  round trip (with an arbitrary suffix) and the rejection of every non-canonical
  padding in one statement.\<close>

theorem DecodeBytes_iff: "DecodeBytes data = Inr (x, rest) \<longleftrightarrow> data = EncodeBytes [] x @ rest"
  by (rule bytes_codec.dec_iff)

text \<open>C39: The encoding is memcomparable, also inside a longer key: byte comparison of
  two encodings, each followed by an arbitrary suffix, compares the encoded strings
  first and the suffixes only when the strings are equal.\<close>

theorem EncodeBytes_order:
  "EncodeBytes [] x @ r < EncodeBytes [] y @ s \<longleftrightarrow> x < y \<or> (x = y \<and> r < s)"
  by (rule bytes_codec.enc_append_less)

text \<open>The descending encoding reverses the order, and its decoder accepts exactly
  its encodings.\<close>

theorem EncodeBytesDesc_order_roundtrip:
  "(EncodeBytesDesc [] x < EncodeBytesDesc [] y \<longleftrightarrow> y < x) \<and>
   (DecodeBytesDesc data = Inr (x, rest) \<longleftrightarrow> data = EncodeBytesDesc [] x @ rest)"
  using bytes_desc_codec.enc_less bytes_desc_codec.dec_iff by blast

text \<open>The fixed-width number encodings order their numbers under byte comparison:
  unsigned ascending, unsigned descending, signed by value, and floats by sign and
  magnitude (negative before positive, negative zero before zero).\<close>

theorem number_encoding_order:
  "(EncodeUint64 [] v < EncodeUint64 [] w \<longleftrightarrow> v < w) \<and>
   (EncodeUint64Desc [] v < EncodeUint64Desc [] w \<longleftrightarrow> w < v) \<and>
   (EncodeInt64 [] v < EncodeInt64 [] w \<longleftrightarrow> sint v < sint w) \<and>
   (EncodeFloat64 [] v < EncodeFloat64 [] w \<longleftrightarrow> float64_order v < float64_order w)"
  by (simp add: u64_codec.enc_less u64_desc_codec.enc_less i64_codec.enc_less f64_codec.enc_less)

text \<open>Every number encoder is decoded by its decoder, which returns the suffix it
  did not read: fixed width, inverted, signed, floating point, and both varints.\<close>

theorem number_encoding_roundtrip:
  "DecodeUint64 (EncodeUint64 [] v @ rest) = Inr (v, rest) \<and>
   DecodeUint64Desc (EncodeUint64Desc [] v @ rest) = Inr (v, rest) \<and>
   DecodeInt64 (EncodeInt64 [] v @ rest) = Inr (v, rest) \<and>
   DecodeFloat64 (EncodeFloat64 [] v @ rest) = Inr (v, rest) \<and>
   DecodeVarint (EncodeVarint [] v @ rest) = Inr (v, rest) \<and>
   DecodeSignedVarint (EncodeSignedVarint [] v @ rest) = Inr (v, rest)"
  by (simp add: u64_codec.dec_enc u64_desc_codec.dec_enc i64_codec.dec_enc f64_codec.dec_enc
      varint_codec.dec_enc signed_varint_codec.dec_enc)

end
