(* ===== verification/Keys.thy ===== *)
theory Keys
  imports Codec
begin

unbundle bit_operations_syntax

section \<open>Package keys: the internal key space\<close>

text \<open>
  Models \<^verbatim>\<open>pkg/keys/keys.go\<close>: the prefixes that separate user data from the store's own
  metadata, and the constructors and parsers of the local keys of a region.
\<close>

definition LocalPrefix :: byte where "LocalPrefix = 0x01"
definition DataPrefix :: byte where "DataPrefix = 0x7A"
definition RegionRaftPrefix :: byte where "RegionRaftPrefix = 0x02"
definition RegionMetaPrefix :: byte where "RegionMetaPrefix = 0x03"
definition RaftLogSuffix :: byte where "RaftLogSuffix = 0x01"
definition RaftStateSuffix :: byte where "RaftStateSuffix = 0x02"
definition ApplyStateSuffix :: byte where "ApplyStateSuffix = 0x03"
definition RegionStateSuffix :: byte where "RegionStateSuffix = 0x01"
definition StoreIdentKeySuffix :: byte where "StoreIdentKeySuffix = 0x01"
definition PrepareBootstrapKeySuffix :: byte where "PrepareBootstrapKeySuffix = 0x02"

lemmas key_consts = LocalPrefix_def DataPrefix_def RegionRaftPrefix_def RegionMetaPrefix_def
  RaftLogSuffix_def RaftStateSuffix_def ApplyStateSuffix_def RegionStateSuffix_def
  StoreIdentKeySuffix_def PrepareBootstrapKeySuffix_def

definition StoreIdentKey :: bytes where
  "StoreIdentKey = [LocalPrefix, StoreIdentKeySuffix]"

definition PrepareBootstrapKey :: bytes where
  "PrepareBootstrapKey = [LocalPrefix, PrepareBootstrapKeySuffix]"

definition LocalMinKey :: bytes where "LocalMinKey = [LocalPrefix]"
definition LocalMaxKey :: bytes where "LocalMaxKey = [LocalPrefix + 1]"
definition DataMinKey :: bytes where "DataMinKey = [DataPrefix]"
definition DataMaxKey :: bytes where "DataMaxKey = [DataPrefix + 1]"

definition DataKey :: "bytes \<Rightarrow> bytes" where
  "DataKey key = DataPrefix # key"

definition OriginKey :: "bytes \<Rightarrow> bytes" where
  "OriginKey dataKey =
     (if 0 < length dataKey \<and> dataKey ! 0 = DataPrefix then drop 1 dataKey else dataKey)"

definition RaftLogKey :: "u64 \<Rightarrow> u64 \<Rightarrow> bytes" where
  "RaftLogKey regionID logIndex =
     [LocalPrefix, RegionRaftPrefix] @ PutUint64 regionID @ [RaftLogSuffix] @ PutUint64 logIndex"

definition RaftStateKey :: "u64 \<Rightarrow> bytes" where
  "RaftStateKey regionID = [LocalPrefix, RegionRaftPrefix] @ PutUint64 regionID @ [RaftStateSuffix]"

definition ApplyStateKey :: "u64 \<Rightarrow> bytes" where
  "ApplyStateKey regionID = [LocalPrefix, RegionRaftPrefix] @ PutUint64 regionID @ [ApplyStateSuffix]"

definition RegionStateKey :: "u64 \<Rightarrow> bytes" where
  "RegionStateKey regionID = [LocalPrefix, RegionMetaPrefix] @ PutUint64 regionID @ [RegionStateSuffix]"

definition RaftLogKeyRange :: "u64 \<Rightarrow> bytes \<times> bytes" where
  "RaftLogKeyRange regionID = (RaftLogKey regionID 0, RaftStateKey regionID)"

definition RegionIDFromRaftKey :: "bytes \<Rightarrow> u64 res" where
  "RegionIDFromRaftKey key =
     (if length key < 10 then Inl ErrInsufficientData
      else if key ! 0 \<noteq> LocalPrefix \<or> key ! 1 \<noteq> RegionRaftPrefix then Inl ErrInvalidEncodedKey
      else Inr (Uint64 (take 8 (drop 2 key))))"

definition RegionIDFromMetaKey :: "bytes \<Rightarrow> u64 res" where
  "RegionIDFromMetaKey key =
     (if length key < 10 then Inl ErrInsufficientData
      else if key ! 0 \<noteq> LocalPrefix \<or> key ! 1 \<noteq> RegionMetaPrefix then Inl ErrInvalidEncodedKey
      else Inr (Uint64 (take 8 (drop 2 key))))"

definition IsDataKey :: "bytes \<Rightarrow> bool" where
  "IsDataKey key \<longleftrightarrow> 0 < length key \<and> key ! 0 = DataPrefix"

definition IsLocalKey :: "bytes \<Rightarrow> bool" where
  "IsLocalKey key \<longleftrightarrow> 0 < length key \<and> key ! 0 = LocalPrefix"

text \<open>Membership in a half-open key range as the engines scan it.\<close>

definition in_key_range :: "bytes \<times> bytes \<Rightarrow> bytes \<Rightarrow> bool" where
  "in_key_range r k \<longleftrightarrow> fst r \<le> k \<and> k < snd r"

subsection \<open>Lemmas\<close>

lemma IsDataKey_range: "IsDataKey key \<longleftrightarrow> DataMinKey \<le> key \<and> key < DataMaxKey"
  by (cases key) (auto simp: IsDataKey_def DataMinKey_def DataMaxKey_def key_consts
      word_less_nat_alt word_unat_eq_iff)

lemma IsLocalKey_range: "IsLocalKey key \<longleftrightarrow> LocalMinKey \<le> key \<and> key < LocalMaxKey"
  by (cases key) (auto simp: IsLocalKey_def LocalMinKey_def LocalMaxKey_def key_consts
      word_less_nat_alt word_unat_eq_iff)

lemma DataKey_OriginKey: "OriginKey (DataKey key) = key"
  by (simp add: OriginKey_def DataKey_def)

lemma DataKey_less: "DataKey x < DataKey y \<longleftrightarrow> x < y"
  by (simp add: DataKey_def)

lemma DataKey_range: "DataMinKey \<le> DataKey k \<and> DataKey k < DataMaxKey"
  by (simp add: IsDataKey_range [symmetric] IsDataKey_def DataKey_def)

lemma RaftLogKey_less:
  "RaftLogKey r i < RaftLogKey s j \<longleftrightarrow> r < s \<or> (r = s \<and> i < j)"
  by (simp add: RaftLogKey_def lex_append_same_length PutUint64_less)

lemma region_key_less:
  "[p, q] @ PutUint64 r @ u < [p, q] @ PutUint64 s @ v \<longleftrightarrow> r < s \<or> (r = s \<and> u < v)"
  by (simp add: lex_append_same_length PutUint64_less)

lemmas region_key_defs = RaftLogKeyRange_def RaftLogKey_def RaftStateKey_def ApplyStateKey_def
  RegionStateKey_def StoreIdentKey_def PrepareBootstrapKey_def key_consts

lemma in_RaftLogKeyRange: "in_key_range (RaftLogKeyRange r) (RaftLogKey s i) \<longleftrightarrow> s = r"
proof -
  have "RaftLogKey s i < RaftStateKey r \<longleftrightarrow> s < r \<or> s = r"
    unfolding RaftLogKey_def RaftStateKey_def region_key_less by (auto simp: key_consts)
  moreover have "RaftLogKey r 0 \<le> RaftLogKey s i \<longleftrightarrow> r < s \<or> r = s"
    by (auto simp: not_less [symmetric] RaftLogKey_less)
  ultimately show ?thesis by (auto simp: in_key_range_def RaftLogKeyRange_def)
qed

lemma not_in_RaftLogKeyRange:
  "\<not> in_key_range (RaftLogKeyRange r) (RaftStateKey s)"
  "\<not> in_key_range (RaftLogKeyRange r) (ApplyStateKey s)"
  "\<not> in_key_range (RaftLogKeyRange r) (RegionStateKey s)"
  "\<not> in_key_range (RaftLogKeyRange r) StoreIdentKey"
  "\<not> in_key_range (RaftLogKeyRange r) PrepareBootstrapKey"
proof -
  have "RaftStateKey s < RaftStateKey r \<longleftrightarrow> s < r" "ApplyStateKey s < RaftStateKey r \<longleftrightarrow> s < r"
    "RaftStateKey s < RaftLogKey r 0 \<longleftrightarrow> s < r" "ApplyStateKey s < RaftLogKey r 0 \<longleftrightarrow> s < r"
    unfolding RaftLogKey_def RaftStateKey_def ApplyStateKey_def region_key_less
    by (auto simp: key_consts)
  then show "\<not> in_key_range (RaftLogKeyRange r) (RaftStateKey s)"
    "\<not> in_key_range (RaftLogKeyRange r) (ApplyStateKey s)"
    by (auto simp: in_key_range_def RaftLogKeyRange_def)
  show "\<not> in_key_range (RaftLogKeyRange r) (RegionStateKey s)"
    by (simp add: in_key_range_def region_key_defs)
  show "\<not> in_key_range (RaftLogKeyRange r) StoreIdentKey"
    "\<not> in_key_range (RaftLogKeyRange r) PrepareBootstrapKey"
    by (simp_all add: in_key_range_def region_key_defs le_less)
qed

lemma RegionIDFromRaftKey_prefix:
  "RegionIDFromRaftKey ([LocalPrefix, RegionRaftPrefix] @ PutUint64 r @ rest) = Inr r"
  by (simp add: RegionIDFromRaftKey_def)

lemma RegionIDFromMetaKey_prefix:
  "RegionIDFromMetaKey ([LocalPrefix, RegionMetaPrefix] @ PutUint64 r @ rest) = Inr r"
  by (simp add: RegionIDFromMetaKey_def)

subsection \<open>Properties of the package\<close>

text \<open>The range \<^verbatim>\<open>RaftLogKeyRange(r)\<close> selects exactly the raft log entries of region
  \<open>r\<close> among all local keys the package builds: every log entry of another region and
  every state key of any region lies outside it, and inside it entries are ordered by
  their index.\<close>

theorem RaftLogKeyRange_exact:
  "(in_key_range (RaftLogKeyRange r) (RaftLogKey s i) \<longleftrightarrow> s = r) \<and>
   \<not> in_key_range (RaftLogKeyRange r) (RaftStateKey s) \<and>
   \<not> in_key_range (RaftLogKeyRange r) (ApplyStateKey s) \<and>
   \<not> in_key_range (RaftLogKeyRange r) (RegionStateKey s) \<and>
   \<not> in_key_range (RaftLogKeyRange r) StoreIdentKey \<and>
   \<not> in_key_range (RaftLogKeyRange r) PrepareBootstrapKey \<and>
   (RaftLogKey r i < RaftLogKey r j \<longleftrightarrow> i < j)"
  by (intro conjI in_RaftLogKeyRange not_in_RaftLogKeyRange) (simp add: RaftLogKey_less)

text \<open>The user key space and the local key space are the two disjoint ranges the
  constants name; \<^verbatim>\<open>DataKey\<close> maps user keys into the data range, keeps their order and is
  undone by \<^verbatim>\<open>OriginKey\<close>, and the region of a raft or meta key is read back.\<close>

theorem key_space:
  "(IsDataKey k \<longleftrightarrow> DataMinKey \<le> k \<and> k < DataMaxKey) \<and>
   (IsLocalKey k \<longleftrightarrow> LocalMinKey \<le> k \<and> k < LocalMaxKey) \<and>
   \<not> (IsDataKey k \<and> IsLocalKey k) \<and>
   IsDataKey (DataKey u) \<and> OriginKey (DataKey u) = u \<and> (DataKey u < DataKey v \<longleftrightarrow> u < v) \<and>
   IsLocalKey (RaftLogKey r i) \<and> RegionIDFromRaftKey (RaftLogKey r i) = Inr r \<and>
   RegionIDFromRaftKey (RaftStateKey r) = Inr r \<and> RegionIDFromRaftKey (ApplyStateKey r) = Inr r \<and>
   RegionIDFromMetaKey (RegionStateKey r) = Inr r"
proof (intro conjI)
  show "\<not> (IsDataKey k \<and> IsLocalKey k)" by (auto simp: IsDataKey_def IsLocalKey_def key_consts)
  show "IsDataKey (DataKey u)" by (simp add: IsDataKey_def DataKey_def)
  show "IsLocalKey (RaftLogKey r i)" by (simp add: IsLocalKey_def RaftLogKey_def)
  show "RegionIDFromRaftKey (RaftLogKey r i) = Inr r"
    "RegionIDFromRaftKey (RaftStateKey r) = Inr r" "RegionIDFromRaftKey (ApplyStateKey r) = Inr r"
    unfolding RaftLogKey_def RaftStateKey_def ApplyStateKey_def
    by (rule RegionIDFromRaftKey_prefix)+
  show "RegionIDFromMetaKey (RegionStateKey r) = Inr r"
    unfolding RegionStateKey_def by (rule RegionIDFromMetaKey_prefix)
qed (simp_all add: IsDataKey_range IsLocalKey_range DataKey_OriginKey DataKey_less)

end
