(* ===== verification/Txntypes.thy ===== *)
theory Txntypes
  imports Codec
begin

unbundle bit_operations_syntax

section \<open>Package txntypes: timestamps, locks, write records and mutations\<close>

text \<open>
  Models \<^verbatim>\<open>pkg/txntypes\<close> and \<^verbatim>\<open>pkg/cfnames\<close>. The byte-valued Go types (\<^verbatim>\<open>LockType\<close>,
  \<^verbatim>\<open>WriteType\<close>) stay bytes, since the decoders accept any byte there. The \<^verbatim>\<open>Marshal\<close> methods are
  one definition per optional field, each appending to the buffer, composed in the order
  of the source; the decoders are the tag loop of the source.
\<close>

subsection \<open>cfnames.go\<close>

definition CFDefault :: string where "CFDefault = ''default''"
definition CFLock :: string where "CFLock = ''lock''"
definition CFWrite :: string where "CFWrite = ''write''"
definition CFRaft :: string where "CFRaft = ''raft''"

definition DataCFs :: "string list" where "DataCFs = [CFDefault, CFLock, CFWrite]"
definition AllCFs :: "string list" where "AllCFs = [CFDefault, CFLock, CFWrite, CFRaft]"

lemmas cf_names = CFDefault_def CFLock_def CFWrite_def CFRaft_def

subsection \<open>timestamp.go\<close>

type_synonym TimeStamp = "64 word"

definition TSLogicalBits :: nat where "TSLogicalBits = 18"
definition TSMax :: TimeStamp where "TSMax = - 1"
definition TSZero :: TimeStamp where "TSZero = 0"

text \<open>\<open>Physical\<close> and \<open>Logical\<close> return \<^verbatim>\<open>int64\<close>, kept as its 64-bit word.\<close>

definition Physical :: "TimeStamp \<Rightarrow> 64 word" where
  "Physical ts = drop_bit TSLogicalBits ts"

definition Logical :: "TimeStamp \<Rightarrow> 64 word" where
  "Logical ts = ts AND (push_bit TSLogicalBits 1 - 1)"

definition ComposeTS :: "64 word \<Rightarrow> 64 word \<Rightarrow> TimeStamp" where
  "ComposeTS physical logical = push_bit TSLogicalBits physical OR logical"

definition IsZero :: "TimeStamp \<Rightarrow> bool" where
  "IsZero ts \<longleftrightarrow> ts = TSZero"

definition Prev_ts :: "TimeStamp \<Rightarrow> TimeStamp" where
  "Prev_ts ts = (if ts = TSZero then TSZero else ts - 1)"

definition Next_ts :: "TimeStamp \<Rightarrow> TimeStamp" where
  "Next_ts ts = (if ts = TSMax then TSMax else ts + 1)"

subsection \<open>mutation.go\<close>

datatype MutationOp =
  MutationPut | MutationDelete | MutationLock | MutationInsert | MutationCheckNotExists

datatype Assertion = AssertionNone | AssertionExist | AssertionNotExist

record Mutation =
  mut_Op :: MutationOp
  mut_Key :: bytes
  mut_Value :: "bytes option"
  mut_Assertion :: Assertion

subsection \<open>util.go\<close>

definition appendUint64BE :: "bytes \<Rightarrow> u64 \<Rightarrow> bytes" where
  "appendUint64BE b v = b @ PutUint64 v"

definition appendVarint :: "bytes \<Rightarrow> u64 \<Rightarrow> bytes" where
  "appendVarint b v = b @ PutUvarint v"

definition appendVarBytes :: "bytes \<Rightarrow> bytes \<Rightarrow> bytes" where
  "appendVarBytes b data = appendVarint b (of_nat (length data)) @ data"

definition readVarint :: "bytes \<Rightarrow> (u64 \<times> bytes) res" where
  "readVarint data =
     (let (v, n) = Uvarint data in
      if n = 0 then Inl ErrUnexpectedEOF
      else if n < 0 then Inl ErrUnexpectedEOF
      else Inr (v, drop (nat n) data))"

definition readVarBytes :: "bytes \<Rightarrow> (bytes \<times> bytes) res" where
  "readVarBytes data =
     res_bind (readVarint data) (\<lambda>(len, data).
       if length data < unat len then Inl ErrUnexpectedEOF
       else Inr (take (unat len) data, drop (unat len) data))"

text \<open>Reading a big-endian word, the guarded read the tag loops repeat.\<close>

definition readUint64BE :: "bytes \<Rightarrow> (u64 \<times> bytes) res" where
  "readUint64BE data =
     (if length data < 8 then Inl ErrUnexpectedEOF
      else Inr (Uint64 (take 8 data), drop 8 data))"

text \<open>Reading a short value: one length byte, then that many bytes.\<close>

definition readShortValue :: "bytes \<Rightarrow> (bytes \<times> bytes) res" where
  "readShortValue data =
     (if length data < 1 then Inl ErrUnexpectedEOF
      else let vLen = unat (data ! 0); data = drop 1 data in
        if length data < vLen then Inl ErrUnexpectedEOF
        else Inr (take vLen data, drop vLen data))"

text \<open>
  Go's \<^verbatim>\<open>make\<close> panics when the slice needs more than \<open>maxAlloc\<close> bytes (2 to the 48 on the
  64-bit platforms); a slice header takes 24 bytes and a timestamp 8.
\<close>

definition maxAlloc :: nat where "maxAlloc = 2 ^ 48"

definition makeSlice_ok :: "nat \<Rightarrow> u64 \<Rightarrow> bool" where
  "makeSlice_ok elemSize count \<longleftrightarrow> unat count * elemSize \<le> maxAlloc"

primrec read_n :: "(bytes \<Rightarrow> ('a \<times> bytes) res) \<Rightarrow> nat \<Rightarrow> bytes \<Rightarrow> ('a list \<times> bytes) res" where
  "read_n rd 0 data = Inr ([], data)"
| "read_n rd (Suc n) data =
     res_bind (rd data) (\<lambda>(x, data). res_bind (read_n rd n data) (\<lambda>(xs, data). Inr (x # xs, data)))"

subsection \<open>lock.go\<close>

type_synonym LockType = byte

definition LockTypePut :: LockType where "LockTypePut = 0x50"
definition LockTypeDelete :: LockType where "LockTypeDelete = 0x44"
definition LockTypeLock :: LockType where "LockTypeLock = 0x4C"
definition LockTypePessimistic :: LockType where "LockTypePessimistic = 0x53"

record LastChange =
  lc_TS :: TimeStamp
  lc_EstimatedVersions :: u64

record Lock =
  lock_LockType :: LockType
  lock_Primary :: bytes
  lock_StartTS :: TimeStamp
  lock_TTL :: u64
  lock_ShortValue :: "bytes option"
  lock_ForUpdateTS :: TimeStamp
  lock_TxnSize :: u64
  lock_MinCommitTS :: TimeStamp
  lock_UseAsyncCommit :: bool
  lock_Secondaries :: "bytes list"
  lock_RollbackTS :: "TimeStamp list"
  lock_LastChange :: LastChange
  lock_TxnSource :: u64
  lock_PessimisticLockWithConflict :: bool
  lock_Generation :: u64

text \<open>The zero values \<^verbatim>\<open>LastChange{}\<close> and \<^verbatim>\<open>Lock{}\<close>, and Go's \<^verbatim>\<open>len\<close> of a nilable slice.\<close>

definition LastChange_zero :: LastChange where
  "LastChange_zero = \<lparr>lc_TS = 0, lc_EstimatedVersions = 0\<rparr>"

definition Lock_zero :: Lock where
  "Lock_zero = \<lparr>lock_LockType = 0, lock_Primary = [], lock_StartTS = 0, lock_TTL = 0,
     lock_ShortValue = None, lock_ForUpdateTS = 0, lock_TxnSize = 0, lock_MinCommitTS = 0,
     lock_UseAsyncCommit = False, lock_Secondaries = [], lock_RollbackTS = [],
     lock_LastChange = LastChange_zero, lock_TxnSource = 0,
     lock_PessimisticLockWithConflict = False, lock_Generation = 0\<rparr>"

definition slice_bytes :: "bytes option \<Rightarrow> bytes" where
  "slice_bytes s = (case s of None \<Rightarrow> [] | Some v \<Rightarrow> v)"

definition lockTagShortValue :: byte where "lockTagShortValue = 0x76"
definition lockTagForUpdateTS :: byte where "lockTagForUpdateTS = 0x66"
definition lockTagTxnSize :: byte where "lockTagTxnSize = 0x74"
definition lockTagMinCommitTS :: byte where "lockTagMinCommitTS = 0x63"
definition lockTagAsyncCommitKeys :: byte where "lockTagAsyncCommitKeys = 0x61"
definition lockTagRollbackTS :: byte where "lockTagRollbackTS = 0x72"
definition lockTagLastChange :: byte where "lockTagLastChange = 0x6C"
definition lockTagTxnSource :: byte where "lockTagTxnSource = 0x73"
definition lockTagPessimConflict :: byte where "lockTagPessimConflict = 0x46"
definition lockTagGeneration :: byte where "lockTagGeneration = 0x67"

lemmas lock_tags = lockTagShortValue_def lockTagForUpdateTS_def lockTagTxnSize_def
  lockTagMinCommitTS_def lockTagAsyncCommitKeys_def lockTagRollbackTS_def lockTagLastChange_def
  lockTagTxnSource_def lockTagPessimConflict_def lockTagGeneration_def

text \<open>\<^verbatim>\<open>Marshal\<close>: the optional fields, each appended to the buffer when it is set.\<close>

definition marshalShortValue :: "byte \<Rightarrow> bytes option \<Rightarrow> bytes \<Rightarrow> bytes" where
  "marshalShortValue tag s buf =
     (let v = slice_bytes s in
      if 0 < length v then buf @ [tag] @ [of_nat (length v)] @ v else buf)"

definition marshalUint64 :: "byte \<Rightarrow> u64 \<Rightarrow> bytes \<Rightarrow> bytes" where
  "marshalUint64 tag v buf = (if 0 < v then appendUint64BE (buf @ [tag]) v else buf)"

definition marshalAsyncCommit :: "bool \<Rightarrow> bytes list \<Rightarrow> bytes \<Rightarrow> bytes" where
  "marshalAsyncCommit useAsync secs buf =
     (if useAsync
      then fold (\<lambda>sec b. appendVarBytes b sec) secs
             (appendVarint (buf @ [lockTagAsyncCommitKeys]) (of_nat (length secs)))
      else buf)"

definition marshalRollbackTS :: "TimeStamp list \<Rightarrow> bytes \<Rightarrow> bytes" where
  "marshalRollbackTS tss buf =
     (if 0 < length tss
      then fold (\<lambda>ts b. appendUint64BE b ts) tss
             (appendVarint (buf @ [lockTagRollbackTS]) (of_nat (length tss)))
      else buf)"

definition marshalLastChange :: "byte \<Rightarrow> LastChange \<Rightarrow> bytes \<Rightarrow> bytes" where
  "marshalLastChange tag lc buf =
     (if \<not> IsZero (lc_TS lc)
      then appendVarint (appendUint64BE (buf @ [tag]) (lc_TS lc)) (lc_EstimatedVersions lc)
      else buf)"

definition marshalTxnSource :: "byte \<Rightarrow> u64 \<Rightarrow> bytes \<Rightarrow> bytes" where
  "marshalTxnSource tag v buf = (if 0 < v then appendVarint (buf @ [tag]) v else buf)"

definition marshalFlag :: "byte \<Rightarrow> bool \<Rightarrow> bytes \<Rightarrow> bytes" where
  "marshalFlag tag b buf = (if b then buf @ [tag] else buf)"

definition MarshalLock :: "Lock \<Rightarrow> bytes" where
  "MarshalLock l =
     (let buf = [lock_LockType l];
          buf = appendVarBytes buf (lock_Primary l);
          buf = appendVarint buf (lock_StartTS l);
          buf = appendVarint buf (lock_TTL l);
          buf = marshalShortValue lockTagShortValue (lock_ShortValue l) buf;
          buf = marshalUint64 lockTagForUpdateTS (lock_ForUpdateTS l) buf;
          buf = marshalUint64 lockTagTxnSize (lock_TxnSize l) buf;
          buf = marshalUint64 lockTagMinCommitTS (lock_MinCommitTS l) buf;
          buf = marshalAsyncCommit (lock_UseAsyncCommit l) (lock_Secondaries l) buf;
          buf = marshalRollbackTS (lock_RollbackTS l) buf;
          buf = marshalLastChange lockTagLastChange (lock_LastChange l) buf;
          buf = marshalTxnSource lockTagTxnSource (lock_TxnSource l) buf;
          buf = marshalFlag lockTagPessimConflict (lock_PessimisticLockWithConflict l) buf
      in marshalUint64 lockTagGeneration (lock_Generation l) buf)"

text \<open>\<^verbatim>\<open>UnmarshalLock\<close>: one case of the tag switch, and the loop over the tags.\<close>

definition UnmarshalLock_field :: "byte \<Rightarrow> Lock \<Rightarrow> bytes \<Rightarrow> (Lock \<times> bytes) res" where
  "UnmarshalLock_field tag l data =
     (if tag = lockTagShortValue then
        res_bind (readShortValue data) (\<lambda>(v, data). Inr (l\<lparr>lock_ShortValue := Some v\<rparr>, data))
      else if tag = lockTagForUpdateTS then
        res_bind (readUint64BE data) (\<lambda>(v, data). Inr (l\<lparr>lock_ForUpdateTS := v\<rparr>, data))
      else if tag = lockTagTxnSize then
        res_bind (readUint64BE data) (\<lambda>(v, data). Inr (l\<lparr>lock_TxnSize := v\<rparr>, data))
      else if tag = lockTagMinCommitTS then
        res_bind (readUint64BE data) (\<lambda>(v, data). Inr (l\<lparr>lock_MinCommitTS := v\<rparr>, data))
      else if tag = lockTagAsyncCommitKeys then
        res_bind (readVarint data) (\<lambda>(count, data).
          if \<not> makeSlice_ok 24 count then Inl PanicMakeSlice
          else res_bind (read_n readVarBytes (unat count) data) (\<lambda>(secs, data).
            Inr (l\<lparr>lock_UseAsyncCommit := True, lock_Secondaries := secs\<rparr>, data)))
      else if tag = lockTagRollbackTS then
        res_bind (readVarint data) (\<lambda>(count, data).
          if \<not> makeSlice_ok 8 count then Inl PanicMakeSlice
          else res_bind (read_n readUint64BE (unat count) data) (\<lambda>(tss, data).
            Inr (l\<lparr>lock_RollbackTS := tss\<rparr>, data)))
      else if tag = lockTagLastChange then
        res_bind (readUint64BE data) (\<lambda>(ts, data).
          res_bind (readVarint data) (\<lambda>(n, data).
            Inr (l\<lparr>lock_LastChange := \<lparr>lc_TS = ts, lc_EstimatedVersions = n\<rparr>\<rparr>, data)))
      else if tag = lockTagTxnSource then
        res_bind (readVarint data) (\<lambda>(v, data). Inr (l\<lparr>lock_TxnSource := v\<rparr>, data))
      else if tag = lockTagPessimConflict then
        Inr (l\<lparr>lock_PessimisticLockWithConflict := True\<rparr>, data)
      else if tag = lockTagGeneration then
        res_bind (readUint64BE data) (\<lambda>(v, data). Inr (l\<lparr>lock_Generation := v\<rparr>, data))
      else Inl ErrUnknownLockTag)"

lemma readVarint_length: "readVarint data = Inr (v, data') \<Longrightarrow> length data' < length data \<or> data = []"
  by (auto simp: readVarint_def Let_def split: prod.splits if_splits)

lemma read_length:
  "readVarint data = Inr (v, data') \<Longrightarrow> length data' \<le> length data"
  "readVarBytes data = Inr (bs, data') \<Longrightarrow> length data' \<le> length data"
  "readUint64BE data = Inr (v, data') \<Longrightarrow> length data' \<le> length data"
  "readShortValue data = Inr (bs, data') \<Longrightarrow> length data' \<le> length data"
  by (auto simp: readVarint_def readVarBytes_def readUint64BE_def readShortValue_def Let_def
      res_bind_eq_Inr split: prod.splits if_splits)

lemma read_n_length:
  assumes "\<And>d x d'. rd d = Inr (x, d') \<Longrightarrow> length d' \<le> length d"
  shows "read_n rd n data = Inr (xs, data') \<Longrightarrow> length data' \<le> length data"
proof (induction n arbitrary: data xs)
  case (Suc n)
  from Suc.prems obtain x d xs' where "rd data = Inr (x, d)" "read_n rd n d = Inr (xs', data')"
    by (auto simp: res_bind_eq_Inr)
  with Suc.IH assms show ?case by fastforce
qed simp

lemma UnmarshalLock_field_length:
  "UnmarshalLock_field tag l data = Inr (l', data') \<Longrightarrow> length data' \<le> length data"
  unfolding UnmarshalLock_field_def
  by (auto simp: res_bind_eq_Inr split: if_splits dest!: read_length read_n_length [rotated])

function UnmarshalLock_loop :: "Lock \<Rightarrow> bytes \<Rightarrow> Lock res" where
  "UnmarshalLock_loop l [] = Inr l"
| "UnmarshalLock_loop l (tag # data) =
     res_bind (UnmarshalLock_field tag l data) (\<lambda>(l', data'). UnmarshalLock_loop l' data')"
  by pat_completeness auto
termination
  by (relation "measure (\<lambda>(l, data). length data)")
    (auto dest: UnmarshalLock_field_length)

definition UnmarshalLock :: "bytes \<Rightarrow> Lock res" where
  "UnmarshalLock data =
     (if length data < 1 then Inl ErrUnexpectedEOF
      else
        let l = Lock_zero\<lparr>lock_LockType := data ! 0\<rparr>; data = drop 1 data in
        res_bind (readVarBytes data) (\<lambda>(primary, data).
        res_bind (readVarint data) (\<lambda>(startTS, data).
        res_bind (readVarint data) (\<lambda>(ttl, data).
          UnmarshalLock_loop
            (l\<lparr>lock_Primary := primary, lock_StartTS := startTS, lock_TTL := ttl\<rparr>) data))))"

definition IsExpired :: "Lock \<Rightarrow> TimeStamp \<Rightarrow> bool" where
  "IsExpired l currentTS \<longleftrightarrow> Physical (lock_StartTS l) + lock_TTL l \<le> Physical currentTS"

subsection \<open>write.go\<close>

type_synonym WriteType = byte

definition WriteTypePut :: WriteType where "WriteTypePut = 0x50"
definition WriteTypeDelete :: WriteType where "WriteTypeDelete = 0x44"
definition WriteTypeLock :: WriteType where "WriteTypeLock = 0x4C"
definition WriteTypeRollback :: WriteType where "WriteTypeRollback = 0x52"

lemmas write_types = WriteTypePut_def WriteTypeDelete_def WriteTypeLock_def WriteTypeRollback_def
lemmas lock_types = LockTypePut_def LockTypeDelete_def LockTypeLock_def LockTypePessimistic_def

definition ShortValueMaxLen :: nat where "ShortValueMaxLen = 255"

record Write =
  write_WriteType :: WriteType
  write_StartTS :: TimeStamp
  write_ShortValue :: "bytes option"
  write_HasOverlappedRollback :: bool
  write_GCFence :: "TimeStamp option"
  write_LastChange :: LastChange
  write_TxnSource :: u64

definition Write_zero :: Write where
  "Write_zero = \<lparr>write_WriteType = 0, write_StartTS = 0, write_ShortValue = None,
     write_HasOverlappedRollback = False, write_GCFence = None,
     write_LastChange = LastChange_zero, write_TxnSource = 0\<rparr>"

definition writeTagShortValue :: byte where "writeTagShortValue = 0x76"
definition writeTagOverlappedRollback :: byte where "writeTagOverlappedRollback = 0x52"
definition writeTagGCFence :: byte where "writeTagGCFence = 0x46"
definition writeTagLastChange :: byte where "writeTagLastChange = 0x6C"
definition writeTagTxnSource :: byte where "writeTagTxnSource = 0x53"

lemmas write_tags = writeTagShortValue_def writeTagOverlappedRollback_def writeTagGCFence_def
  writeTagLastChange_def writeTagTxnSource_def

definition marshalGCFence :: "TimeStamp option \<Rightarrow> bytes \<Rightarrow> bytes" where
  "marshalGCFence fence buf =
     (case fence of None \<Rightarrow> buf | Some ts \<Rightarrow> appendUint64BE (buf @ [writeTagGCFence]) ts)"

definition MarshalWrite :: "Write \<Rightarrow> bytes" where
  "MarshalWrite w =
     (let buf = [write_WriteType w];
          buf = appendVarint buf (write_StartTS w);
          buf = marshalShortValue writeTagShortValue (write_ShortValue w) buf;
          buf = marshalFlag writeTagOverlappedRollback (write_HasOverlappedRollback w) buf;
          buf = marshalGCFence (write_GCFence w) buf;
          buf = marshalLastChange writeTagLastChange (write_LastChange w) buf
      in marshalTxnSource writeTagTxnSource (write_TxnSource w) buf)"

definition UnmarshalWrite_field :: "byte \<Rightarrow> Write \<Rightarrow> bytes \<Rightarrow> (Write \<times> bytes) res" where
  "UnmarshalWrite_field tag w data =
     (if tag = writeTagShortValue then
        res_bind (readShortValue data) (\<lambda>(v, data). Inr (w\<lparr>write_ShortValue := Some v\<rparr>, data))
      else if tag = writeTagOverlappedRollback then
        Inr (w\<lparr>write_HasOverlappedRollback := True\<rparr>, data)
      else if tag = writeTagGCFence then
        res_bind (readUint64BE data) (\<lambda>(ts, data). Inr (w\<lparr>write_GCFence := Some ts\<rparr>, data))
      else if tag = writeTagLastChange then
        res_bind (readUint64BE data) (\<lambda>(ts, data).
          res_bind (readVarint data) (\<lambda>(n, data).
            Inr (w\<lparr>write_LastChange := \<lparr>lc_TS = ts, lc_EstimatedVersions = n\<rparr>\<rparr>, data)))
      else if tag = writeTagTxnSource then
        res_bind (readVarint data) (\<lambda>(v, data). Inr (w\<lparr>write_TxnSource := v\<rparr>, data))
      else Inl ErrUnknownWriteTag)"

lemma UnmarshalWrite_field_length:
  "UnmarshalWrite_field tag w data = Inr (w', data') \<Longrightarrow> length data' \<le> length data"
  unfolding UnmarshalWrite_field_def
  by (auto simp: res_bind_eq_Inr split: if_splits dest!: read_length)

function UnmarshalWrite_loop :: "Write \<Rightarrow> bytes \<Rightarrow> Write res" where
  "UnmarshalWrite_loop w [] = Inr w"
| "UnmarshalWrite_loop w (tag # data) =
     res_bind (UnmarshalWrite_field tag w data) (\<lambda>(w', data'). UnmarshalWrite_loop w' data')"
  by pat_completeness auto
termination
  by (relation "measure (\<lambda>(w, data). length data)")
    (auto dest: UnmarshalWrite_field_length)

definition UnmarshalWrite :: "bytes \<Rightarrow> Write res" where
  "UnmarshalWrite data =
     (if length data < 1 then Inl ErrUnexpectedEOF
      else
        let w = Write_zero\<lparr>write_WriteType := data ! 0\<rparr>; data = drop 1 data in
        res_bind (readVarint data) (\<lambda>(startTS, data).
          UnmarshalWrite_loop (w\<lparr>write_StartTS := startTS\<rparr>) data))"

definition NeedValue :: "Write \<Rightarrow> bool" where
  "NeedValue w \<longleftrightarrow> write_WriteType w = WriteTypePut \<and> length (slice_bytes (write_ShortValue w)) = 0"

definition IsDataChanged :: "Write \<Rightarrow> bool" where
  "IsDataChanged w \<longleftrightarrow> write_WriteType w = WriteTypePut \<or> write_WriteType w = WriteTypeDelete"


subsection \<open>Round trips of the record formats\<close>

lemma readVarint_append [codec_simps]: "readVarint (PutUvarint v @ rest) = Inr (v, rest)"
  by (simp add: readVarint_def)

lemma readUint64BE_append [codec_simps]: "readUint64BE (PutUint64 v @ rest) = Inr (v, rest)"
  by (simp add: readUint64BE_def)

lemma unat_of_nat_u64: "n < 2 ^ 64 \<Longrightarrow> unat (of_nat n :: u64) = n"
  by (simp add: unat_of_nat)

lemma readVarBytes_append [codec_simps]:
  "length d < 2 ^ 64 \<Longrightarrow>
     readVarBytes (PutUvarint (of_nat (length d)) @ d @ rest) = Inr (d, rest)"
  by (simp add: readVarBytes_def readVarint_append unat_of_nat_u64)

lemma readShortValue_append [codec_simps]:
  "length v \<le> 255 \<Longrightarrow> readShortValue (of_nat (length v) # v @ rest) = Inr (v, rest)"
  by (simp add: readShortValue_def Let_def unat_of_nat)

lemma read_n_append:
  assumes "\<And>x rest. x \<in> set xs \<Longrightarrow> rd (enc x @ rest) = Inr (x, rest)"
  shows "read_n rd (length xs) (concat (map enc xs) @ rest) = Inr (xs, rest)"
  using assms by (induction xs) auto

lemma fold_append_concat:
  assumes "\<And>x b. f x b = b @ enc x"
  shows "fold f xs b = b @ concat (map enc xs)"
  using assms by (induction xs arbitrary: b) auto

named_theorems marshal_append \<open>the Marshal steps as appended parts\<close>

lemma marshalShortValue_append [marshal_append]:
  "marshalShortValue tag s (c # buf) = c # buf @ marshalShortValue tag s []"
  by (simp add: marshalShortValue_def Let_def)

lemma marshalUint64_append [marshal_append]: "marshalUint64 tag v (c # buf) = c # buf @ marshalUint64 tag v []"
  by (simp add: marshalUint64_def appendUint64BE_def)

lemma marshalAsyncCommit_parts:
  "marshalAsyncCommit b secs buf =
     (if b then buf @ lockTagAsyncCommitKeys # PutUvarint (of_nat (length secs)) @
        concat (map (\<lambda>s. PutUvarint (of_nat (length s)) @ s) secs) else buf)"
proof -
  have "fold (\<lambda>sec b. appendVarBytes b sec) secs x
      = x @ concat (map (\<lambda>s. PutUvarint (of_nat (length s)) @ s) secs)" for x
    by (rule fold_append_concat) (simp add: appendVarBytes_def appendVarint_def)
  then show ?thesis by (simp add: marshalAsyncCommit_def appendVarint_def)
qed

lemma marshalAsyncCommit_append [marshal_append]:
  "marshalAsyncCommit b secs (c # buf) = c # buf @ marshalAsyncCommit b secs []"
  by (simp add: marshalAsyncCommit_parts)

lemma marshalRollbackTS_parts:
  "marshalRollbackTS tss buf =
     (if tss \<noteq> [] then buf @ lockTagRollbackTS # PutUvarint (of_nat (length tss)) @
        concat (map PutUint64 tss) else buf)"
proof -
  have "fold (\<lambda>ts b. appendUint64BE b ts) tss x = x @ concat (map PutUint64 tss)" for x
    by (rule fold_append_concat) (simp add: appendUint64BE_def)
  then show ?thesis by (simp add: marshalRollbackTS_def appendVarint_def)
qed

lemma marshalRollbackTS_append [marshal_append]:
  "marshalRollbackTS tss (c # buf) = c # buf @ marshalRollbackTS tss []"
  by (simp add: marshalRollbackTS_parts)

lemma marshalLastChange_append [marshal_append]:
  "marshalLastChange tag lc (c # buf) = c # buf @ marshalLastChange tag lc []"
  by (simp add: marshalLastChange_def appendUint64BE_def appendVarint_def)

lemma marshalTxnSource_append [marshal_append]:
  "marshalTxnSource tag v (c # buf) = c # buf @ marshalTxnSource tag v []"
  by (simp add: marshalTxnSource_def appendVarint_def)

lemma marshalFlag_append [marshal_append]: "marshalFlag tag b (c # buf) = c # buf @ marshalFlag tag b []"
  by (simp add: marshalFlag_def)

lemma marshalGCFence_append [marshal_append]: "marshalGCFence f (c # buf) = c # buf @ marshalGCFence f []"
  by (simp add: marshalGCFence_def appendUint64BE_def split: option.splits)

text \<open>What a record keeps of a value it stores: an empty short value and the estimate of a
  missing last change are not stored.\<close>

definition normSlice :: "bytes option \<Rightarrow> bytes option" where
  "normSlice s = (if slice_bytes s = [] then None else s)"

definition normLastChange :: "LastChange \<Rightarrow> LastChange" where
  "normLastChange lc = (if lc_TS lc = 0 then LastChange_zero else lc)"

definition normLock :: "Lock \<Rightarrow> Lock" where
  "normLock l = l\<lparr>lock_ShortValue := normSlice (lock_ShortValue l),
     lock_Secondaries := (if lock_UseAsyncCommit l then lock_Secondaries l else []),
     lock_LastChange := normLastChange (lock_LastChange l)\<rparr>"

definition normWrite :: "Write \<Rightarrow> Write" where
  "normWrite w = w\<lparr>write_ShortValue := normSlice (write_ShortValue w),
     write_LastChange := normLastChange (write_LastChange w)\<rparr>"

text \<open>The sizes the formats can hold: one length byte for the short value, and slices
  that fit in memory.\<close>

definition lock_sizes_ok :: "Lock \<Rightarrow> bool" where
  "lock_sizes_ok l \<longleftrightarrow>
     length (slice_bytes (lock_ShortValue l)) \<le> ShortValueMaxLen \<and>
     length (lock_Primary l) < 2 ^ 64 \<and>
     length (lock_Secondaries l) * 24 \<le> maxAlloc \<and>
     list_all (\<lambda>s. length s < 2 ^ 64) (lock_Secondaries l) \<and>
     length (lock_RollbackTS l) * 8 \<le> maxAlloc"

definition write_sizes_ok :: "Write \<Rightarrow> bool" where
  "write_sizes_ok w \<longleftrightarrow> length (slice_bytes (write_ShortValue w)) \<le> ShortValueMaxLen"

lemma slice_bytes_simps [simp]: "slice_bytes None = []" "slice_bytes (Some v) = v"
  by (simp_all add: slice_bytes_def)

named_theorems unmarshal_parts \<open>the tag loops on one marshalled part\<close>

lemma unmarshal_ShortValue [unmarshal_parts]:
  assumes "length (slice_bytes s) \<le> 255" "lock_ShortValue l = None"
  shows "UnmarshalLock_loop l (marshalShortValue lockTagShortValue s [] @ rest) =
    UnmarshalLock_loop (l\<lparr>lock_ShortValue := normSlice s\<rparr>) rest"
  using assms
  by (cases l; cases s)
    (auto simp: marshalShortValue_def UnmarshalLock_field_def normSlice_def codec_simps)

lemma unmarshal_words [unmarshal_parts]:
  "lock_ForUpdateTS l = 0 \<Longrightarrow>
     UnmarshalLock_loop l (marshalUint64 lockTagForUpdateTS v [] @ rest) =
     UnmarshalLock_loop (l\<lparr>lock_ForUpdateTS := v\<rparr>) rest"
  "lock_TxnSize l = 0 \<Longrightarrow>
     UnmarshalLock_loop l (marshalUint64 lockTagTxnSize v [] @ rest) =
     UnmarshalLock_loop (l\<lparr>lock_TxnSize := v\<rparr>) rest"
  "lock_MinCommitTS l = 0 \<Longrightarrow>
     UnmarshalLock_loop l (marshalUint64 lockTagMinCommitTS v [] @ rest) =
     UnmarshalLock_loop (l\<lparr>lock_MinCommitTS := v\<rparr>) rest"
  "lock_Generation l = 0 \<Longrightarrow>
     UnmarshalLock_loop l (marshalUint64 lockTagGeneration v [] @ rest) =
     UnmarshalLock_loop (l\<lparr>lock_Generation := v\<rparr>) rest"
  by (cases l; cases "v = 0";
      simp add: marshalUint64_def appendUint64BE_def UnmarshalLock_field_def lock_tags
        codec_simps word_gt_0)+

lemma makeSlice_ok_length:
  "n * m \<le> maxAlloc \<Longrightarrow> 0 < m \<Longrightarrow> unat (of_nat n :: u64) = n \<and> makeSlice_ok m (of_nat n)"
proof -
  assume a: "n * m \<le> maxAlloc" "0 < m"
  have "n \<le> maxAlloc" by (rule le_trans [OF _ a(1)]) (use a(2) in simp)
  then have "n < 2 ^ 64" by (simp add: maxAlloc_def)
  with a show ?thesis by (simp add: makeSlice_ok_def unat_of_nat_u64)
qed

lemma unmarshal_AsyncCommit [unmarshal_parts]:
  assumes "length secs * 24 \<le> maxAlloc" "list_all (\<lambda>s. length s < 2 ^ 64) secs"
    and "\<not> lock_UseAsyncCommit l" "lock_Secondaries l = []"
  shows "UnmarshalLock_loop l (marshalAsyncCommit b secs [] @ rest) =
    UnmarshalLock_loop (l\<lparr>lock_UseAsyncCommit := b, lock_Secondaries := (if b then secs else [])\<rparr>) rest"
proof (cases b)
  case True
  have "read_n readVarBytes (length secs)
      (concat (map (\<lambda>s. PutUvarint (of_nat (length s)) @ s) secs) @ rest) = Inr (secs, rest)"
    using assms(2) by (intro read_n_append) (simp add: readVarBytes_append list_all_iff)
  with True makeSlice_ok_length [OF assms(1)] show ?thesis
    by (simp add: marshalAsyncCommit_parts UnmarshalLock_field_def lock_tags readVarint_append)
next
  case False
  with assms show ?thesis by (cases l) (simp add: marshalAsyncCommit_parts)
qed

lemma unmarshal_RollbackTS [unmarshal_parts]:
  assumes "length tss * 8 \<le> maxAlloc" "lock_RollbackTS l = []"
  shows "UnmarshalLock_loop l (marshalRollbackTS tss [] @ rest) =
    UnmarshalLock_loop (l\<lparr>lock_RollbackTS := tss\<rparr>) rest"
proof (cases "tss = []")
  case True
  with assms show ?thesis by (cases l) (simp add: marshalRollbackTS_parts)
next
  case False
  have "read_n readUint64BE (length tss) (concat (map PutUint64 tss) @ rest) = Inr (tss, rest)"
    by (intro read_n_append) (simp add: readUint64BE_append)
  with False makeSlice_ok_length [OF assms(1)] show ?thesis
    by (simp add: marshalRollbackTS_parts UnmarshalLock_field_def lock_tags readVarint_append)
qed

lemma unmarshal_rest [unmarshal_parts]:
  "lock_LastChange l = LastChange_zero \<Longrightarrow>
     UnmarshalLock_loop l (marshalLastChange lockTagLastChange lc [] @ rest) =
     UnmarshalLock_loop (l\<lparr>lock_LastChange := normLastChange lc\<rparr>) rest"
  "lock_TxnSource l = 0 \<Longrightarrow>
     UnmarshalLock_loop l (marshalTxnSource lockTagTxnSource v [] @ rest) =
     UnmarshalLock_loop (l\<lparr>lock_TxnSource := v\<rparr>) rest"
  "\<not> lock_PessimisticLockWithConflict l \<Longrightarrow>
     UnmarshalLock_loop l (marshalFlag lockTagPessimConflict b [] @ rest) =
     UnmarshalLock_loop (l\<lparr>lock_PessimisticLockWithConflict := b\<rparr>) rest"
  by (cases l; cases lc; simp add: marshalLastChange_def IsZero_def TSZero_def normLastChange_def
        marshalTxnSource_def marshalFlag_def appendUint64BE_def appendVarint_def
        UnmarshalLock_field_def lock_tags codec_simps word_gt_0)+

lemma MarshalLock_parts:
  "MarshalLock l = lock_LockType l # PutUvarint (of_nat (length (lock_Primary l))) @ lock_Primary l @
     PutUvarint (lock_StartTS l) @ PutUvarint (lock_TTL l) @
     marshalShortValue lockTagShortValue (lock_ShortValue l) [] @
     marshalUint64 lockTagForUpdateTS (lock_ForUpdateTS l) [] @
     marshalUint64 lockTagTxnSize (lock_TxnSize l) [] @
     marshalUint64 lockTagMinCommitTS (lock_MinCommitTS l) [] @
     marshalAsyncCommit (lock_UseAsyncCommit l) (lock_Secondaries l) [] @
     marshalRollbackTS (lock_RollbackTS l) [] @
     marshalLastChange lockTagLastChange (lock_LastChange l) [] @
     marshalTxnSource lockTagTxnSource (lock_TxnSource l) [] @
     marshalFlag lockTagPessimConflict (lock_PessimisticLockWithConflict l) [] @
     marshalUint64 lockTagGeneration (lock_Generation l) []"
  unfolding MarshalLock_def Let_def appendVarBytes_def appendVarint_def
  by (simp add: marshal_append)

lemma UnmarshalLock_MarshalLock:
  assumes "lock_sizes_ok l"
  shows "UnmarshalLock (MarshalLock l) = Inr (normLock l)"
proof -
  have "UnmarshalLock_loop (Lock_zero\<lparr>lock_LockType := lock_LockType l, lock_Primary := lock_Primary l,
      lock_StartTS := lock_StartTS l, lock_TTL := lock_TTL l\<rparr>)
    (marshalShortValue lockTagShortValue (lock_ShortValue l) [] @
     marshalUint64 lockTagForUpdateTS (lock_ForUpdateTS l) [] @
     marshalUint64 lockTagTxnSize (lock_TxnSize l) [] @
     marshalUint64 lockTagMinCommitTS (lock_MinCommitTS l) [] @
     marshalAsyncCommit (lock_UseAsyncCommit l) (lock_Secondaries l) [] @
     marshalRollbackTS (lock_RollbackTS l) [] @
     marshalLastChange lockTagLastChange (lock_LastChange l) [] @
     marshalTxnSource lockTagTxnSource (lock_TxnSource l) [] @
     marshalFlag lockTagPessimConflict (lock_PessimisticLockWithConflict l) [] @
     marshalUint64 lockTagGeneration (lock_Generation l) []) = Inr (normLock l)"
    using assms unmarshal_words(4) [where rest = "[]"]
    by (cases l) (simp add: lock_sizes_ok_def ShortValueMaxLen_def Lock_zero_def unmarshal_parts normLock_def)
  then show ?thesis
    using assms
    by (simp add: UnmarshalLock_def MarshalLock_parts lock_sizes_ok_def codec_simps)
qed

lemma unmarshal_write_parts:
  "length (slice_bytes s) \<le> 255 \<Longrightarrow> write_ShortValue w = None \<Longrightarrow>
     UnmarshalWrite_loop w (marshalShortValue writeTagShortValue s [] @ rest) =
     UnmarshalWrite_loop (w\<lparr>write_ShortValue := normSlice s\<rparr>) rest"
  "\<not> write_HasOverlappedRollback w \<Longrightarrow>
     UnmarshalWrite_loop w (marshalFlag writeTagOverlappedRollback b [] @ rest) =
     UnmarshalWrite_loop (w\<lparr>write_HasOverlappedRollback := b\<rparr>) rest"
  "write_GCFence w = None \<Longrightarrow>
     UnmarshalWrite_loop w (marshalGCFence f [] @ rest) =
     UnmarshalWrite_loop (w\<lparr>write_GCFence := f\<rparr>) rest"
  "write_LastChange w = LastChange_zero \<Longrightarrow>
     UnmarshalWrite_loop w (marshalLastChange writeTagLastChange lc [] @ rest) =
     UnmarshalWrite_loop (w\<lparr>write_LastChange := normLastChange lc\<rparr>) rest"
  "write_TxnSource w = 0 \<Longrightarrow>
     UnmarshalWrite_loop w (marshalTxnSource writeTagTxnSource v [] @ rest) =
     UnmarshalWrite_loop (w\<lparr>write_TxnSource := v\<rparr>) rest"
  by (cases w; cases s; cases f; cases lc;
      auto simp: marshalShortValue_def marshalFlag_def marshalGCFence_def marshalLastChange_def
        marshalTxnSource_def IsZero_def TSZero_def normLastChange_def normSlice_def
        appendUint64BE_def appendVarint_def UnmarshalWrite_field_def write_tags codec_simps
        word_gt_0)+

lemma MarshalWrite_parts:
  "MarshalWrite w = write_WriteType w # PutUvarint (write_StartTS w) @
     marshalShortValue writeTagShortValue (write_ShortValue w) [] @
     marshalFlag writeTagOverlappedRollback (write_HasOverlappedRollback w) [] @
     marshalGCFence (write_GCFence w) [] @
     marshalLastChange writeTagLastChange (write_LastChange w) [] @
     marshalTxnSource writeTagTxnSource (write_TxnSource w) []"
  unfolding MarshalWrite_def Let_def appendVarint_def
  by (simp add: marshal_append)

lemma UnmarshalWrite_MarshalWrite:
  assumes "write_sizes_ok w"
  shows "UnmarshalWrite (MarshalWrite w) = Inr (normWrite w)"
  using assms unmarshal_write_parts(5) [where rest = "[]"]
  by (cases w) (simp add: UnmarshalWrite_def MarshalWrite_parts write_sizes_ok_def ShortValueMaxLen_def
      codec_simps Write_zero_def unmarshal_write_parts normWrite_def)

text \<open>Every decoded lock is within the sizes the format can hold.\<close>

lemma readVarBytes_bound: "readVarBytes d = Inr (x, d') \<Longrightarrow> length x < 2 ^ 64"
proof -
  assume "readVarBytes d = Inr (x, d')"
  then obtain n e where "x = take (unat (n :: u64)) e"
    by (auto simp: readVarBytes_def res_bind_eq_Inr split: if_splits)
  then have "length x \<le> unat n" by simp
  also have "unat n < 2 ^ LENGTH(64)" by (rule unsigned_less)
  finally show ?thesis by simp
qed

lemma readShortValue_bound: "readShortValue d = Inr (x, d') \<Longrightarrow> length x \<le> 255"
proof -
  assume "readShortValue d = Inr (x, d')"
  then have "length x \<le> unat (d ! 0)"
    by (auto simp: readShortValue_def Let_def split: if_splits)
  also have "unat (d ! 0) < 2 ^ LENGTH(8)" by (rule unsigned_less)
  finally show ?thesis by simp
qed

lemma read_n_elems:
  assumes "\<And>d x d'. rd d = Inr (x, d') \<Longrightarrow> P x"
  shows "read_n rd n d = Inr (xs, d') \<Longrightarrow> length xs = n \<and> list_all P xs"
proof (induction n arbitrary: d xs)
  case (Suc n)
  then obtain x e ys where "rd d = Inr (x, e)" "read_n rd n e = Inr (ys, d')" "xs = x # ys"
    by (auto simp: res_bind_eq_Inr)
  with Suc.IH [of e ys] assms show ?case by auto
qed simp

lemma UnmarshalLock_field_sizes:
  assumes "UnmarshalLock_field tag l d = Inr (l', d')" "lock_sizes_ok l"
  shows "lock_sizes_ok l'"
proof -
  have n1: "length xs = n \<and> list_all (\<lambda>s. length s < 2 ^ 64) xs"
    if "read_n readVarBytes n d = Inr (xs, d')" for n d xs d'
    using read_n_elems [where P = "\<lambda>s. length s < 2 ^ 64", OF _ that] readVarBytes_bound by blast
  have n2: "length xs = n" if "read_n readUint64BE n d = Inr (xs, d')" for n d xs d'
    using read_n_elems [where P = "\<lambda>_. True", OF _ that] by blast
  show ?thesis
    using assms unfolding UnmarshalLock_field_def
    by (auto simp: res_bind_eq_Inr lock_sizes_ok_def makeSlice_ok_def ShortValueMaxLen_def
        split: if_splits dest: readShortValue_bound dest!: n1 n2)
qed

lemma UnmarshalLock_loop_sizes:
  "UnmarshalLock_loop l d = Inr l' \<Longrightarrow> lock_sizes_ok l \<Longrightarrow> lock_sizes_ok l'"
proof (induction l d rule: UnmarshalLock_loop.induct)
  case (2 l tag d)
  then obtain m e where "UnmarshalLock_field tag l d = Inr (m, e)" "UnmarshalLock_loop m e = Inr l'"
    by (auto simp: res_bind_eq_Inr)
  with 2 show ?case using UnmarshalLock_field_sizes by blast
qed simp

lemma UnmarshalLock_sizes:
  assumes "UnmarshalLock d = Inr l"
  shows "lock_sizes_ok l"
proof -
  obtain t p d1 s d2 ttl d3 where "readVarBytes (drop 1 d) = Inr (p, d1)"
    and loop: "UnmarshalLock_loop (Lock_zero\<lparr>lock_LockType := t, lock_Primary := p, lock_StartTS := s,
      lock_TTL := ttl\<rparr>) d3 = Inr l"
    using assms by (auto simp: UnmarshalLock_def res_bind_eq_Inr Let_def split: if_splits)
  then have "length p < 2 ^ 64" by (simp only: readVarBytes_bound)
  with loop show ?thesis
    by (elim UnmarshalLock_loop_sizes) (simp add: lock_sizes_ok_def Lock_zero_def maxAlloc_def)
qed

subsection \<open>Timestamps and expiry\<close>

lemma bit_imp_unat_ge: "bit (w :: u64) n \<Longrightarrow> 2 ^ n \<le> unat w"
proof -
  assume "bit w n"
  then have "bit (unat w) n" using bit_imp_le_length [of w n] by (simp add: bit_unsigned_iff)
  then have "unat w div 2 ^ n \<noteq> 0" unfolding bit_iff_odd by (intro notI) simp
  then show ?thesis by (meson div_less not_le)
qed

lemma unat_Physical: "unat (Physical ts) = unat ts div 2 ^ 18"
  by (simp add: Physical_def TSLogicalBits_def unat_drop_bit_div)

lemma Logical_mask: "Logical ts = take_bit 18 ts"
  unfolding Logical_def TSLogicalBits_def push_bit_of_1 mask_eq_exp_minus_1 [symmetric]
  by (simp only: take_bit_eq_mask)

lemma unat_Logical: "unat (Logical ts) = unat ts mod 2 ^ 18"
  unfolding Logical_mask unsigned_take_bit_eq by (rule take_bit_eq_mod)

lemma ComposeTS_parts: "ComposeTS (Physical ts) (Logical ts) = ts"
  unfolding ComposeTS_def Physical_def Logical_mask TSLogicalBits_def
  by (rule bit_word_eqI) (auto simp: bit_simps)

lemma ts_less_iff:
  "ts < ts' \<longleftrightarrow> Physical ts < Physical ts' \<or> (Physical ts = Physical ts' \<and> Logical ts < Logical ts')"
proof -
  have lex: "a < b \<longleftrightarrow> a div m < b div m \<or> (a div m = b div m \<and> a mod m < b mod m)"
    if "0 < m" for a b m :: nat
  proof
    assume "a < b"
    then have "a div m \<le> b div m" by (simp add: div_le_mono)
    moreover have "a mod m < b mod m" if "a div m = b div m"
      using \<open>a < b\<close> that by (metis div_mult_mod_eq nat_add_left_cancel_less)
    ultimately show "a div m < b div m \<or> (a div m = b div m \<and> a mod m < b mod m)"
      by linarith
  next
    assume "a div m < b div m \<or> (a div m = b div m \<and> a mod m < b mod m)"
    then show "a < b"
      by (metis div_le_mono div_mult_mod_eq leD nat_add_left_cancel_less not_le_imp_less)
  qed
  show ?thesis
    using lex [of "2 ^ 18" "unat ts" "unat ts'"]
    by (simp only: word_less_nat_alt word_unat_eq_iff unat_Physical unat_Logical) simp
qed

lemma ComposeTS_inverse:
  assumes "p < 2 ^ 46" "l < 2 ^ 18"
  shows "Physical (ComposeTS p l) = p" "Logical (ComposeTS p l) = l"
proof -
  have "unat p < 2 ^ 46" "unat l < 2 ^ 18" using assms by (simp_all add: word_less_nat_alt)
  note bounds = this
  have pb: "\<not> bit p n" if "46 \<le> n" for n
    using that bounds(1) bit_imp_unat_ge [of p n] power_increasing [of 46 n "2 :: nat"] by auto
  have lb: "\<not> bit l n" if "18 \<le> n" for n
    using that bounds(2) bit_imp_unat_ge [of l n] power_increasing [of 18 n "2 :: nat"] by auto
  show "Physical (ComposeTS p l) = p"
    unfolding ComposeTS_def Physical_def TSLogicalBits_def
    by (rule bit_word_eqI) (auto simp: bit_simps lb intro: ccontr dest: pb [OF leI])
  show "Logical (ComposeTS p l) = l"
    unfolding ComposeTS_def Logical_mask TSLogicalBits_def
    by (rule bit_word_eqI) (auto simp: bit_simps intro: ccontr dest: lb [OF leI])
qed

lemma normLock_fixed:
  "normLock l = l \<longleftrightarrow> lock_ShortValue l \<noteq> Some [] \<and>
     (lock_UseAsyncCommit l \<or> lock_Secondaries l = []) \<and>
     (lc_TS (lock_LastChange l) \<noteq> 0 \<or> lc_EstimatedVersions (lock_LastChange l) = 0)"
  by (cases l; cases "lock_ShortValue l"; cases "lock_LastChange l")
    (auto simp: normLock_def normSlice_def normLastChange_def LastChange_zero_def)

lemma normWrite_fixed:
  "normWrite w = w \<longleftrightarrow> write_ShortValue w \<noteq> Some [] \<and>
     (lc_TS (write_LastChange w) \<noteq> 0 \<or> lc_EstimatedVersions (write_LastChange w) = 0)"
  by (cases w; cases "write_ShortValue w"; cases "write_LastChange w")
    (auto simp: normWrite_def normSlice_def normLastChange_def LastChange_zero_def)

lemma IsExpired_mod:
  "IsExpired l ts \<longleftrightarrow>
     (unat (Physical (lock_StartTS l)) + unat (lock_TTL l)) mod 2 ^ 64 \<le> unat (Physical ts)"
  by (simp add: IsExpired_def word_le_nat_alt unat_word_ariths)

lemma IsExpired_wrap:
  assumes "2 ^ 64 \<le> unat (Physical (lock_StartTS l)) + unat (lock_TTL l)"
  shows "IsExpired l (lock_StartTS l)"
proof -
  let ?p = "unat (Physical (lock_StartTS l))" and ?t = "unat (lock_TTL l)"
  have "?t < 2 ^ 64" "?p < 2 ^ 64" using unsigned_less [where 'b = 64] by fastforce+
  with assms have "(?p + ?t) mod 2 ^ 64 = ?p + ?t - 2 ^ 64"
    by (simp add: le_mod_geq)
  then show ?thesis using \<open>?t < 2 ^ 64\<close> assms unfolding IsExpired_mod by linarith
qed

subsection \<open>Properties of the package\<close>

text \<open>C40: Decoding a marshalled lock returns the lock, for every combination of its
  optional fields, up to what the format does not store: an empty short value becomes nil,
  secondaries are kept only under async commit, and the version estimate only with a last
  change. The second conjunct says which locks come back unchanged.\<close>

theorem lock_roundtrip:
  assumes "lock_sizes_ok l"
  shows "UnmarshalLock (MarshalLock l) = Inr (normLock l) \<and>
    (normLock l = l \<longleftrightarrow> lock_ShortValue l \<noteq> Some [] \<and>
       (lock_UseAsyncCommit l \<or> lock_Secondaries l = []) \<and>
       (lc_TS (lock_LastChange l) \<noteq> 0 \<or> lc_EstimatedVersions (lock_LastChange l) = 0))"
  using UnmarshalLock_MarshalLock [OF assms] normLock_fixed [of l] by blast

text \<open>An async-commit lock with every optional field set.\<close>

definition sampleLock :: Lock where
  "sampleLock = \<lparr>lock_LockType = LockTypePut, lock_Primary = [1, 2], lock_StartTS = 300, lock_TTL = 3000,
     lock_ShortValue = Some [7, 8, 9], lock_ForUpdateTS = 301, lock_TxnSize = 2, lock_MinCommitTS = 310,
     lock_UseAsyncCommit = True, lock_Secondaries = [[3], [4, 5]], lock_RollbackTS = [10, 20],
     lock_LastChange = \<lparr>lc_TS = 200, lc_EstimatedVersions = 3\<rparr>, lock_TxnSource = 1,
     lock_PessimisticLockWithConflict = True, lock_Generation = 4\<rparr>"

theorem lock_roundtrip_witness:
  "lock_sizes_ok sampleLock \<and> UnmarshalLock (MarshalLock sampleLock) = Inr sampleLock"
proof -
  have ok: "lock_sizes_ok sampleLock"
    by (simp add: lock_sizes_ok_def sampleLock_def ShortValueMaxLen_def maxAlloc_def)
  have "normLock sampleLock = sampleLock"
    using lock_roundtrip [OF ok] by (simp add: sampleLock_def)
  with ok lock_roundtrip [OF ok] show ?thesis by simp
qed

text \<open>The same round trip for write records.\<close>

theorem write_roundtrip:
  assumes "write_sizes_ok w"
  shows "UnmarshalWrite (MarshalWrite w) = Inr (normWrite w) \<and>
    (normWrite w = w \<longleftrightarrow> write_ShortValue w \<noteq> Some [] \<and>
       (lc_TS (write_LastChange w) \<noteq> 0 \<or> lc_EstimatedVersions (write_LastChange w) = 0))"
  using UnmarshalWrite_MarshalWrite [OF assms] normWrite_fixed [of w] by blast

definition sampleWrite :: Write where
  "sampleWrite = \<lparr>write_WriteType = WriteTypePut, write_StartTS = 300, write_ShortValue = Some [7],
     write_HasOverlappedRollback = True, write_GCFence = Some 0,
     write_LastChange = \<lparr>lc_TS = 200, lc_EstimatedVersions = 3\<rparr>, write_TxnSource = 9\<rparr>"

theorem write_roundtrip_witness:
  "write_sizes_ok sampleWrite \<and> UnmarshalWrite (MarshalWrite sampleWrite) = Inr sampleWrite"
proof -
  have ok: "write_sizes_ok sampleWrite"
    by (simp add: write_sizes_ok_def sampleWrite_def ShortValueMaxLen_def)
  have "normWrite sampleWrite = sampleWrite"
    using write_roundtrip [OF ok] by (simp add: sampleWrite_def)
  with ok write_roundtrip [OF ok] show ?thesis by simp
qed

text \<open>Timestamps order by physical time, then by the logical counter, and
  \<^verbatim>\<open>ComposeTS\<close> is the inverse of the two projections.\<close>

theorem timestamp_order:
  "(ts < ts' \<longleftrightarrow> Physical ts < Physical ts' \<or> (Physical ts = Physical ts' \<and> Logical ts < Logical ts')) \<and>
   ComposeTS (Physical ts) (Logical ts) = ts \<and>
   (p < 2 ^ 46 \<longrightarrow> l < 2 ^ 18 \<longrightarrow> Physical (ComposeTS p l) = p \<and> Logical (ComposeTS p l) = l)"
  using ts_less_iff ComposeTS_parts ComposeTS_inverse by blast

theorem timestamp_order_witness:
  "Physical (ComposeTS 1700000000000 5) = 1700000000000 \<and> Logical (ComposeTS 1700000000000 5) = 5"
  using timestamp_order [of 0 0 1700000000000 5] by simp

text \<open>A lock expires exactly when its start plus its TTL is not after the current
  physical time, as long as that sum fits in 64 bits; when the sum wraps around the lock
  counts as expired from its own start on.\<close>

theorem lock_expiry:
  "(unat (Physical (lock_StartTS l)) + unat (lock_TTL l) < 2 ^ 64 \<longrightarrow>
      (IsExpired l ts \<longleftrightarrow> unat (Physical (lock_StartTS l)) + unat (lock_TTL l) \<le> unat (Physical ts))) \<and>
   (2 ^ 64 \<le> unat (Physical (lock_StartTS l)) + unat (lock_TTL l) \<longrightarrow> IsExpired l (lock_StartTS l))"
  using IsExpired_wrap [of l] by (simp add: IsExpired_mod)

theorem lock_expiry_witness:
  "\<not> IsExpired (Lock_zero\<lparr>lock_StartTS := ComposeTS 100 0, lock_TTL := 50\<rparr>) (ComposeTS 149 0) \<and>
   IsExpired (Lock_zero\<lparr>lock_StartTS := ComposeTS 100 0, lock_TTL := 50\<rparr>) (ComposeTS 150 0) \<and>
   IsExpired (Lock_zero\<lparr>lock_StartTS := ComposeTS 100 0, lock_TTL := - 1\<rparr>) (ComposeTS 100 0)"
  using lock_expiry [of "Lock_zero\<lparr>lock_StartTS := ComposeTS 100 0, lock_TTL := 50\<rparr>" "ComposeTS 149 0"]
    lock_expiry [of "Lock_zero\<lparr>lock_StartTS := ComposeTS 100 0, lock_TTL := 50\<rparr>" "ComposeTS 150 0"]
    lock_expiry [of "Lock_zero\<lparr>lock_StartTS := ComposeTS 100 0, lock_TTL := - 1\<rparr>" "ComposeTS 100 0"]
  by (simp add: ComposeTS_inverse unsigned_minus_1_eq_mask mask_eq_exp_minus_1)

end
