(* ===== verification/Engine.thy ===== *)
theory Engine
  imports Txntypes
begin

section \<open>The engine interface of package traits\<close>

text \<open>
  Models the contracts of \<^verbatim>\<open>internal/engine/traits/traits.go\<close> that the storage layers
  program against: a column family is its entries in key order, a store maps the column
  family names to them, a snapshot is a store value, an iterator is a position in the
  entries between its bounds, and a write batch is the list of its operations, applied in
  order. I/O faults of the engine are outside the model: the only engine errors are the
  documented \<^verbatim>\<open>ErrNotFound\<close> and \<^verbatim>\<open>ErrCFNotFound\<close>. \<open>Rocks\<close> shows that the engine of
  \<^verbatim>\<open>internal/engine/rocks\<close> implements this interface.
\<close>

type_synonym entry = "bytes \<times> bytes"
type_synonym cf = "entry list"
type_synonym store = "string \<Rightarrow> cf"

subsection \<open>Column families\<close>

definition cf_sorted :: "cf \<Rightarrow> bool" where
  "cf_sorted es \<longleftrightarrow> sorted_wrt (<) (map fst es)"

definition cf_get :: "cf \<Rightarrow> bytes \<Rightarrow> bytes option" where
  "cf_get es key = map_of es key"

fun cf_put :: "bytes \<Rightarrow> bytes \<Rightarrow> cf \<Rightarrow> cf" where
  "cf_put key v [] = [(key, v)]"
| "cf_put key v ((k, u) # es) =
     (if key < k then (key, v) # (k, u) # es
      else if key = k then (key, v) # es
      else (k, u) # cf_put key v es)"

definition cf_delete :: "bytes \<Rightarrow> cf \<Rightarrow> cf" where
  "cf_delete key es = filter (\<lambda>e. fst e \<noteq> key) es"

definition cf_delete_range :: "bytes \<Rightarrow> bytes \<Rightarrow> cf \<Rightarrow> cf" where
  "cf_delete_range startKey endKey es = filter (\<lambda>e. \<not> (startKey \<le> fst e \<and> fst e < endKey)) es"

subsection \<open>Engine operations\<close>

definition known_cf :: "string \<Rightarrow> bool" where
  "known_cf c \<longleftrightarrow> c \<in> set AllCFs"

definition eng_get :: "store \<Rightarrow> string \<Rightarrow> bytes \<Rightarrow> bytes res" where
  "eng_get st c key =
     (if \<not> known_cf c then Inl (ErrCFNotFound c)
      else case cf_get (st c) key of None \<Rightarrow> Inl ErrNotFound | Some v \<Rightarrow> Inr v)"

definition eng_put :: "store \<Rightarrow> string \<Rightarrow> bytes \<Rightarrow> bytes \<Rightarrow> store res" where
  "eng_put st c key v =
     (if \<not> known_cf c then Inl (ErrCFNotFound c) else Inr (st(c := cf_put key v (st c))))"

definition eng_delete :: "store \<Rightarrow> string \<Rightarrow> bytes \<Rightarrow> store res" where
  "eng_delete st c key =
     (if \<not> known_cf c then Inl (ErrCFNotFound c) else Inr (st(c := cf_delete key (st c))))"

definition eng_delete_range :: "store \<Rightarrow> string \<Rightarrow> bytes \<Rightarrow> bytes \<Rightarrow> store res" where
  "eng_delete_range st c startKey endKey =
     (if \<not> known_cf c then Inl (ErrCFNotFound c)
      else Inr (st(c := cf_delete_range startKey endKey (st c))))"

subsection \<open>Write batches\<close>

datatype wb_op =
    WbPut string bytes bytes
  | WbDelete string bytes
  | WbDeleteRange string bytes bytes

fun wb_apply1 :: "wb_op \<Rightarrow> store \<Rightarrow> store" where
  "wb_apply1 (WbPut c key v) st = st(c := cf_put key v (st c))"
| "wb_apply1 (WbDelete c key) st = st(c := cf_delete key (st c))"
| "wb_apply1 (WbDeleteRange c s e) st = st(c := cf_delete_range s e (st c))"

definition wb_commit :: "wb_op list \<Rightarrow> store \<Rightarrow> store" where
  "wb_commit ops st = fold wb_apply1 ops st"

subsection \<open>Iterators\<close>

record IterOptions =
  opt_LowerBound :: "bytes option"
  opt_UpperBound :: "bytes option"

definition IterOptions_zero :: IterOptions where
  "IterOptions_zero = \<lparr>opt_LowerBound = None, opt_UpperBound = None\<rparr>"

definition in_bounds :: "IterOptions \<Rightarrow> bytes \<Rightarrow> bool" where
  "in_bounds opts key \<longleftrightarrow>
     (case opt_LowerBound opts of None \<Rightarrow> True | Some lo \<Rightarrow> lo \<le> key) \<and>
     (case opt_UpperBound opts of None \<Rightarrow> True | Some hi \<Rightarrow> key < hi)"

text \<open>The entries before the position (nearest first), at it, and after it.\<close>

record iterator =
  it_before :: cf
  it_at :: "entry option"
  it_after :: cf

definition it_all :: "iterator \<Rightarrow> cf" where
  "it_all it = rev (it_before it) @ (case it_at it of None \<Rightarrow> [] | Some e \<Rightarrow> [e]) @ it_after it"

definition it_at_head :: "cf \<Rightarrow> cf \<Rightarrow> iterator" where
  "it_at_head before rest =
     (case rest of
        [] \<Rightarrow> \<lparr>it_before = before, it_at = None, it_after = []\<rparr>
      | e # es \<Rightarrow> \<lparr>it_before = before, it_at = Some e, it_after = es\<rparr>)"

definition NewIterator :: "cf \<Rightarrow> IterOptions \<Rightarrow> iterator" where
  "NewIterator es opts =
     \<lparr>it_before = [], it_at = None, it_after = filter (\<lambda>e. in_bounds opts (fst e)) es\<rparr>"

definition SeekToFirst :: "iterator \<Rightarrow> iterator" where
  "SeekToFirst it = it_at_head [] (it_all it)"

definition SeekToLast :: "iterator \<Rightarrow> iterator" where
  "SeekToLast it =
     (case rev (it_all it) of
        [] \<Rightarrow> \<lparr>it_before = [], it_at = None, it_after = []\<rparr>
      | e # es \<Rightarrow> \<lparr>it_before = es, it_at = Some e, it_after = []\<rparr>)"

definition Seek :: "bytes \<Rightarrow> iterator \<Rightarrow> iterator" where
  "Seek target it =
     it_at_head (rev (takeWhile (\<lambda>e. fst e < target) (it_all it)))
       (dropWhile (\<lambda>e. fst e < target) (it_all it))"

definition SeekForPrev :: "bytes \<Rightarrow> iterator \<Rightarrow> iterator" where
  "SeekForPrev target it =
     (let es = it_all it; rest = dropWhile (\<lambda>e. fst e \<le> target) es in
      case rev (takeWhile (\<lambda>e. fst e \<le> target) es) of
        [] \<Rightarrow> \<lparr>it_before = [], it_at = None, it_after = rest\<rparr>
      | e # before \<Rightarrow> \<lparr>it_before = before, it_at = Some e, it_after = rest\<rparr>)"

definition it_Next :: "iterator \<Rightarrow> iterator" where
  "it_Next it =
     it_at_head ((case it_at it of None \<Rightarrow> [] | Some e \<Rightarrow> [e]) @ it_before it) (it_after it)"

definition it_Prev :: "iterator \<Rightarrow> iterator" where
  "it_Prev it =
     (let rest = (case it_at it of None \<Rightarrow> [] | Some e \<Rightarrow> [e]) @ it_after it in
      case it_before it of
        [] \<Rightarrow> \<lparr>it_before = [], it_at = None, it_after = rest\<rparr>
      | e # before \<Rightarrow> \<lparr>it_before = before, it_at = Some e, it_after = rest\<rparr>)"

definition it_Valid :: "iterator \<Rightarrow> bool" where
  "it_Valid it \<longleftrightarrow> it_at it \<noteq> None"

definition it_Key :: "iterator \<Rightarrow> bytes" where
  "it_Key it = (case it_at it of None \<Rightarrow> [] | Some e \<Rightarrow> fst e)"

definition it_Value :: "iterator \<Rightarrow> bytes" where
  "it_Value it = (case it_at it of None \<Rightarrow> [] | Some e \<Rightarrow> snd e)"

text \<open>The entries from the position on: what a forward loop still visits.\<close>

definition it_rest :: "iterator \<Rightarrow> cf" where
  "it_rest it = (case it_at it of None \<Rightarrow> [] | Some e \<Rightarrow> e # it_after it)"

subsection \<open>Lemmas on column families\<close>

lemma cf_get_put [cf_simps]: "cf_get (cf_put k v es) k' = (if k' = k then Some v else cf_get es k')"
  if "cf_sorted es"
  using that
  by (induction k v es rule: cf_put.induct) (auto simp: cf_get_def cf_sorted_def)

lemma set_fst_cf_put: "fst ` set (cf_put k v es) = insert k (fst ` set es)"
  by (induction k v es rule: cf_put.induct) auto

lemma cf_sorted_put [cf_simps]: "cf_sorted es \<Longrightarrow> cf_sorted (cf_put k v es)"
proof (induction k v es rule: cf_put.induct)
  case (2 key v k u es)
  then show ?case using set_fst_cf_put [of key v es] by (auto simp: cf_sorted_def)
qed (simp add: cf_sorted_def)

lemma cf_sorted_filter: "cf_sorted es \<Longrightarrow> cf_sorted (filter P es)"
  unfolding cf_sorted_def sorted_wrt_map by (rule sorted_wrt_filter)

lemma cf_sorted_delete [cf_simps]: "cf_sorted es \<Longrightarrow> cf_sorted (cf_delete k es)"
  by (simp add: cf_delete_def cf_sorted_filter)

lemma cf_sorted_delete_range [cf_simps]: "cf_sorted es \<Longrightarrow> cf_sorted (cf_delete_range s e es)"
  by (simp add: cf_delete_range_def cf_sorted_filter)

lemma map_of_filter_key: "map_of (filter (\<lambda>e. P (fst e)) es) k = (if P k then map_of es k else None)"
  by (induction es) auto

lemma cf_get_delete [cf_simps]: "cf_get (cf_delete k es) k' = (if k' = k then None else cf_get es k')"
  unfolding cf_get_def cf_delete_def by (subst map_of_filter_key) simp

lemma cf_get_delete_range [cf_simps]:
  "cf_get (cf_delete_range s e es) k = (if s \<le> k \<and> k < e then None else cf_get es k)"
  unfolding cf_get_def cf_delete_range_def by (subst map_of_filter_key) simp

lemma cf_sorted_distinct: "cf_sorted es \<Longrightarrow> distinct (map fst es)"
  unfolding cf_sorted_def by (simp add: strict_sorted_iff)

lemma cf_get_iff: "cf_sorted es \<Longrightarrow> cf_get es k = Some v \<longleftrightarrow> (k, v) \<in> set es"
  by (simp add: cf_get_def cf_sorted_distinct)

lemma cf_get_None_iff: "cf_get es k = None \<longleftrightarrow> k \<notin> fst ` set es"
  by (simp add: cf_get_def map_of_eq_None_iff)

lemma set_cf_put: "cf_sorted es \<Longrightarrow> set (cf_put k v es) = insert (k, v) {e \<in> set es. fst e \<noteq> k}"
proof -
  assume s: "cf_sorted es"
  have "(a, b) \<in> set (cf_put k v es) \<longleftrightarrow> (a, b) \<in> insert (k, v) {e \<in> set es. fst e \<noteq> k}" for a b
    using s cf_get_iff [OF cf_sorted_put [OF s], of k v a b] cf_get_iff [OF s, of a b]
    by (auto simp: cf_get_put split: if_splits)
  then show ?thesis by auto
qed

lemma set_cf_delete: "set (cf_delete k es) = {e \<in> set es. fst e \<noteq> k}"
  by (auto simp: cf_delete_def)

text \<open>Two sorted column families with the same content are equal.\<close>

lemma cf_eqI:
  assumes "cf_sorted a" "cf_sorted b" "\<And>k. cf_get a k = cf_get b k"
  shows "a = b"
proof (rule sorted_wrt_set_unique [where R = "\<lambda>x y. fst x < fst y"])
  show "set a = set b" using assms cf_get_iff by (metis subrelI subset_antisym)
qed (use assms in \<open>auto simp: cf_sorted_def sorted_wrt_map\<close>)

subsection \<open>Lemmas on iterators\<close>

lemma it_all_simps [simp]:
  "it_all (it_at_head b r) = rev b @ r"
  "it_all (NewIterator es opts) = filter (\<lambda>e. in_bounds opts (fst e)) es"
  by (simp_all add: it_all_def it_at_head_def NewIterator_def split: list.splits)

lemma it_all_moves [simp]:
  "it_all (SeekToFirst it) = it_all it" "it_all (SeekToLast it) = it_all it"
  "it_all (Seek t it) = it_all it" "it_all (SeekForPrev t it) = it_all it"
  "it_all (it_Next it) = it_all it" "it_all (it_Prev it) = it_all it"
proof -
  show "it_all (SeekToFirst it) = it_all it" "it_all (Seek t it) = it_all it"
    by (simp_all add: SeekToFirst_def Seek_def)
  show "it_all (SeekToLast it) = it_all it"
    by (cases "rev (it_all it)") (simp_all add: SeekToLast_def, simp_all add: it_all_def rev_swap)
  have "rev (takeWhile P xs) = y # ys \<Longrightarrow> rev ys @ y # dropWhile P xs = xs" for P y ys and xs :: cf
    by (metis append.assoc append_Cons append_Nil rev.simps(2) rev_rev_ident takeWhile_dropWhile_id)
  moreover have "takeWhile P xs = [] \<Longrightarrow> dropWhile P xs = xs" for P and xs :: cf
    by (metis append_Nil takeWhile_dropWhile_id)
  ultimately show "it_all (SeekForPrev t it) = it_all it"
    unfolding SeekForPrev_def Let_def by (simp add: it_all_def [of "\<lparr>it_before = _, it_at = _, it_after = _\<rparr>"] split: list.splits)
  show "it_all (it_Next it) = it_all it"
    unfolding it_Next_def it_all_simps by (simp add: it_all_def split: option.splits)
  show "it_all (it_Prev it) = it_all it"
    by (simp add: it_Prev_def it_all_def Let_def split: list.splits option.splits)
qed

lemma in_bounds_zero [simp]: "in_bounds IterOptions_zero k"
  by (simp add: in_bounds_def IterOptions_zero_def)

lemma it_rest_head [simp]: "it_rest (it_at_head b r) = r"
  by (simp add: it_rest_def it_at_head_def split: list.splits)

lemma it_rest_Seek: "it_rest (Seek t it) = dropWhile (\<lambda>e. fst e < t) (it_all it)"
  by (simp add: Seek_def)

lemma it_rest_Next: "it_rest (it_Next it) = it_after it"
  by (simp add: it_Next_def)

lemma it_Valid_rest: "it_Valid it \<longleftrightarrow> it_rest it \<noteq> []"
  by (simp add: it_Valid_def it_rest_def split: option.splits)

lemma it_Next_rest: "it_Valid it \<Longrightarrow> it_rest (it_Next it) = tl (it_rest it)"
  by (auto simp: it_Valid_def it_rest_Next) (simp add: it_rest_def)

lemma it_hd_rest: "it_Valid it \<Longrightarrow> it_Key it = fst (hd (it_rest it)) \<and> it_Value it = snd (hd (it_rest it))"
  by (auto simp: it_Valid_def it_rest_def it_Key_def it_Value_def)

end
