(* ===== verification/Mvcc.thy ===== *)
theory Mvcc
  imports Engine
begin

unbundle bit_operations_syntax

section \<open>Package mvcc: versioned keys, the write accumulator and the readers\<close>

text \<open>
  Models \<^verbatim>\<open>internal/storage/mvcc/key.go\<close>, \<^verbatim>\<open>txn.go\<close>, \<^verbatim>\<open>reader.go\<close> and \<^verbatim>\<open>point_getter.go\<close>. A snapshot is a
  \<open>store\<close>. The loop of \<^verbatim>\<open>GetWrite\<close> may seek back when a record names a last change that is
  not older than itself, so it is a partial function; the lemmas show that it returns.

  The lemmas describe the readers through \<open>versions\<close>, the decoded write records of one
  user key, newest first: \<open>SeekWrite\<close>, \<open>GetWrite\<close> and \<open>GetTxnCommitRecord\<close> are each equal to a
  search of that list.
\<close>

subsection \<open>key.go\<close>

definition EncodeKey :: "bytes \<Rightarrow> TimeStamp \<Rightarrow> bytes" where
  "EncodeKey key ts = EncodeUint64Desc (EncodeBytes [] key) ts"

definition DecodeKey :: "bytes \<Rightarrow> (bytes \<times> TimeStamp) res" where
  "DecodeKey encodedKey =
     res_bind (DecodeBytes encodedKey) (\<lambda>(key, rest).
       if length rest < 8 then Inr (key, 0)
       else res_bind (DecodeUint64Desc rest) (\<lambda>(tsVal, _). Inr (key, tsVal)))"

definition EncodeLockKey :: "bytes \<Rightarrow> bytes" where
  "EncodeLockKey key = EncodeBytes [] key"

definition DecodeLockKey :: "bytes \<Rightarrow> bytes res" where
  "DecodeLockKey encodedKey = res_bind (DecodeBytes encodedKey) (\<lambda>(key, _). Inr key)"

definition TruncateToUserKey :: "bytes \<Rightarrow> bytes" where
  "TruncateToUserKey encodedKey =
     (if length encodedKey \<le> 8 then encodedKey else take (length encodedKey - 8) encodedKey)"

definition SeekBound :: nat where
  "SeekBound = 32"

subsection \<open>txn.go\<close>

datatype ModifyType = ModifyTypePut | ModifyTypeDelete | ModifyTypeDeleteRange

record Modify =
  mod_Type :: ModifyType
  mod_CF :: string
  mod_Key :: bytes
  mod_Value :: bytes
  mod_EndKey :: bytes

record ReleasedLock =
  rl_Key :: bytes
  rl_StartTS :: TimeStamp
  rl_IsPessimistic :: bool

record MvccTxn =
  txn_StartTS :: TimeStamp
  txn_Modifies :: "Modify list"
  txn_WriteSize :: int

definition NewMvccTxn :: "TimeStamp \<Rightarrow> MvccTxn" where
  "NewMvccTxn startTS = \<lparr>txn_StartTS = startTS, txn_Modifies = [], txn_WriteSize = 0\<rparr>"

definition mkPut :: "string \<Rightarrow> bytes \<Rightarrow> bytes \<Rightarrow> Modify" where
  "mkPut c key v =
     \<lparr>mod_Type = ModifyTypePut, mod_CF = c, mod_Key = key, mod_Value = v, mod_EndKey = []\<rparr>"

definition mkDelete :: "string \<Rightarrow> bytes \<Rightarrow> Modify" where
  "mkDelete c key =
     \<lparr>mod_Type = ModifyTypeDelete, mod_CF = c, mod_Key = key, mod_Value = [], mod_EndKey = []\<rparr>"

definition PutLock :: "bytes \<Rightarrow> Lock \<Rightarrow> MvccTxn \<Rightarrow> MvccTxn" where
  "PutLock key lock txn =
     (let lockData = MarshalLock lock in
      txn\<lparr>txn_Modifies := txn_Modifies txn @ [mkPut CFLock (EncodeLockKey key) lockData],
          txn_WriteSize := txn_WriteSize txn + int (length key) + int (length lockData)\<rparr>)"

definition UnlockKey :: "bytes \<Rightarrow> bool \<Rightarrow> MvccTxn \<Rightarrow> ReleasedLock \<times> MvccTxn" where
  "UnlockKey key isPessimistic txn =
     (\<lparr>rl_Key = key, rl_StartTS = txn_StartTS txn, rl_IsPessimistic = isPessimistic\<rparr>,
      txn\<lparr>txn_Modifies := txn_Modifies txn @ [mkDelete CFLock (EncodeLockKey key)]\<rparr>)"

definition PutValue :: "bytes \<Rightarrow> TimeStamp \<Rightarrow> bytes \<Rightarrow> MvccTxn \<Rightarrow> MvccTxn" where
  "PutValue key startTS v txn =
     txn\<lparr>txn_Modifies := txn_Modifies txn @ [mkPut CFDefault (EncodeKey key startTS) v],
         txn_WriteSize := txn_WriteSize txn + int (length key) + int (length v) + 8\<rparr>"

definition DeleteValue :: "bytes \<Rightarrow> TimeStamp \<Rightarrow> MvccTxn \<Rightarrow> MvccTxn" where
  "DeleteValue key startTS txn =
     txn\<lparr>txn_Modifies := txn_Modifies txn @ [mkDelete CFDefault (EncodeKey key startTS)]\<rparr>"

definition PutWrite :: "bytes \<Rightarrow> TimeStamp \<Rightarrow> Write \<Rightarrow> MvccTxn \<Rightarrow> MvccTxn" where
  "PutWrite key commitTS w txn =
     (let writeData = MarshalWrite w in
      txn\<lparr>txn_Modifies := txn_Modifies txn @ [mkPut CFWrite (EncodeKey key commitTS) writeData],
          txn_WriteSize := txn_WriteSize txn + int (length key) + int (length writeData) + 8\<rparr>)"

definition DeleteWrite :: "bytes \<Rightarrow> TimeStamp \<Rightarrow> MvccTxn \<Rightarrow> MvccTxn" where
  "DeleteWrite key commitTS txn =
     txn\<lparr>txn_Modifies := txn_Modifies txn @ [mkDelete CFWrite (EncodeKey key commitTS)]\<rparr>"

definition ModifyCount :: "MvccTxn \<Rightarrow> nat" where
  "ModifyCount txn = length (txn_Modifies txn)"

subsection \<open>reader.go\<close>

definition LoadLock :: "store \<Rightarrow> bytes \<Rightarrow> Lock option res" where
  "LoadLock snap key =
     (case eng_get snap CFLock (EncodeLockKey key) of
        Inl e \<Rightarrow> if e = ErrNotFound then Inr None else Inl e
      | Inr data \<Rightarrow> res_bind (UnmarshalLock data) (\<lambda>lock. Inr (Some lock)))"

definition SeekWrite :: "store \<Rightarrow> bytes \<Rightarrow> TimeStamp \<Rightarrow> (Write option \<times> TimeStamp) res" where
  "SeekWrite snap key ts =
     (let seekKey = EncodeKey key ts;
          encodedUserKey = EncodeLockKey key;
          iter = Seek seekKey (NewIterator (snap CFWrite) IterOptions_zero) in
      if \<not> it_Valid iter then Inr (None, 0)
      else
        let foundKey = it_Key iter; foundUserKey = TruncateToUserKey foundKey in
        if foundUserKey \<noteq> encodedUserKey then Inr (None, 0)
        else res_bind (DecodeKey foundKey) (\<lambda>(_, commitTS).
          res_bind (UnmarshalWrite (it_Value iter)) (\<lambda>w. Inr (Some w, commitTS))))"

text \<open>The loop of \<^verbatim>\<open>GetWrite\<close>; the outer \<^const>\<open>None\<close> is a loop that does not end.\<close>

partial_function (option) GetWrite_loop ::
  "bytes \<Rightarrow> iterator \<Rightarrow> (Write option \<times> TimeStamp) res option"
where
  "GetWrite_loop key iter =
     (if \<not> it_Valid iter then Some (Inr (None, 0))
      else
        let foundKey = it_Key iter in
        if TruncateToUserKey foundKey \<noteq> EncodeLockKey key then Some (Inr (None, 0))
        else (case DecodeKey foundKey of
            Inl e \<Rightarrow> Some (Inl e)
          | Inr (_, commitTS) \<Rightarrow> (case UnmarshalWrite (it_Value iter) of
                Inl e \<Rightarrow> Some (Inl e)
              | Inr w \<Rightarrow>
                  if write_WriteType w = WriteTypePut then Some (Inr (Some w, commitTS))
                  else if write_WriteType w = WriteTypeDelete then Some (Inr (None, 0))
                  else if write_WriteType w = WriteTypeLock \<or> write_WriteType w = WriteTypeRollback then
                    (if SeekBound \<le> unat (lc_EstimatedVersions (write_LastChange w))
                         \<and> \<not> IsZero (lc_TS (write_LastChange w))
                     then GetWrite_loop key (Seek (EncodeKey key (lc_TS (write_LastChange w))) iter)
                     else GetWrite_loop key (it_Next iter))
                  else Some (Inr (None, 0)))))"

definition GetWrite :: "store \<Rightarrow> bytes \<Rightarrow> TimeStamp \<Rightarrow> (Write option \<times> TimeStamp) res option" where
  "GetWrite snap key ts =
     GetWrite_loop key (Seek (EncodeKey key ts) (NewIterator (snap CFWrite) IterOptions_zero))"

function GetTxnCommitRecord_loop ::
  "bytes \<Rightarrow> TimeStamp \<Rightarrow> iterator \<Rightarrow> (Write option \<times> TimeStamp) res"
where
  "GetTxnCommitRecord_loop key startTS iter =
     (if \<not> it_Valid iter then Inr (None, 0)
      else
        let foundKey = it_Key iter in
        if TruncateToUserKey foundKey \<noteq> EncodeLockKey key then Inr (None, 0)
        else res_bind (DecodeKey foundKey) (\<lambda>(_, commitTS).
          res_bind (UnmarshalWrite (it_Value iter)) (\<lambda>w.
            if write_StartTS w = startTS then Inr (Some w, commitTS)
            else if commitTS < startTS then Inr (None, 0)
            else GetTxnCommitRecord_loop key startTS (it_Next iter))))"
  by pat_completeness auto
termination
  by (relation "measure (\<lambda>(key, startTS, iter). length (it_rest iter))")
    (auto simp: it_Next_rest it_Valid_rest)

declare GetTxnCommitRecord_loop.simps [simp del]

definition GetTxnCommitRecord ::
  "store \<Rightarrow> bytes \<Rightarrow> TimeStamp \<Rightarrow> (Write option \<times> TimeStamp) res"
where
  "GetTxnCommitRecord snap key startTS =
     GetTxnCommitRecord_loop key startTS
       (Seek (EncodeKey key TSMax) (NewIterator (snap CFWrite) IterOptions_zero))"

definition GetValue :: "store \<Rightarrow> bytes \<Rightarrow> TimeStamp \<Rightarrow> bytes option res" where
  "GetValue snap key startTS =
     (case eng_get snap CFDefault (EncodeKey key startTS) of
        Inl e \<Rightarrow> if e = ErrNotFound then Inr None else Inl e
      | Inr data \<Rightarrow> Inr (Some data))"

subsection \<open>point\_getter.go\<close>

datatype IsolationLevel = IsolationLevelSI | IsolationLevelRC

datatype mvcc_error = MvccErr go_error | LockError bytes Lock

record PointGetter =
  pg_snapshot :: store
  pg_ts :: TimeStamp
  pg_isolationLevel :: IsolationLevel
  pg_bypassLocks :: "TimeStamp \<Rightarrow> bool"

definition NewPointGetter :: "store \<Rightarrow> TimeStamp \<Rightarrow> IsolationLevel \<Rightarrow> PointGetter" where
  "NewPointGetter reader ts level =
     \<lparr>pg_snapshot = reader, pg_ts = ts, pg_isolationLevel = level, pg_bypassLocks = (\<lambda>_. False)\<rparr>"

definition SetBypassLocks :: "(TimeStamp \<Rightarrow> bool) \<Rightarrow> PointGetter \<Rightarrow> PointGetter" where
  "SetBypassLocks locks pg = pg\<lparr>pg_bypassLocks := locks\<rparr>"

text \<open>Step 1 of \<^verbatim>\<open>Get\<close>: the lock that blocks a snapshot read.\<close>

definition PointGetter_checkLock :: "PointGetter \<Rightarrow> bytes \<Rightarrow> mvcc_error + unit" where
  "PointGetter_checkLock pg key =
     (if pg_isolationLevel pg = IsolationLevelSI then
        (case LoadLock (pg_snapshot pg) key of
           Inl e \<Rightarrow> Inl (MvccErr e)
         | Inr None \<Rightarrow> Inr ()
         | Inr (Some lock) \<Rightarrow>
             if lock_StartTS lock \<le> pg_ts pg \<and> lock_LockType lock \<noteq> LockTypePessimistic
                \<and> \<not> pg_bypassLocks pg (lock_StartTS lock)
             then Inl (LockError key lock) else Inr ())
      else Inr ())"

text \<open>\<^verbatim>\<open>Get\<close>; the outer \<^const>\<open>None\<close> is a read that does not return, \<open>Inr None\<close> the nil value.\<close>

definition PointGetter_Get :: "PointGetter \<Rightarrow> bytes \<Rightarrow> (mvcc_error + bytes option) option" where
  "PointGetter_Get pg key =
     (case PointGetter_checkLock pg key of
        Inl e \<Rightarrow> Some (Inl e)
      | Inr _ \<Rightarrow>
          (case GetWrite (pg_snapshot pg) key (pg_ts pg) of
             None \<Rightarrow> None
           | Some (Inl e) \<Rightarrow> Some (Inl (MvccErr e))
           | Some (Inr (None, _)) \<Rightarrow> Some (Inr None)
           | Some (Inr (Some w, _)) \<Rightarrow>
               (case write_ShortValue w of
                  Some v \<Rightarrow> Some (Inr (Some v))
                | None \<Rightarrow>
                    (case GetValue (pg_snapshot pg) key (write_StartTS w) of
                       Inl e \<Rightarrow> Some (Inl (MvccErr e))
                     | Inr value \<Rightarrow> Some (Inr value)))))"

subsection \<open>Versioned keys\<close>

interpretation key_codec: codec_pair "EncodeBytes []" DecodeBytes "(<)" "EncodeUint64Desc []" DecodeUint64Desc "(>)"
  by unfold_locales

lemma EncodeKey_pair: "EncodeKey k ts = enc_pair (EncodeBytes []) (EncodeUint64Desc []) (k, ts)"
  by (simp add: EncodeKey_def enc_pair_def EncodeUint64Desc_def)

lemma EncodeKey_less: "EncodeKey k ts < EncodeKey k' ts' \<longleftrightarrow> k < k' \<or> (k = k' \<and> ts' < ts)"
  by (simp add: EncodeKey_pair key_codec.pair.enc_less lt_pair_def)

lemma EncodeKey_inject [simp]: "EncodeKey k ts = EncodeKey k' ts' \<longleftrightarrow> k = k' \<and> ts = ts'"
  by (simp add: EncodeKey_pair key_codec.pair.enc_inject)

lemma EncodeKey_le: "EncodeKey k ts \<le> EncodeKey k' ts' \<longleftrightarrow> k < k' \<or> (k = k' \<and> ts' \<le> ts)"
  by (auto simp: le_less EncodeKey_less)

lemma DecodeKey_EncodeKey [simp]: "DecodeKey (EncodeKey k ts) = Inr (k, ts)"
  using u64_desc_codec.dec_enc [of ts "[]"]
  by (simp add: EncodeKey_def DecodeKey_def EncodeUint64Desc_def bytes_codec.dec_enc)

lemma EncodeLockKey_inject [simp]: "EncodeLockKey k = EncodeLockKey k' \<longleftrightarrow> k = k'"
  by (simp add: EncodeLockKey_def bytes_codec.enc_inject)

lemma EncodeLockKey_less [simp]: "EncodeLockKey k < EncodeLockKey k' \<longleftrightarrow> k < k'"
  by (simp add: EncodeLockKey_def bytes_codec.enc_less)

lemma DecodeLockKey_EncodeLockKey [simp]: "DecodeLockKey (EncodeLockKey k) = Inr k"
  using bytes_codec.dec_enc [of k "[]"] by (simp add: DecodeLockKey_def EncodeLockKey_def)

lemma EncodeBytes_Nil_nonempty: "EncodeBytes [] k \<noteq> []"
  using length_EncodeBytes [of "[]" k] by (auto simp: EncodedBytesLength_def encGroupSize_def)

lemma TruncateToUserKey_EncodeKey [simp]: "TruncateToUserKey (EncodeKey k ts) = EncodeLockKey k"
  using EncodeBytes_Nil_nonempty [of k]
  by (simp add: TruncateToUserKey_def EncodeKey_def EncodeLockKey_def EncodeUint64Desc_def)

subsection \<open>The versions of a user key\<close>

definition write_entry_ok :: "entry \<Rightarrow> bool" where
  "write_entry_ok e \<longleftrightarrow>
     (case dec_pair DecodeBytes DecodeUint64Desc (fst e) of Inl _ \<Rightarrow> False | Inr (_, rest) \<Rightarrow> rest = []) \<and>
     (case UnmarshalWrite (snd e) of Inl _ \<Rightarrow> False | Inr _ \<Rightarrow> True)"

definition write_cf_ok :: "cf \<Rightarrow> bool" where
  "write_cf_ok es \<longleftrightarrow> cf_sorted es \<and> list_all write_entry_ok es"

type_synonym version = "TimeStamp \<times> Write"

definition dec_version :: "entry \<Rightarrow> version" where
  "dec_version e = (snd (projr (DecodeKey (fst e))), projr (UnmarshalWrite (snd e)))"

definition versions :: "cf \<Rightarrow> bytes \<Rightarrow> version list" where
  "versions es key = map dec_version (filter (\<lambda>e. TruncateToUserKey (fst e) = EncodeLockKey key) es)"

abbreviation newer :: "version \<Rightarrow> version \<Rightarrow> bool" where
  "newer v v' \<equiv> fst v' < fst v"

lemma write_entry_okE:
  assumes "write_entry_ok e"
  obtains k ts w where "fst e = EncodeKey k ts" "UnmarshalWrite (snd e) = Inr w" "dec_version e = (ts, w)"
proof -
  from assms obtain p where "dec_pair DecodeBytes DecodeUint64Desc (fst e) = Inr (p, [])"
    by (auto simp: write_entry_ok_def split: sum.splits)
  then have "fst e = EncodeKey (fst p) (snd p)"
    using key_codec.pair.dec_canonical by (fastforce simp: EncodeKey_pair)
  moreover from assms obtain w where "UnmarshalWrite (snd e) = Inr w"
    by (auto simp: write_entry_ok_def split: sum.splits)
  ultimately show thesis using that by (simp add: dec_version_def)
qed

lemma write_entry_ok_EncodeKey:
  "write_entry_ok (EncodeKey k ts, d) \<longleftrightarrow> (\<exists>w. UnmarshalWrite d = Inr w)"
  using key_codec.pair.dec_enc [of "(k, ts)" "[]"]
  by (auto simp: write_entry_ok_def EncodeKey_pair split: sum.splits)

lemma sorted_wrt_cf: "cf_sorted es \<longleftrightarrow> sorted_wrt (\<lambda>x y. fst x < fst y) es"
  by (simp add: cf_sorted_def sorted_wrt_map)

lemma same_key_version:
  assumes "write_entry_ok e" "TruncateToUserKey (fst e) = EncodeLockKey key"
  shows "fst e = EncodeKey key (fst (dec_version e))"
  using assms by (elim write_entry_okE) auto

lemma versions_newest_first: "write_cf_ok es \<Longrightarrow> sorted_wrt newer (versions es key)"
proof (induction es)
  case (Cons e es)
  have IH: "sorted_wrt newer (versions es key)"
    using Cons by (simp add: write_cf_ok_def sorted_wrt_cf)
  show ?case
  proof (cases "TruncateToUserKey (fst e) = EncodeLockKey key")
    case True
    have "fst (dec_version e') < fst (dec_version e)"
      if "e' \<in> set es" "TruncateToUserKey (fst e') = EncodeLockKey key" for e'
    proof -
      have "write_entry_ok e" "write_entry_ok e'" "fst e < fst e'"
        using Cons.prems that by (auto simp: write_cf_ok_def sorted_wrt_cf list_all_iff)
      then show ?thesis
        using same_key_version [of e key] same_key_version [of e' key] True that
        by (simp add: EncodeKey_less)
    qed
    with True IH show ?thesis by (auto simp: versions_def)
  next
    case False
    with IH show ?thesis by (simp add: versions_def)
  qed
qed (simp add: versions_def)

text \<open>The entries a forward loop over one user key visits after a seek are the versions
  not newer than the seek timestamp.\<close>

definition same_key :: "bytes \<Rightarrow> entry \<Rightarrow> bool" where
  "same_key key e \<longleftrightarrow> TruncateToUserKey (fst e) = EncodeLockKey key"

lemma seek_versions:
  assumes "write_cf_ok es"
  shows "map dec_version (takeWhile (same_key key) (dropWhile (\<lambda>e. fst e < EncodeKey key ts) es)) =
    filter (\<lambda>v. fst v \<le> ts) (versions es key)"
proof -
  let ?s = "EncodeKey key ts"
  have s: "sorted_wrt (\<lambda>x y. fst x < fst y) es" and ok: "\<And>e. e \<in> set es \<Longrightarrow> write_entry_ok e"
    using assms by (auto simp: write_cf_ok_def sorted_wrt_cf list_all_iff)
  have drop: "dropWhile (\<lambda>e. fst e < ?s) es = filter (\<lambda>e. ?s \<le> fst e) es"
    using dropWhile_eq_filter [OF s, of "\<lambda>e. fst e < ?s"] by (auto simp: not_less)
  define R where "R x y \<longleftrightarrow> fst x < fst y \<and> x \<in> set es \<and> y \<in> set es \<and> ?s \<le> fst x" for x y :: entry
  have sR: "sorted_wrt R (filter (\<lambda>e. ?s \<le> fst e) es)"
  proof -
    have "sorted_wrt (\<lambda>x y. fst x < fst y) (filter (\<lambda>e. ?s \<le> fst e) es)"
      using s by (rule sorted_wrt_filter)
    then show ?thesis by (rule sorted_wrt_mono_rel [rotated]) (auto simp: R_def)
  qed
  have "same_key key x" if "R x y" "same_key key y" for x y
  proof -
    from that obtain k t where x: "fst x = EncodeKey k t" "?s \<le> fst x" "fst x < fst y"
      using ok unfolding R_def by (metis write_entry_okE)
    have "fst y = EncodeKey key (fst (dec_version y))"
      using that ok same_key_version unfolding R_def same_key_def by blast
    with x have "k = key" by (auto simp: EncodeKey_le EncodeKey_less)
    with x show ?thesis by (simp add: same_key_def)
  qed
  then have "takeWhile (same_key key) (filter (\<lambda>e. ?s \<le> fst e) es) =
      filter (same_key key) (filter (\<lambda>e. ?s \<le> fst e) es)"
    by (rule takeWhile_eq_filter [OF sR])
  also have "\<dots> = filter (\<lambda>e. fst (dec_version e) \<le> ts) (filter (same_key key) es)"
    unfolding filter_filter
  proof (rule filter_cong [OF refl])
    fix e assume "e \<in> set es"
    then show "(?s \<le> fst e \<and> same_key key e) \<longleftrightarrow> (same_key key e \<and> fst (dec_version e) \<le> ts)"
      using same_key_version [of e key] ok [of e] by (auto simp: same_key_def EncodeKey_le)
  qed
  finally show ?thesis
    unfolding drop versions_def same_key_def by (simp add: filter_map comp_def)
qed

lemma in_versions:
  assumes "write_cf_ok es"
  shows "(c, w) \<in> set (versions es key) \<longleftrightarrow>
    (\<exists>d. cf_get es (EncodeKey key c) = Some d \<and> UnmarshalWrite d = Inr w)"
proof
  assume "(c, w) \<in> set (versions es key)"
  then obtain e where e: "e \<in> set es" "same_key key e" "dec_version e = (c, w)"
    by (auto simp: versions_def same_key_def)
  with assms have "write_entry_ok e" by (simp add: write_cf_ok_def list_all_iff)
  with e have "fst e = EncodeKey key c" "UnmarshalWrite (snd e) = Inr w"
    using same_key_version [of e key] by (auto simp: same_key_def dec_version_def elim: write_entry_okE)
  with e assms show "\<exists>d. cf_get es (EncodeKey key c) = Some d \<and> UnmarshalWrite d = Inr w"
    by (metis cf_get_iff prod.collapse write_cf_ok_def)
next
  assume "\<exists>d. cf_get es (EncodeKey key c) = Some d \<and> UnmarshalWrite d = Inr w"
  then obtain d where "(EncodeKey key c, d) \<in> set es" "UnmarshalWrite d = Inr w"
    using assms by (auto simp: cf_get_iff write_cf_ok_def)
  then show "(c, w) \<in> set (versions es key)"
    by (force simp: versions_def dec_version_def)
qed

subsection \<open>What the readers compute\<close>

text \<open>The versions at an iterator position.\<close>

definition at_versions :: "bytes \<Rightarrow> iterator \<Rightarrow> version list" where
  "at_versions key it = map dec_version (takeWhile (same_key key) (it_rest it))"

lemma at_versions_Seek:
  "write_cf_ok (it_all it) \<Longrightarrow>
     at_versions key (Seek (EncodeKey key ts) it) = filter (\<lambda>v. fst v \<le> ts) (versions (it_all it) key)"
  by (simp add: at_versions_def it_rest_Seek seek_versions)

lemma it_all_NewIterator_zero [simp]: "it_all (NewIterator es IterOptions_zero) = es"
  by simp

lemma it_rest_in_all: "set (it_rest it) \<subseteq> set (it_all it)"
  by (auto simp: it_rest_def it_all_def split: option.splits)

lemma at_versions_cases:
  assumes "write_cf_ok (it_all it)"
  obtains (none) "at_versions key it = []" "\<not> it_Valid it \<or> TruncateToUserKey (it_Key it) \<noteq> EncodeLockKey key"
  | (some) c w where "it_Valid it" "it_Key it = EncodeKey key c" "UnmarshalWrite (it_Value it) = Inr w"
      "at_versions key it = (c, w) # at_versions key (it_Next it)"
proof (cases "it_Valid it \<and> TruncateToUserKey (it_Key it) = EncodeLockKey key")
  case True
  then obtain e r where r: "it_rest it = e # r" by (auto simp: it_Valid_rest neq_Nil_conv)
  have e: "it_Key it = fst e" "it_Value it = snd e" using True it_hd_rest [of it] r by auto
  have "e \<in> set (it_all it)" using it_rest_in_all [of it] r by auto
  with assms have ok: "write_entry_ok e" by (simp add: write_cf_ok_def list_all_iff)
  have same: "same_key key e" using True e by (simp add: same_key_def)
  obtain ts w where "fst e = EncodeKey key ts" "UnmarshalWrite (snd e) = Inr w" "dec_version e = (ts, w)"
    using ok same by (elim write_entry_okE) (auto simp: same_key_def)
  moreover have "it_rest (it_Next it) = r" using True r by (simp add: it_Next_rest)
  ultimately show thesis using True e r same by (intro some) (auto simp: at_versions_def)
next
  case False
  then have "at_versions key it = []"
    using it_hd_rest [of it]
    by (cases "it_rest it") (auto simp: at_versions_def same_key_def it_Valid_rest)
  with False show thesis by (intro none) auto
qed

definition newest :: "version list \<Rightarrow> Write option \<times> TimeStamp" where
  "newest vs = (case vs of [] \<Rightarrow> (None, 0) | (c, w) # _ \<Rightarrow> (Some w, c))"

lemma SeekWrite_newest:
  assumes "write_cf_ok (snap CFWrite)"
  shows "SeekWrite snap key ts = Inr (newest (filter (\<lambda>v. fst v \<le> ts) (versions (snap CFWrite) key)))"
proof -
  let ?it = "Seek (EncodeKey key ts) (NewIterator (snap CFWrite) IterOptions_zero)"
  have ok: "write_cf_ok (it_all ?it)" using assms by simp
  have v: "at_versions key ?it = filter (\<lambda>v. fst v \<le> ts) (versions (snap CFWrite) key)"
    using at_versions_Seek [of "NewIterator (snap CFWrite) IterOptions_zero" key ts] assms by simp
  show ?thesis
    by (rule at_versions_cases [OF ok, of key])
      (auto simp: SeekWrite_def Let_def newest_def v [symmetric])
qed

fun commit_record :: "TimeStamp \<Rightarrow> version list \<Rightarrow> Write option \<times> TimeStamp" where
  "commit_record startTS [] = (None, 0)"
| "commit_record startTS ((c, w) # vs) =
     (if write_StartTS w = startTS then (Some w, c)
      else if c < startTS then (None, 0)
      else commit_record startTS vs)"

lemma GetTxnCommitRecord_loop_versions:
  "write_cf_ok (it_all it) \<Longrightarrow>
     GetTxnCommitRecord_loop key startTS it = Inr (commit_record startTS (at_versions key it))"
proof (induction "at_versions key it" arbitrary: it)
  case Nil
  from at_versions_cases [OF Nil.prems, of key] show ?case
    by cases (use Nil.hyps in \<open>auto simp: GetTxnCommitRecord_loop.simps [of key startTS it]\<close>)
next
  case (Cons v vs)
  from Cons.prems show ?case
  proof (cases rule: at_versions_cases [where key = key])
    case none
    with Cons.hyps(2) show ?thesis by simp
  next
    case (some c w)
    moreover have "GetTxnCommitRecord_loop key startTS (it_Next it) =
        Inr (commit_record startTS (at_versions key (it_Next it)))"
      using Cons some by simp
    ultimately show ?thesis by (simp add: GetTxnCommitRecord_loop.simps [of key startTS it])
  qed
qed

lemma GetTxnCommitRecord_versions:
  assumes "write_cf_ok (snap CFWrite)"
  shows "GetTxnCommitRecord snap key startTS = Inr (commit_record startTS (versions (snap CFWrite) key))"
proof -
  have "filter (\<lambda>v. fst v \<le> TSMax) (versions (snap CFWrite) key) = versions (snap CFWrite) key"
    by (simp add: TSMax_def)
  then show ?thesis
    unfolding GetTxnCommitRecord_def
    using GetTxnCommitRecord_loop_versions [of "Seek (EncodeKey key TSMax) (NewIterator (snap CFWrite) IterOptions_zero)"]
      at_versions_Seek [of "NewIterator (snap CFWrite) IterOptions_zero" key TSMax] assms
    by simp
qed

text \<open>The newest data-changing version: lock and rollback records are skipped.\<close>

definition no_data :: "Write \<Rightarrow> bool" where
  "no_data w \<longleftrightarrow> write_WriteType w = WriteTypeLock \<or> write_WriteType w = WriteTypeRollback"

fun data_version :: "version list \<Rightarrow> Write option \<times> TimeStamp" where
  "data_version [] = (None, 0)"
| "data_version ((c, w) # vs) =
     (if no_data w then data_version vs
      else if write_WriteType w = WriteTypePut then (Some w, c) else (None, 0))"

text \<open>A last-change jump is sound when it goes strictly back and skips no data version.\<close>

definition jumps :: "Write \<Rightarrow> bool" where
  "jumps w \<longleftrightarrow> no_data w \<and> SeekBound \<le> unat (lc_EstimatedVersions (write_LastChange w))
     \<and> \<not> IsZero (lc_TS (write_LastChange w))"

definition last_change_ok :: "version list \<Rightarrow> bool" where
  "last_change_ok vs \<longleftrightarrow>
     list_all (\<lambda>(c, w). jumps w \<longrightarrow> lc_TS (write_LastChange w) < c \<and>
       list_all (\<lambda>(c', w'). lc_TS (write_LastChange w) < c' \<and> c' < c \<longrightarrow> no_data w') vs) vs"

lemma data_version_skip:
  "(\<And>c w. (c, w) \<in> set vs \<Longrightarrow> \<not> P (c, w) \<Longrightarrow> no_data w) \<Longrightarrow>
     data_version (filter P vs) = data_version vs"
proof (induction vs)
  case (Cons v vs)
  have "data_version (filter P vs) = data_version vs"
    using Cons.prems by (intro Cons.IH) auto
  with Cons.prems [of "fst v" "snd v"] show ?case by (cases v) auto
qed simp

lemma write_types_distinct [simp]:
  "\<not> no_data w" if "write_WriteType w = WriteTypePut \<or> write_WriteType w = WriteTypeDelete"
  using that by (auto simp: no_data_def write_types)

lemma GetWrite_loop_versions:
  assumes "write_cf_ok (it_all it)" "last_change_ok (versions (it_all it) key)"
    and "versions (it_all it) key = pre @ at_versions key it"
  shows "GetWrite_loop key it = Some (Inr (data_version (at_versions key it)))"
  using assms
proof (induction "length (at_versions key it)" arbitrary: it pre rule: less_induct)
  case less
  let ?vs = "versions (it_all it) key"
  from less.prems(1) show ?case
  proof (cases rule: at_versions_cases [where key = key])
    case none
    then show ?thesis by (auto simp: GetWrite_loop.simps [of key it])
  next
    case (some c w)
    note at = some(4)
    have next': "GetWrite_loop key (it_Next it) = Some (Inr (data_version (at_versions key (it_Next it))))"
      using less.prems at by (intro less.hyps [of _ "pre @ [(c, w)]"]) auto
    have jump: "GetWrite_loop key (Seek (EncodeKey key (lc_TS (write_LastChange w))) it) =
        Some (Inr (data_version (at_versions key it)))" if j: "jumps w"
    proof -
      let ?lc = "lc_TS (write_LastChange w)"
      let ?it = "Seek (EncodeKey key ?lc) it"
      have lc: "?lc < c" and skip: "\<And>c' w'. (c', w') \<in> set ?vs \<Longrightarrow> ?lc < c' \<Longrightarrow> c' < c \<Longrightarrow> no_data w'"
        using less.prems(2,3) at j by (auto simp: last_change_ok_def list_all_iff)
      have sorted: "sorted_wrt newer ?vs" by (rule versions_newest_first [OF less.prems(1)])
      then have pre: "\<And>v. v \<in> set pre \<Longrightarrow> c < fst v"
        using less.prems(3) at by (auto simp: sorted_wrt_append)
      have rest: "\<And>v. v \<in> set (at_versions key (it_Next it)) \<Longrightarrow> fst v < c"
        using sorted less.prems(3) at by (auto simp: sorted_wrt_append)
      have atv: "at_versions key ?it = filter (\<lambda>v. fst v \<le> ?lc) (at_versions key it)"
        using at_versions_Seek [OF less.prems(1), of key ?lc] less.prems(3) pre lc
        by (fastforce simp: filter_empty_conv)
      have shorter: "length (at_versions key ?it) < length (at_versions key it)"
        unfolding atv at using lc by (simp add: less_Suc_eq_le)
      have split: "?vs = filter (\<lambda>v. \<not> fst v \<le> ?lc) ?vs @ at_versions key ?it"
      proof -
        have "takeWhile (\<lambda>v. \<not> fst v \<le> ?lc) ?vs = filter (\<lambda>v. \<not> fst v \<le> ?lc) ?vs"
          "dropWhile (\<lambda>v. \<not> fst v \<le> ?lc) ?vs = filter (\<lambda>v. fst v \<le> ?lc) ?vs"
          using takeWhile_eq_filter [OF sorted, of "\<lambda>v. \<not> fst v \<le> ?lc"]
            dropWhile_eq_filter [OF sorted, of "\<lambda>v. \<not> fst v \<le> ?lc"] by auto
        then show ?thesis
          using takeWhile_dropWhile_id [of "\<lambda>v. \<not> fst v \<le> ?lc" ?vs]
            at_versions_Seek [OF less.prems(1), of key ?lc] by simp
      qed
      have "GetWrite_loop key ?it = Some (Inr (data_version (at_versions key ?it)))"
        using less.prems shorter split by (intro less.hyps) auto
      also have "data_version (at_versions key ?it) = data_version (at_versions key it)"
        unfolding atv
      proof (rule data_version_skip)
        fix c' w' assume m: "(c', w') \<in> set (at_versions key it)" "\<not> fst (c', w') \<le> ?lc"
        show "no_data w'"
        proof (cases "(c', w') = (c, w)")
          case True
          then show ?thesis using j by (simp add: jumps_def)
        next
          case False
          with m at have "(c', w') \<in> set (at_versions key (it_Next it))" by auto
          with rest have "c' < c" by fastforce
          moreover have "(c', w') \<in> set ?vs" using m less.prems(3) by simp
          ultimately show ?thesis using skip m by simp
        qed
      qed
      finally show ?thesis .
    qed
    show ?thesis
      using some next' jump
      by (subst GetWrite_loop.simps) (auto simp: Let_def no_data_def jumps_def write_types)
  qed
qed

lemma GetWrite_versions:
  assumes "write_cf_ok (snap CFWrite)" "last_change_ok (versions (snap CFWrite) key)"
  shows "GetWrite snap key ts =
    Some (Inr (data_version (filter (\<lambda>v. fst v \<le> ts) (versions (snap CFWrite) key))))"
proof -
  let ?vs = "versions (snap CFWrite) key"
  let ?it = "Seek (EncodeKey key ts) (NewIterator (snap CFWrite) IterOptions_zero)"
  have at: "at_versions key ?it = filter (\<lambda>v. fst v \<le> ts) ?vs"
    using at_versions_Seek [of "NewIterator (snap CFWrite) IterOptions_zero" key ts] assms by simp
  have sorted: "sorted_wrt newer ?vs" by (rule versions_newest_first [OF assms(1)])
  have "?vs = filter (\<lambda>v. \<not> fst v \<le> ts) ?vs @ filter (\<lambda>v. fst v \<le> ts) ?vs"
    using takeWhile_eq_filter [OF sorted, of "\<lambda>v. \<not> fst v \<le> ts"]
      dropWhile_eq_filter [OF sorted, of "\<lambda>v. \<not> fst v \<le> ts"]
      takeWhile_dropWhile_id [of "\<lambda>v. \<not> fst v \<le> ts" ?vs] by auto
  then show ?thesis
    unfolding GetWrite_def using GetWrite_loop_versions [of ?it key] assms at by simp
qed

lemma commit_record_find:
  assumes "\<And>c w. (c, w) \<in> set vs \<Longrightarrow> write_StartTS w \<le> c" "sorted_wrt newer vs"
  shows "commit_record s vs =
    (case find (\<lambda>v. write_StartTS (snd v) = s) vs of None \<Rightarrow> (None, 0) | Some (c, w) \<Rightarrow> (Some w, c))"
  using assms
proof (induction vs)
  case (Cons v vs)
  have none: "find (\<lambda>v. write_StartTS (snd v) = s) vs = None" if "fst v < s"
  proof -
    have "write_StartTS (snd v') < s" if "v' \<in> set vs" for v'
    proof -
      have "fst v' < fst v" using that Cons.prems(2) by simp
      moreover have "write_StartTS (snd v') \<le> fst v'"
        using Cons.prems(1) [of "fst v'" "snd v'"] that by simp
      ultimately show ?thesis using \<open>fst v < s\<close> by simp
    qed
    then have "\<forall>v' \<in> set vs. write_StartTS (snd v') \<noteq> s" by blast
    then show ?thesis by (auto simp: find_None_iff)
  qed
  with Cons show ?case by (cases v) auto
qed simp

subsection \<open>Properties of keys and readers\<close>

text \<open>A versioned key is ordered by user key first and by descending timestamp second,
  decodes to its parts, and truncates to the encoded user key: in \<^verbatim>\<open>CF\_WRITE\<close> the
  versions of a key are contiguous, newest first.\<close>

theorem EncodeKey_order:
  "(EncodeKey k ts < EncodeKey k' ts' \<longleftrightarrow> k < k' \<or> (k = k' \<and> ts' < ts)) \<and>
   DecodeKey (EncodeKey k ts) = Inr (k, ts) \<and>
   TruncateToUserKey (EncodeKey k ts) = EncodeLockKey k \<and>
   DecodeLockKey (EncodeLockKey k) = Inr k"
  by (simp add: EncodeKey_less)

end
