(* ===== verification/Mvcc_Store.thy ===== *)
theory Mvcc_Store
  imports Mvcc
begin

unbundle bit_operations_syntax

section \<open>The MVCC view of a store and the effect of modifications\<close>

text \<open>
  The abstraction the transaction layer is proved against. \<open>st_lock\<close>, \<open>st_versions\<close> and
  \<open>st_value\<close> decode a store into the lock, the write records and the large values of a user
  key; \<open>mvcc_ok\<close> is the well-formedness of the three column families. Every accumulated
  operation of \<^verbatim>\<open>MvccTxn\<close> has its effect on the view (\<open>mvcc_view\<close>), and \<^verbatim>\<open>ApplyModifies\<close> of
  \<^verbatim>\<open>internal/server/storage.go\<close> is the composition of those effects.
\<close>

subsection \<open>The MVCC view of a store\<close>

definition lock_entry_ok :: "entry \<Rightarrow> bool" where
  "lock_entry_ok e \<longleftrightarrow>
     (case DecodeBytes (fst e) of Inl _ \<Rightarrow> False | Inr (_, rest) \<Rightarrow> rest = []) \<and>
     (case UnmarshalLock (snd e) of Inl _ \<Rightarrow> False | Inr _ \<Rightarrow> True)"

definition value_entry_ok :: "entry \<Rightarrow> bool" where
  "value_entry_ok e \<longleftrightarrow>
     (case dec_pair DecodeBytes DecodeUint64Desc (fst e) of Inl _ \<Rightarrow> False | Inr (_, rest) \<Rightarrow> rest = [])"

definition mvcc_ok :: "store \<Rightarrow> bool" where
  "mvcc_ok st \<longleftrightarrow> write_cf_ok (st CFWrite) \<and>
     cf_sorted (st CFLock) \<and> list_all lock_entry_ok (st CFLock) \<and>
     cf_sorted (st CFDefault) \<and> list_all value_entry_ok (st CFDefault)"

definition st_lock :: "store \<Rightarrow> bytes \<Rightarrow> Lock option" where
  "st_lock st key =
     (case cf_get (st CFLock) (EncodeLockKey key) of
        None \<Rightarrow> None
      | Some d \<Rightarrow> (case UnmarshalLock d of Inl _ \<Rightarrow> None | Inr l \<Rightarrow> Some l))"

definition st_versions :: "store \<Rightarrow> bytes \<Rightarrow> version list" where
  "st_versions st key = versions (st CFWrite) key"

definition st_value :: "store \<Rightarrow> bytes \<Rightarrow> TimeStamp \<Rightarrow> bytes option" where
  "st_value st key ts = cf_get (st CFDefault) (EncodeKey key ts)"

lemma known_cfs [simp]: "known_cf CFDefault" "known_cf CFLock" "known_cf CFWrite" "known_cf CFRaft"
  by (simp_all add: known_cf_def AllCFs_def)

lemma cf_names_distinct [simp]:
  "CFLock \<noteq> CFWrite" "CFWrite \<noteq> CFLock" "CFLock \<noteq> CFDefault" "CFDefault \<noteq> CFLock"
  "CFWrite \<noteq> CFDefault" "CFDefault \<noteq> CFWrite" "CFRaft \<noteq> CFWrite" "CFRaft \<noteq> CFLock" "CFRaft \<noteq> CFDefault"
  "CFWrite \<noteq> CFRaft" "CFLock \<noteq> CFRaft" "CFDefault \<noteq> CFRaft"
  by (simp_all add: cf_names)

lemma LoadLock_st_lock: "mvcc_ok st \<Longrightarrow> LoadLock st key = Inr (st_lock st key)"
proof (cases "cf_get (st CFLock) (EncodeLockKey key)")
  case (Some d)
  assume ok: "mvcc_ok st"
  then have "(EncodeLockKey key, d) \<in> set (st CFLock)"
    using Some by (simp add: mvcc_ok_def cf_get_iff)
  then have "lock_entry_ok (EncodeLockKey key, d)" using ok by (auto simp: mvcc_ok_def list_all_iff)
  then show ?thesis using Some
    by (auto simp: LoadLock_def st_lock_def eng_get_def lock_entry_ok_def split: sum.splits)
qed (simp add: LoadLock_def st_lock_def eng_get_def)

lemma st_lock_sizes: "st_lock st key = Some l \<Longrightarrow> lock_sizes_ok l"
  by (auto simp: st_lock_def split: option.splits sum.splits dest: UnmarshalLock_sizes)

lemma GetValue_st_value: "GetValue st key ts = Inr (st_value st key ts)"
  by (simp add: GetValue_def st_value_def eng_get_def split: option.splits)

lemma SeekWrite_st:
  "mvcc_ok st \<Longrightarrow> SeekWrite st key ts = Inr (newest (filter (\<lambda>v. fst v \<le> ts) (st_versions st key)))"
  by (simp add: SeekWrite_newest mvcc_ok_def st_versions_def)

lemma GetTxnCommitRecord_st:
  "mvcc_ok st \<Longrightarrow> GetTxnCommitRecord st key startTS = Inr (commit_record startTS (st_versions st key))"
  by (simp add: GetTxnCommitRecord_versions mvcc_ok_def st_versions_def)

lemma GetWrite_st:
  "mvcc_ok st \<Longrightarrow> last_change_ok (st_versions st key) \<Longrightarrow>
     GetWrite st key ts = Some (Inr (data_version (filter (\<lambda>v. fst v \<le> ts) (st_versions st key))))"
  by (simp add: GetWrite_versions mvcc_ok_def st_versions_def)

lemma st_versions_newest_first: "mvcc_ok st \<Longrightarrow> sorted_wrt newer (st_versions st key)"
  by (simp add: versions_newest_first mvcc_ok_def st_versions_def)

lemmas mvcc_reads = LoadLock_st_lock GetValue_st_value SeekWrite_st GetTxnCommitRecord_st GetWrite_st

text \<open>The value a read at \<open>ts\<close> returns once no lock blocks it.\<close>

definition read_at :: "store \<Rightarrow> bytes \<Rightarrow> TimeStamp \<Rightarrow> bytes option" where
  "read_at st key ts =
     (case data_version (filter (\<lambda>v. fst v \<le> ts) (st_versions st key)) of
        (None, _) \<Rightarrow> None
      | (Some w, _) \<Rightarrow>
          (case write_ShortValue w of Some v \<Rightarrow> Some v | None \<Rightarrow> st_value st key (write_StartTS w)))"

definition blocking_lock :: "PointGetter \<Rightarrow> bytes \<Rightarrow> Lock option" where
  "blocking_lock pg key =
     (case st_lock (pg_snapshot pg) key of
        None \<Rightarrow> None
      | Some l \<Rightarrow>
          if pg_isolationLevel pg = IsolationLevelSI \<and> lock_StartTS l \<le> pg_ts pg
             \<and> lock_LockType l \<noteq> LockTypePessimistic \<and> \<not> pg_bypassLocks pg (lock_StartTS l)
          then Some l else None)"

lemma PointGetter_Get_read_at:
  assumes "mvcc_ok (pg_snapshot pg)" "last_change_ok (st_versions (pg_snapshot pg) key)"
  shows "PointGetter_Get pg key =
    Some (case blocking_lock pg key of
        Some l \<Rightarrow> Inl (LockError key l)
      | None \<Rightarrow> Inr (read_at (pg_snapshot pg) key (pg_ts pg)))"
  using assms
  by (auto simp: PointGetter_Get_def PointGetter_checkLock_def blocking_lock_def read_at_def mvcc_reads
      split: option.splits prod.splits)

lemma read_at_cong:
  assumes "st_versions st' k = st_versions st k" "\<And>s. st_value st' k s = st_value st k s"
  shows "read_at st' k ts = read_at st k ts"
proof -
  have "st_value st' k = st_value st k" using assms(2) by (rule ext)
  then show ?thesis unfolding read_at_def assms(1) by presburger
qed

lemma NewPointGetter_fields [simp]:
  "pg_snapshot (NewPointGetter st ts level) = st" "pg_ts (NewPointGetter st ts level) = ts"
  "pg_isolationLevel (NewPointGetter st ts level) = level" "pg_bypassLocks (NewPointGetter st ts level) = (\<lambda>_. False)"
  by (simp_all add: NewPointGetter_def)

lemma NewPointGetter_Get:
  assumes "mvcc_ok st" "last_change_ok (st_versions st k)"
  shows "PointGetter_Get (NewPointGetter st ts level) k =
    Some (case blocking_lock (NewPointGetter st ts level) k of
        Some l \<Rightarrow> Inl (LockError k l) | None \<Rightarrow> Inr (read_at st k ts))"
  using PointGetter_Get_read_at [of "NewPointGetter st ts level" k, unfolded NewPointGetter_fields] assms
  by blast

subsection \<open>Applying modifications\<close>

text \<open>\<^verbatim>\<open>Storage.ApplyModifies\<close>: the batch of the modifications, committed at once.\<close>

definition wb_add :: "wb_op \<Rightarrow> string \<Rightarrow> wb_op list \<Rightarrow> wb_op list res" where
  "wb_add op c batch = (if \<not> known_cf c then Inl (ErrCFNotFound c) else Inr (batch @ [op]))"

fun ApplyModifies_loop :: "Modify list \<Rightarrow> wb_op list \<Rightarrow> wb_op list res" where
  "ApplyModifies_loop [] batch = Inr batch"
| "ApplyModifies_loop (m # ms) batch =
     res_bind
       (case mod_Type m of
          ModifyTypePut \<Rightarrow> wb_add (WbPut (mod_CF m) (mod_Key m) (mod_Value m)) (mod_CF m) batch
        | ModifyTypeDelete \<Rightarrow> wb_add (WbDelete (mod_CF m) (mod_Key m)) (mod_CF m) batch
        | ModifyTypeDeleteRange \<Rightarrow>
            wb_add (WbDeleteRange (mod_CF m) (mod_Key m) (mod_EndKey m)) (mod_CF m) batch)
       (ApplyModifies_loop ms)"

definition ApplyModifies :: "Modify list \<Rightarrow> store \<Rightarrow> store res" where
  "ApplyModifies ms st =
     (if length ms = 0 then Inr st
      else res_bind (ApplyModifies_loop ms []) (\<lambda>batch. Inr (wb_commit batch st)))"

definition modify_op :: "Modify \<Rightarrow> wb_op" where
  "modify_op m =
     (case mod_Type m of
        ModifyTypePut \<Rightarrow> WbPut (mod_CF m) (mod_Key m) (mod_Value m)
      | ModifyTypeDelete \<Rightarrow> WbDelete (mod_CF m) (mod_Key m)
      | ModifyTypeDeleteRange \<Rightarrow> WbDeleteRange (mod_CF m) (mod_Key m) (mod_EndKey m))"

definition apply_mods :: "Modify list \<Rightarrow> store \<Rightarrow> store" where
  "apply_mods ms st = wb_commit (map modify_op ms) st"

lemma ApplyModifies_loop_known:
  "list_all (\<lambda>m. known_cf (mod_CF m)) ms \<Longrightarrow>
     ApplyModifies_loop ms batch = Inr (batch @ map modify_op ms)"
  by (induction ms arbitrary: batch) (auto simp: wb_add_def modify_op_def split: ModifyType.splits)

lemma ApplyModifies_known:
  "list_all (\<lambda>m. known_cf (mod_CF m)) ms \<Longrightarrow> ApplyModifies ms st = Inr (apply_mods ms st)"
  by (simp add: ApplyModifies_def ApplyModifies_loop_known apply_mods_def wb_commit_def)

lemma apply_mods_append: "apply_mods (ms @ ms') st = apply_mods ms' (apply_mods ms st)"
  by (simp add: apply_mods_def wb_commit_def)

lemma apply_mods_Nil [simp]: "apply_mods [] st = st"
  by (simp add: apply_mods_def wb_commit_def)

text \<open>The effect of one accumulated operation on the store.\<close>

definition put_lock :: "bytes \<Rightarrow> Lock \<Rightarrow> store \<Rightarrow> store" where
  "put_lock key l st = st(CFLock := cf_put (EncodeLockKey key) (MarshalLock l) (st CFLock))"

definition del_lock :: "bytes \<Rightarrow> store \<Rightarrow> store" where
  "del_lock key st = st(CFLock := cf_delete (EncodeLockKey key) (st CFLock))"

definition put_write :: "bytes \<Rightarrow> TimeStamp \<Rightarrow> Write \<Rightarrow> store \<Rightarrow> store" where
  "put_write key ts w st = st(CFWrite := cf_put (EncodeKey key ts) (MarshalWrite w) (st CFWrite))"

definition del_write :: "bytes \<Rightarrow> TimeStamp \<Rightarrow> store \<Rightarrow> store" where
  "del_write key ts st = st(CFWrite := cf_delete (EncodeKey key ts) (st CFWrite))"

definition put_value :: "bytes \<Rightarrow> TimeStamp \<Rightarrow> bytes \<Rightarrow> store \<Rightarrow> store" where
  "put_value key ts v st = st(CFDefault := cf_put (EncodeKey key ts) v (st CFDefault))"

definition del_value :: "bytes \<Rightarrow> TimeStamp \<Rightarrow> store \<Rightarrow> store" where
  "del_value key ts st = st(CFDefault := cf_delete (EncodeKey key ts) (st CFDefault))"

lemmas effect_defs = put_lock_def del_lock_def put_write_def del_write_def put_value_def del_value_def

definition txn_apply :: "MvccTxn \<Rightarrow> store \<Rightarrow> store" where
  "txn_apply txn st = apply_mods (txn_Modifies txn) st"

lemma txn_apply_effects [simp]:
  "txn_apply (NewMvccTxn s) st = st"
  "txn_apply (PutLock key l txn) st = put_lock key l (txn_apply txn st)"
  "txn_apply (snd (UnlockKey key p txn)) st = del_lock key (txn_apply txn st)"
  "txn_apply (PutValue key ts v txn) st = put_value key ts v (txn_apply txn st)"
  "txn_apply (DeleteValue key ts txn) st = del_value key ts (txn_apply txn st)"
  "txn_apply (PutWrite key ts w txn) st = put_write key ts w (txn_apply txn st)"
  "txn_apply (DeleteWrite key ts txn) st = del_write key ts (txn_apply txn st)"
  by (simp_all add: txn_apply_def NewMvccTxn_def PutLock_def UnlockKey_def PutValue_def DeleteValue_def
      PutWrite_def DeleteWrite_def apply_mods_append mkPut_def mkDelete_def
      apply_mods_def [of "[_]"] wb_commit_def modify_op_def effect_defs Let_def)

definition txn_known :: "MvccTxn \<Rightarrow> bool" where
  "txn_known txn \<longleftrightarrow> list_all (\<lambda>m. known_cf (mod_CF m)) (txn_Modifies txn)"

lemma txn_known_ops [simp]:
  "txn_known (NewMvccTxn s)"
  "txn_known (PutLock key l txn) \<longleftrightarrow> txn_known txn"
  "txn_known (snd (UnlockKey key p txn)) \<longleftrightarrow> txn_known txn"
  "txn_known (PutValue key ts v txn) \<longleftrightarrow> txn_known txn"
  "txn_known (DeleteValue key ts txn) \<longleftrightarrow> txn_known txn"
  "txn_known (PutWrite key ts w txn) \<longleftrightarrow> txn_known txn"
  "txn_known (DeleteWrite key ts txn) \<longleftrightarrow> txn_known txn"
  by (simp_all add: txn_known_def NewMvccTxn_def PutLock_def UnlockKey_def PutValue_def DeleteValue_def
      PutWrite_def DeleteWrite_def mkPut_def mkDelete_def Let_def)

lemma ApplyModifies_txn: "txn_known txn \<Longrightarrow> ApplyModifies (txn_Modifies txn) st = Inr (txn_apply txn st)"
  by (simp add: txn_known_def ApplyModifies_known txn_apply_def)

definition ver_put :: "TimeStamp \<Rightarrow> Write \<Rightarrow> version list \<Rightarrow> version list" where
  "ver_put c w vs = filter (\<lambda>v. c < fst v) vs @ (c, w) # filter (\<lambda>v. fst v < c) vs"

lemma set_ver_put: "set (ver_put c w vs) = insert (c, w) {v \<in> set vs. fst v \<noteq> c}"
  by (auto simp: ver_put_def)

lemma ver_put_newest_first: "sorted_wrt newer vs \<Longrightarrow> sorted_wrt newer (ver_put c w vs)"
  by (auto simp: ver_put_def sorted_wrt_append sorted_wrt_filter)

lemma write_cf_ok_put:
  assumes "write_cf_ok es" "UnmarshalWrite d = Inr w"
  shows "write_cf_ok (cf_put (EncodeKey key c) d es)"
proof -
  have "write_entry_ok e" if "e \<in> set (cf_put (EncodeKey key c) d es)" for e
    using that assms set_cf_put [of es "EncodeKey key c" d]
    by (auto simp: write_cf_ok_def list_all_iff write_entry_ok_EncodeKey)
  with assms show ?thesis by (simp add: write_cf_ok_def list_all_iff cf_sorted_put)
qed

lemma versions_put:
  assumes "write_cf_ok es" "UnmarshalWrite d = Inr w"
  shows "versions (cf_put (EncodeKey key c) d es) key' =
    (if key' = key then ver_put c w (versions es key) else versions es key')"
proof (rule sorted_wrt_set_unique [where R = newer])
  have ok: "write_cf_ok (cf_put (EncodeKey key c) d es)" by (rule write_cf_ok_put [OF assms])
  then show "sorted_wrt newer (versions (cf_put (EncodeKey key c) d es) key')"
    by (rule versions_newest_first)
  show "sorted_wrt newer (if key' = key then ver_put c w (versions es key) else versions es key')"
    using assms(1) by (simp add: versions_newest_first ver_put_newest_first)
  have "(a, b) \<in> set (versions (cf_put (EncodeKey key c) d es) key') \<longleftrightarrow>
      (a, b) \<in> set (if key' = key then ver_put c w (versions es key) else versions es key')" for a b
    using assms(2) in_versions [OF ok, of a b key'] in_versions [OF assms(1), of a b key'] assms(1)
    by (auto simp: cf_get_put write_cf_ok_def set_ver_put)
  then show "set (versions (cf_put (EncodeKey key c) d es) key') =
      set (if key' = key then ver_put c w (versions es key) else versions es key')" by auto
qed auto

lemma write_cf_ok_delete: "write_cf_ok es \<Longrightarrow> write_cf_ok (cf_delete k es)"
  by (auto simp: write_cf_ok_def cf_sorted_delete list_all_iff set_cf_delete)

lemma versions_delete:
  assumes "write_cf_ok es"
  shows "versions (cf_delete (EncodeKey key c) es) key' =
    (if key' = key then filter (\<lambda>v. fst v \<noteq> c) (versions es key) else versions es key')"
proof (rule sorted_wrt_set_unique [where R = newer])
  have ok: "write_cf_ok (cf_delete (EncodeKey key c) es)" by (rule write_cf_ok_delete [OF assms(1)])
  then show "sorted_wrt newer (versions (cf_delete (EncodeKey key c) es) key')"
    by (rule versions_newest_first)
  show "sorted_wrt newer
      (if key' = key then filter (\<lambda>v. fst v \<noteq> c) (versions es key) else versions es key')"
    using assms(1) by (simp add: versions_newest_first sorted_wrt_filter)
  have "(a, b) \<in> set (versions (cf_delete (EncodeKey key c) es) key') \<longleftrightarrow>
      (a, b) \<in> set (if key' = key then filter (\<lambda>v. fst v \<noteq> c) (versions es key) else versions es key')" for a b
    using in_versions [OF ok, of a b key'] in_versions [OF assms(1), of a b key']
    by (auto simp: cf_get_delete)
  then show "set (versions (cf_delete (EncodeKey key c) es) key') =
      set (if key' = key then filter (\<lambda>v. fst v \<noteq> c) (versions es key) else versions es key')" by auto
qed auto

named_theorems mvcc_view \<open>locks, versions and values after each effect\<close>

lemma st_lock_effects [mvcc_view]:
  "mvcc_ok st \<Longrightarrow> lock_sizes_ok l \<Longrightarrow>
     st_lock (put_lock key l st) key' = (if key' = key then Some (normLock l) else st_lock st key')"
  "st_lock (del_lock key st) key' = (if key' = key then None else st_lock st key')"
  "st_lock (put_write key c w st) key' = st_lock st key'"
  "st_lock (del_write key c st) key' = st_lock st key'"
  "st_lock (put_value key c v st) key' = st_lock st key'"
  "st_lock (del_value key c st) key' = st_lock st key'"
  by (auto simp: st_lock_def effect_defs cf_simps mvcc_ok_def UnmarshalLock_MarshalLock)

lemma st_versions_effects [mvcc_view]:
  "mvcc_ok st \<Longrightarrow> write_sizes_ok w \<Longrightarrow>
     st_versions (put_write key c w st) key' =
       (if key' = key then ver_put c (normWrite w) (st_versions st key) else st_versions st key')"
  "mvcc_ok st \<Longrightarrow>
     st_versions (del_write key c st) key' =
       (if key' = key then filter (\<lambda>v. fst v \<noteq> c) (st_versions st key) else st_versions st key')"
  "st_versions (put_lock key l st) key' = st_versions st key'"
  "st_versions (del_lock key st) key' = st_versions st key'"
  "st_versions (put_value key c v st) key' = st_versions st key'"
  "st_versions (del_value key c st) key' = st_versions st key'"
  by (simp_all add: st_versions_def effect_defs mvcc_ok_def versions_delete
      versions_put [OF _ UnmarshalWrite_MarshalWrite])

lemma st_value_effects [mvcc_view]:
  "mvcc_ok st \<Longrightarrow>
     st_value (put_value key c v st) key' c' = (if key' = key \<and> c' = c then Some v else st_value st key' c')"
  "st_value (del_value key c st) key' c' = (if key' = key \<and> c' = c then None else st_value st key' c')"
  "st_value (put_lock key l st) key' c' = st_value st key' c'"
  "st_value (del_lock key st) key' c' = st_value st key' c'"
  "st_value (put_write key c w st) key' c' = st_value st key' c'"
  "st_value (del_write key c st) key' c' = st_value st key' c'"
  by (simp_all add: st_value_def effect_defs mvcc_ok_def cf_simps)

lemma lock_entry_ok_Encode:
  "lock_entry_ok (EncodeLockKey k, d) \<longleftrightarrow> (\<exists>l. UnmarshalLock d = Inr l)"
  using bytes_codec.dec_enc [of k "[]"]
  by (auto simp: lock_entry_ok_def EncodeLockKey_def split: sum.splits)

lemma value_entry_ok_Encode: "value_entry_ok (EncodeKey k ts, d)"
  using key_codec.pair.dec_enc [of "(k, ts)" "[]"] by (simp add: value_entry_ok_def EncodeKey_pair)

lemma mvcc_ok_effects [mvcc_view]:
  "mvcc_ok st \<Longrightarrow> lock_sizes_ok l \<Longrightarrow> mvcc_ok (put_lock key l st)"
  "mvcc_ok st \<Longrightarrow> mvcc_ok (del_lock key st)"
  "mvcc_ok st \<Longrightarrow> write_sizes_ok w \<Longrightarrow> mvcc_ok (put_write key c w st)"
  "mvcc_ok st \<Longrightarrow> mvcc_ok (del_write key c st)"
  "mvcc_ok st \<Longrightarrow> mvcc_ok (put_value key c v st)"
  "mvcc_ok st \<Longrightarrow> mvcc_ok (del_value key c st)"
proof -
  assume ok: "mvcc_ok st"
  show "mvcc_ok (put_lock key l st)" if "lock_sizes_ok l"
    using ok that UnmarshalLock_MarshalLock [OF that]
    by (auto simp: mvcc_ok_def put_lock_def cf_simps list_all_iff set_cf_put lock_entry_ok_Encode)
  show "mvcc_ok (put_write key c w st)" if "write_sizes_ok w"
    using ok write_cf_ok_put [OF _ UnmarshalWrite_MarshalWrite [OF that]]
    by (auto simp: mvcc_ok_def put_write_def)
  show "mvcc_ok (del_lock key st)" "mvcc_ok (del_write key c st)" "mvcc_ok (del_value key c st)"
    using ok by (auto simp: mvcc_ok_def effect_defs cf_simps list_all_iff set_cf_delete write_cf_ok_delete)
  show "mvcc_ok (put_value key c v st)"
    using ok by (auto simp: mvcc_ok_def put_value_def cf_simps list_all_iff set_cf_put value_entry_ok_Encode)
qed

subsection \<open>Properties of the readers\<close>

text \<open>A store with one key: a committed value at 10 under a rollback record at 30 whose
  last-change field points back to it, and a second key with a lock and a large value.\<close>

definition empty_store :: store where
  "empty_store = (\<lambda>_. [])"

lemma empty_store_view [simp]:
  "mvcc_ok empty_store" "st_lock empty_store k = None" "st_versions empty_store k = []"
  "st_value empty_store k ts = None"
  by (simp_all add: empty_store_def mvcc_ok_def write_cf_ok_def cf_sorted_def st_lock_def st_versions_def
      versions_def st_value_def cf_get_def)

definition samplePut :: Write where
  "samplePut = Write_zero\<lparr>write_WriteType := WriteTypePut, write_StartTS := 5, write_ShortValue := Some [42]\<rparr>"

definition sampleRollback :: Write where
  "sampleRollback = Write_zero\<lparr>write_WriteType := WriteTypeRollback, write_StartTS := 30,
     write_LastChange := \<lparr>lc_TS = 10, lc_EstimatedVersions = 32\<rparr>\<rparr>"

definition sampleStore :: store where
  "sampleStore = put_lock [2] (Lock_zero\<lparr>lock_LockType := LockTypePut, lock_StartTS := 40\<rparr>)
     (put_value [2] 40 [7] (put_write [1] 30 sampleRollback (put_write [1] 10 samplePut empty_store)))"

lemmas sample_defs = samplePut_def sampleRollback_def Write_zero_def Lock_zero_def
  LastChange_zero_def

lemma sample_sizes [simp]:
  "write_sizes_ok samplePut" "write_sizes_ok sampleRollback"
  "lock_sizes_ok (Lock_zero\<lparr>lock_LockType := LockTypePut, lock_StartTS := 40\<rparr>)"
  by (simp_all add: write_sizes_ok_def lock_sizes_ok_def sample_defs ShortValueMaxLen_def maxAlloc_def)

lemma sample_norm [simp]: "normWrite samplePut = samplePut" "normWrite sampleRollback = sampleRollback"
  by (simp_all add: normWrite_fixed sample_defs)

lemma sampleStore_view [simp]:
  "mvcc_ok sampleStore"
  "st_versions sampleStore [1] = [(30, sampleRollback), (10, samplePut)]"
  "st_versions sampleStore [2] = []"
  "st_lock sampleStore [1] = None"
  by (simp_all add: sampleStore_def mvcc_view ver_put_def)

lemma sample_fields [simp]:
  "write_WriteType samplePut = WriteTypePut" "write_ShortValue samplePut = Some [42]"
  "write_StartTS samplePut = 5" "write_StartTS sampleRollback = 30"
  "\<not> no_data samplePut" "no_data sampleRollback" "jumps sampleRollback" "\<not> jumps samplePut"
  by (simp_all add: no_data_def jumps_def sample_defs write_types SeekBound_def IsZero_def TSZero_def)

lemma sample_last_change_ok [simp]: "last_change_ok [(30, sampleRollback), (10, samplePut)]"
  by (simp add: last_change_ok_def) (simp add: sample_defs)

text \<open>\<^verbatim>\<open>SeekWrite\<close> returns the newest write record of the key with a commit timestamp
  not above \<open>ts\<close>, and nothing when there is none: the first element of the versions of the
  key, which are listed newest first, after the ones above \<open>ts\<close> are left out.\<close>

theorem SeekWrite_returns_newest:
  assumes "mvcc_ok snap"
  shows "SeekWrite snap key ts = Inr (newest (filter (\<lambda>v. fst v \<le> ts) (st_versions snap key))) \<and>
    sorted_wrt newer (st_versions snap key)"
  using assms by (simp add: SeekWrite_st st_versions_newest_first)

theorem SeekWrite_returns_newest_witness:
  "mvcc_ok sampleStore \<and> SeekWrite sampleStore [1] 50 = Inr (Some sampleRollback, 30) \<and>
   SeekWrite sampleStore [1] 29 = Inr (Some samplePut, 10) \<and> SeekWrite sampleStore [1] 9 = Inr (None, 0)"
  using SeekWrite_returns_newest [of sampleStore "[1]" 50] SeekWrite_returns_newest [of sampleStore "[1]" 29]
    SeekWrite_returns_newest [of sampleStore "[1]" 9] by (simp add: newest_def)

text \<open>\<^verbatim>\<open>GetWrite\<close> returns, and returns the newest data-changing version visible at \<open>ts\<close>:
  following last-change pointers gives the same answer as looking at every record, as long
  as each pointer goes back in time and skips no data record.\<close>

theorem GetWrite_returns_data_version:
  assumes "mvcc_ok snap" "last_change_ok (st_versions snap key)"
  shows "GetWrite snap key ts =
    Some (Inr (data_version (filter (\<lambda>v. fst v \<le> ts) (st_versions snap key))))"
  using assms by (rule GetWrite_st)

theorem GetWrite_returns_data_version_witness:
  "last_change_ok (st_versions sampleStore [1]) \<and> jumps sampleRollback \<and>
   GetWrite sampleStore [1] 50 = Some (Inr (Some samplePut, 10)) \<and>
   GetWrite sampleStore [1] 9 = Some (Inr (None, 0))"
  using GetWrite_returns_data_version [of sampleStore "[1]" 50]
    GetWrite_returns_data_version [of sampleStore "[1]" 9]
  by simp

text \<open>\<^verbatim>\<open>GetTxnCommitRecord\<close> finds the record of a transaction whenever the key has one:
  stopping at the first record below \<open>startTS\<close> loses nothing when commit timestamps are not
  below the start timestamps of their transactions.\<close>

theorem GetTxnCommitRecord_finds:
  assumes "mvcc_ok snap"
    and "list_all (\<lambda>v. write_StartTS (snd v) \<le> fst v) (st_versions snap key)"
  shows "GetTxnCommitRecord snap key startTS =
    Inr (case find (\<lambda>v. write_StartTS (snd v) = startTS) (st_versions snap key) of
           None \<Rightarrow> (None, 0) | Some (c, w) \<Rightarrow> (Some w, c))"
proof -
  have "\<And>c w. (c, w) \<in> set (st_versions snap key) \<Longrightarrow> write_StartTS w \<le> c"
    using assms(2) by (fastforce simp: list_all_iff)
  with assms(1) show ?thesis
    using commit_record_find [of "st_versions snap key" startTS]
    by (simp add: GetTxnCommitRecord_st st_versions_newest_first)
qed

theorem GetTxnCommitRecord_finds_witness:
  "GetTxnCommitRecord sampleStore [1] 5 = Inr (Some samplePut, 10) \<and>
   GetTxnCommitRecord sampleStore [1] 6 = Inr (None, 0)"
  using GetTxnCommitRecord_finds [of sampleStore "[1]" 5] GetTxnCommitRecord_finds [of sampleStore "[1]" 6]
  by simp

text \<open>C1: A point read returns. Under snapshot isolation it fails exactly when a lock of
  another transaction that is not pessimistic was taken at or before the read timestamp and
  is not bypassed; otherwise it returns the value of the newest visible data version, from
  the record itself or from \<^verbatim>\<open>CF\_DEFAULT\<close>.\<close>

theorem PointGetter_Get_correct:
  assumes "mvcc_ok (pg_snapshot pg)" "last_change_ok (st_versions (pg_snapshot pg) key)"
  shows "PointGetter_Get pg key =
    Some (case blocking_lock pg key of
        Some l \<Rightarrow> Inl (LockError key l)
      | None \<Rightarrow> Inr (read_at (pg_snapshot pg) key (pg_ts pg)))"
  using assms by (rule PointGetter_Get_read_at)

theorem PointGetter_Get_correct_witness:
  "PointGetter_Get (NewPointGetter sampleStore 50 IsolationLevelSI) [1] = Some (Inr (Some [42])) \<and>
   PointGetter_Get (NewPointGetter sampleStore 9 IsolationLevelSI) [1] = Some (Inr None)"
  using PointGetter_Get_correct [of "NewPointGetter sampleStore 50 IsolationLevelSI" "[1]"]
    PointGetter_Get_correct [of "NewPointGetter sampleStore 9 IsolationLevelSI" "[1]"]
  by (simp add: NewPointGetter_def blocking_lock_def read_at_def)

end
