(* ===== verification/TxnActions.thy ===== *)
theory TxnActions
  imports Mvcc_Store
begin

unbundle bit_operations_syntax

section \<open>Package txn: the Percolator actions\<close>

text \<open>
  Models \<^verbatim>\<open>internal/storage/txn/actions.go\<close>, \<^verbatim>\<open>async\_commit.go\<close> and \<^verbatim>\<open>pessimistic.go\<close>: prewrite,
  commit, rollback, status checks, heartbeat and lock resolution for one key, the async
  commit and one-phase variants, and pessimistic locks. An action takes the accumulator
  \<open>txn\<close> and a snapshot, and returns an error or the extended accumulator; no action
  extends the accumulator before it fails. The trace output switched on by an environment
  variable is left out.

  The lemmas give each action as a case distinction on the MVCC view of the snapshot and
  describe the view after its modifications are applied.
\<close>

subsection \<open>actions.go\<close>

datatype txn_error =
    TxnErr go_error
  | ErrWriteConflict
  | ErrKeyIsLocked
  | KeyLockedError bytes Lock
  | ErrTxnLockNotFound
  | ErrAlreadyCommitted
  | ErrCommitTSTooSmall

record PrewriteProps =
  pp_StartTS :: TimeStamp
  pp_Primary :: bytes
  pp_LockTTL :: u64
  pp_IsPrimary :: bool

datatype TxnMutationOp = MutationOpPut | MutationOpDelete | MutationOpLock

record TxnMutation =
  tm_Op :: TxnMutationOp
  tm_Key :: bytes
  tm_Value :: "bytes option"

text \<open>An error of the reader ends the action.\<close>

definition lift_err :: "'a res \<Rightarrow> txn_error + 'a" where
  "lift_err r = (case r of Inl e \<Rightarrow> Inl (TxnErr e) | Inr x \<Rightarrow> Inr x)"

definition mutationOpToLockType :: "TxnMutationOp \<Rightarrow> LockType" where
  "mutationOpToLockType op =
     (case op of
        MutationOpPut \<Rightarrow> LockTypePut
      | MutationOpDelete \<Rightarrow> LockTypeDelete
      | MutationOpLock \<Rightarrow> LockTypeLock)"

definition lockTypeToWriteType :: "LockType \<Rightarrow> WriteType" where
  "lockTypeToWriteType lt =
     (if lt = LockTypePut then WriteTypePut
      else if lt = LockTypeDelete then WriteTypeDelete
      else if lt = LockTypeLock then WriteTypeLock
      else WriteTypePut)"

text \<open>The bounded loop over newer write records that looks for a conflict.\<close>

fun conflict_loop :: "nat \<Rightarrow> store \<Rightarrow> bytes \<Rightarrow> TimeStamp \<Rightarrow> TimeStamp \<Rightarrow> txn_error + unit" where
  "conflict_loop 0 snap key startTS seekTS = Inr ()"
| "conflict_loop (Suc n) snap key startTS seekTS =
     (case SeekWrite snap key seekTS of
        Inl e \<Rightarrow> Inl (TxnErr e)
      | Inr (None, _) \<Rightarrow> Inr ()
      | Inr (Some w, commitTS) \<Rightarrow>
          if commitTS \<le> startTS then Inr ()
          else if write_WriteType w \<noteq> WriteTypeRollback \<and> write_WriteType w \<noteq> WriteTypeLock
          then Inl ErrWriteConflict
          else conflict_loop n snap key startTS (Prev_ts commitTS))"

text \<open>The value part of a prewrite: short values are inlined in the lock, a large value of
  a put goes to \<^verbatim>\<open>CF\_DEFAULT\<close>.\<close>

definition inlineShort :: "bytes option \<Rightarrow> Lock \<Rightarrow> Lock" where
  "inlineShort v lock =
     (case v of
        None \<Rightarrow> lock
      | Some x \<Rightarrow> if length x \<le> ShortValueMaxLen then lock\<lparr>lock_ShortValue := Some x\<rparr> else lock)"

definition putLarge :: "TimeStamp \<Rightarrow> TxnMutation \<Rightarrow> MvccTxn \<Rightarrow> MvccTxn" where
  "putLarge startTS mut txn =
     (case tm_Value mut of
        None \<Rightarrow> txn
      | Some x \<Rightarrow>
          if tm_Op mut = MutationOpPut \<and> ShortValueMaxLen < length x
          then PutValue (tm_Key mut) startTS x txn else txn)"

definition prewriteLock :: "PrewriteProps \<Rightarrow> TxnMutation \<Rightarrow> Lock" where
  "prewriteLock props mut =
     inlineShort (tm_Value mut)
       (Lock_zero\<lparr>lock_LockType := mutationOpToLockType (tm_Op mut), lock_Primary := pp_Primary props,
          lock_StartTS := pp_StartTS props, lock_TTL := pp_LockTTL props\<rparr>)"

definition Prewrite :: "MvccTxn \<Rightarrow> store \<Rightarrow> PrewriteProps \<Rightarrow> TxnMutation \<Rightarrow> txn_error + MvccTxn" where
  "Prewrite txn snap props mut =
     (let key = tm_Key mut in
      res_bind (lift_err (LoadLock snap key)) (\<lambda>existingLock.
        case existingLock of
          Some l \<Rightarrow>
            if lock_StartTS l = pp_StartTS props then Inr txn else Inl (KeyLockedError key l)
        | None \<Rightarrow>
            res_bind (conflict_loop (SeekBound * 2) snap key (pp_StartTS props) TSMax) (\<lambda>_.
              let txn = PutLock key (prewriteLock props mut) txn in
              Inr (putLarge (pp_StartTS props) mut txn))))"

definition Commit :: "MvccTxn \<Rightarrow> store \<Rightarrow> bytes \<Rightarrow> TimeStamp \<Rightarrow> TimeStamp \<Rightarrow> txn_error + MvccTxn" where
  "Commit txn snap key startTS commitTS =
     res_bind (lift_err (LoadLock snap key)) (\<lambda>lock.
       case lock of
         None \<Rightarrow> Inl ErrTxnLockNotFound
       | Some l \<Rightarrow>
           if lock_StartTS l \<noteq> startTS then Inl ErrTxnLockNotFound
           else if commitTS < lock_MinCommitTS l then Inl ErrCommitTSTooSmall
           else if lock_LockType l = LockTypePessimistic then Inr (snd (UnlockKey key True txn))
           else
             let txn = snd (UnlockKey key False txn);
                 w = Write_zero\<lparr>write_WriteType := lockTypeToWriteType (lock_LockType l),
                       write_StartTS := lock_StartTS l, write_ShortValue := lock_ShortValue l\<rparr> in
             Inr (PutWrite key commitTS w txn))"

definition rollbackWrite :: "TimeStamp \<Rightarrow> Write" where
  "rollbackWrite startTS =
     Write_zero\<lparr>write_WriteType := WriteTypeRollback, write_StartTS := startTS\<rparr>"

text \<open>Removing the lock and the large value it may own.\<close>

definition dropLock :: "bytes \<Rightarrow> TimeStamp \<Rightarrow> Lock \<Rightarrow> MvccTxn \<Rightarrow> MvccTxn" where
  "dropLock key startTS l txn =
     (let isPessimistic = (lock_LockType l = LockTypePessimistic);
          txn = snd (UnlockKey key isPessimistic txn) in
      if lock_ShortValue l = None \<and> lock_LockType l = LockTypePut
      then DeleteValue key startTS txn else txn)"

definition Rollback :: "MvccTxn \<Rightarrow> store \<Rightarrow> bytes \<Rightarrow> TimeStamp \<Rightarrow> txn_error + MvccTxn" where
  "Rollback txn snap key startTS =
     res_bind (lift_err (GetTxnCommitRecord snap key startTS)) (\<lambda>(existingWrite, _).
       case existingWrite of
         Some w \<Rightarrow>
           if write_WriteType w \<noteq> WriteTypeRollback then Inl ErrAlreadyCommitted else Inr txn
       | None \<Rightarrow>
           res_bind (lift_err (LoadLock snap key)) (\<lambda>lock.
             let txn = (case lock of
                          Some l \<Rightarrow> if lock_StartTS l = startTS then dropLock key startTS l txn else txn
                        | None \<Rightarrow> txn) in
             Inr (PutWrite key startTS (rollbackWrite startTS) txn)))"

record TxnStatus =
  ts_IsLocked :: bool
  ts_Lock :: "Lock option"
  ts_CommitTS :: TimeStamp
  ts_IsRolledBack :: bool

definition TxnStatus_zero :: TxnStatus where
  "TxnStatus_zero = \<lparr>ts_IsLocked = False, ts_Lock = None, ts_CommitTS = 0, ts_IsRolledBack = False\<rparr>"

text \<open>The part both status checks share: what the write records say.\<close>

definition statusOfWrite :: "Write option \<times> TimeStamp \<Rightarrow> TxnStatus option" where
  "statusOfWrite r =
     (case fst r of
        None \<Rightarrow> None
      | Some w \<Rightarrow>
          if write_WriteType w = WriteTypeRollback then Some (TxnStatus_zero\<lparr>ts_IsRolledBack := True\<rparr>)
          else Some (TxnStatus_zero\<lparr>ts_CommitTS := snd r\<rparr>))"

definition CheckTxnStatus :: "store \<Rightarrow> bytes \<Rightarrow> TimeStamp \<Rightarrow> txn_error + TxnStatus" where
  "CheckTxnStatus snap primaryKey startTS =
     res_bind (lift_err (LoadLock snap primaryKey)) (\<lambda>lock.
       case lock of
         Some l \<Rightarrow>
           if lock_StartTS l = startTS
           then Inr (TxnStatus_zero\<lparr>ts_IsLocked := True, ts_Lock := Some l\<rparr>)
           else res_bind (lift_err (GetTxnCommitRecord snap primaryKey startTS)) (\<lambda>r.
             Inr (case statusOfWrite r of Some s \<Rightarrow> s | None \<Rightarrow> TxnStatus_zero))
       | None \<Rightarrow>
           res_bind (lift_err (GetTxnCommitRecord snap primaryKey startTS)) (\<lambda>r.
             Inr (case statusOfWrite r of Some s \<Rightarrow> s | None \<Rightarrow> TxnStatus_zero)))"

definition CheckTxnStatusWithCleanup ::
  "MvccTxn \<Rightarrow> store \<Rightarrow> bytes \<Rightarrow> TimeStamp \<Rightarrow> TimeStamp \<Rightarrow> bool \<Rightarrow> txn_error + TxnStatus \<times> MvccTxn"
where
  "CheckTxnStatusWithCleanup txn snap primaryKey startTS callerStartTS rollbackIfNotExist =
     res_bind (lift_err (LoadLock snap primaryKey)) (\<lambda>lock.
       let noLock =
             res_bind (lift_err (GetTxnCommitRecord snap primaryKey startTS)) (\<lambda>r.
               case statusOfWrite r of
                 Some s \<Rightarrow> Inr (s, txn)
               | None \<Rightarrow>
                   if rollbackIfNotExist
                   then Inr (TxnStatus_zero\<lparr>ts_IsRolledBack := True\<rparr>,
                             PutWrite primaryKey startTS (rollbackWrite startTS) txn)
                   else Inr (TxnStatus_zero, txn)) in
       case lock of
         None \<Rightarrow> noLock
       | Some l \<Rightarrow>
           if lock_StartTS l = startTS then
             let lockPhysicalTime = drop_bit 18 startTS;
                 callerPhysicalTime = drop_bit 18 callerStartTS;
                 lockExpireTime = lockPhysicalTime + lock_TTL l in
             if lockExpireTime \<le> callerPhysicalTime
             then Inr (TxnStatus_zero\<lparr>ts_IsRolledBack := True\<rparr>,
                       PutWrite primaryKey startTS (rollbackWrite startTS)
                         (dropLock primaryKey startTS l txn))
             else Inr (TxnStatus_zero\<lparr>ts_IsLocked := True, ts_Lock := Some l\<rparr>, txn)
           else noLock)"

definition TxnHeartBeat ::
  "MvccTxn \<Rightarrow> store \<Rightarrow> bytes \<Rightarrow> TimeStamp \<Rightarrow> u64 \<Rightarrow> txn_error + u64 \<times> MvccTxn"
where
  "TxnHeartBeat txn snap primaryKey startTS adviseTTL =
     res_bind (lift_err (LoadLock snap primaryKey)) (\<lambda>lock.
       case lock of
         None \<Rightarrow> Inl ErrTxnLockNotFound
       | Some l \<Rightarrow>
           if lock_StartTS l \<noteq> startTS then Inl ErrTxnLockNotFound
           else if lock_TTL l < adviseTTL
           then Inr (adviseTTL, PutLock primaryKey (l\<lparr>lock_TTL := adviseTTL\<rparr>) txn)
           else Inr (lock_TTL l, txn))"

definition ResolveLock ::
  "MvccTxn \<Rightarrow> store \<Rightarrow> bytes \<Rightarrow> TimeStamp \<Rightarrow> TimeStamp \<Rightarrow> txn_error + MvccTxn"
where
  "ResolveLock txn snap key startTS commitTS =
     res_bind (lift_err (LoadLock snap key)) (\<lambda>lock.
       case lock of
         None \<Rightarrow> Inr txn
       | Some l \<Rightarrow>
           if lock_StartTS l \<noteq> startTS then Inr txn
           else if 0 < commitTS then Commit txn snap key startTS commitTS
           else Rollback txn snap key startTS)"

subsection \<open>async\_commit.go\<close>

record AsyncCommitPrewriteProps = PrewriteProps +
  ap_UseAsyncCommit :: bool
  ap_Secondaries :: "bytes list"
  ap_MaxCommitTS :: TimeStamp

definition minCommitTS :: "TimeStamp \<Rightarrow> TimeStamp \<Rightarrow> TimeStamp" where
  "minCommitTS startTS maxCommitTS =
     (let m = startTS + 1 in
      if 0 < maxCommitTS \<and> m < maxCommitTS + 1 then maxCommitTS + 1 else m)"

definition asyncCommitLock :: "AsyncCommitPrewriteProps \<Rightarrow> TxnMutation \<Rightarrow> Lock" where
  "asyncCommitLock props mut =
     (let lock = inlineShort (tm_Value mut)
            (Lock_zero\<lparr>lock_LockType := mutationOpToLockType (tm_Op mut),
               lock_Primary := pp_Primary props, lock_StartTS := pp_StartTS props,
               lock_TTL := pp_LockTTL props\<rparr>) in
      if ap_UseAsyncCommit props then
        lock\<lparr>lock_UseAsyncCommit := True,
          lock_Secondaries := (if pp_IsPrimary props then ap_Secondaries props else []),
          lock_MinCommitTS := minCommitTS (pp_StartTS props) (ap_MaxCommitTS props)\<rparr>
      else lock)"

definition PrewriteAsyncCommit ::
  "MvccTxn \<Rightarrow> store \<Rightarrow> AsyncCommitPrewriteProps \<Rightarrow> TxnMutation \<Rightarrow> txn_error + MvccTxn"
where
  "PrewriteAsyncCommit txn snap props mut =
     (let key = tm_Key mut in
      res_bind (lift_err (LoadLock snap key)) (\<lambda>existingLock.
        case existingLock of
          Some l \<Rightarrow> if lock_StartTS l = pp_StartTS props then Inr txn else Inl ErrKeyIsLocked
        | None \<Rightarrow>
            res_bind (conflict_loop (SeekBound * 2) snap key (pp_StartTS props) TSMax) (\<lambda>_.
              let txn = PutLock key (asyncCommitLock props mut) txn in
              Inr (putLarge (pp_StartTS props) mut txn))))"

definition CheckAsyncCommitStatus :: "store \<Rightarrow> bytes \<Rightarrow> TimeStamp \<Rightarrow> txn_error + TimeStamp" where
  "CheckAsyncCommitStatus snap primaryKey startTS =
     res_bind (lift_err (LoadLock snap primaryKey)) (\<lambda>lock.
       let noLock = res_bind (lift_err (GetTxnCommitRecord snap primaryKey startTS)) (\<lambda>(w, commitTS).
             case w of
               None \<Rightarrow> Inr 0
             | Some w \<Rightarrow> if write_WriteType w \<noteq> WriteTypeRollback then Inr commitTS else Inr 0) in
       case lock of
         None \<Rightarrow> noLock
       | Some l \<Rightarrow>
           if lock_StartTS l = startTS
           then (if \<not> lock_UseAsyncCommit l then Inr 0 else Inr (lock_MinCommitTS l))
           else noLock)"

record OnePCProps =
  op_StartTS :: TimeStamp
  op_CommitTS :: TimeStamp
  op_Primary :: bytes
  op_LockTTL :: u64

definition mutationOpToWriteType :: "TxnMutationOp \<Rightarrow> WriteType" where
  "mutationOpToWriteType op =
     (case op of
        MutationOpPut \<Rightarrow> WriteTypePut
      | MutationOpDelete \<Rightarrow> WriteTypeDelete
      | MutationOpLock \<Rightarrow> WriteTypeLock)"

text \<open>The conflict check of one mutation; it looks at the newest write record only.\<close>

definition newestConflict :: "store \<Rightarrow> bytes \<Rightarrow> TimeStamp \<Rightarrow> txn_error + unit" where
  "newestConflict snap key ts =
     res_bind (lift_err (SeekWrite snap key TSMax)) (\<lambda>(w, commitTS).
       case w of
         None \<Rightarrow> Inr ()
       | Some w \<Rightarrow>
           if ts < commitTS \<and> write_WriteType w \<noteq> WriteTypeRollback \<and> write_WriteType w \<noteq> WriteTypeLock
           then Inl ErrWriteConflict else Inr ())"

definition check1PC :: "store \<Rightarrow> OnePCProps \<Rightarrow> TxnMutation \<Rightarrow> txn_error option" where
  "check1PC snap props mut =
     (case res_bind (lift_err (LoadLock snap (tm_Key mut))) (\<lambda>existingLock.
             case existingLock of
               Some l \<Rightarrow>
                 if lock_StartTS l \<noteq> op_StartTS props then Inl ErrKeyIsLocked
                 else newestConflict snap (tm_Key mut) (op_StartTS props)
             | None \<Rightarrow> newestConflict snap (tm_Key mut) (op_StartTS props)) of
        Inl e \<Rightarrow> Some e
      | Inr _ \<Rightarrow> None)"

definition write1PC :: "OnePCProps \<Rightarrow> TxnMutation \<Rightarrow> MvccTxn \<Rightarrow> MvccTxn" where
  "write1PC props mut txn =
     (let key = tm_Key mut;
          w = Write_zero\<lparr>write_WriteType := mutationOpToWriteType (tm_Op mut),
                write_StartTS := op_StartTS props\<rparr> in
      case tm_Value mut of
        None \<Rightarrow> PutWrite key (op_CommitTS props) w txn
      | Some x \<Rightarrow>
          if length x \<le> ShortValueMaxLen
          then PutWrite key (op_CommitTS props) (w\<lparr>write_ShortValue := Some x\<rparr>) txn
          else if tm_Op mut = MutationOpPut
          then PutWrite key (op_CommitTS props) w (PutValue key (op_StartTS props) x txn)
          else PutWrite key (op_CommitTS props) w txn)"

definition PrewriteAndCommit1PC ::
  "MvccTxn \<Rightarrow> store \<Rightarrow> OnePCProps \<Rightarrow> TxnMutation list \<Rightarrow> txn_error option list \<times> MvccTxn"
where
  "PrewriteAndCommit1PC txn snap props mutations =
     (let errs = map (check1PC snap props) mutations in
      if list_ex (\<lambda>e. e \<noteq> None) errs then (errs, txn)
      else (errs, fold (write1PC props) mutations txn))"

definition value_len :: "bytes option \<Rightarrow> int" where
  "value_len v = int (length (slice_bytes v))"

definition Is1PCEligible :: "TxnMutation list \<Rightarrow> int \<Rightarrow> bool" where
  "Is1PCEligible mutations maxSize =
     (if length mutations = 0 then False
      else
        let maxSize = (if maxSize \<le> 0 then 64 else maxSize) in
        if maxSize < int (length mutations) then False
        else
          let totalSize = foldl (\<lambda>t m. t + int (length (tm_Key m)) + value_len (tm_Value m)) 0 mutations in
          totalSize < 256 * 1024)"

definition IsAsyncCommitEligible :: "TxnMutation list \<Rightarrow> int \<Rightarrow> bool" where
  "IsAsyncCommitEligible mutations maxKeys =
     (if length mutations = 0 then False
      else let maxKeys = (if maxKeys \<le> 0 then 256 else maxKeys) in int (length mutations) \<le> maxKeys)"

subsection \<open>pessimistic.go\<close>

record PessimisticLockProps =
  pl_StartTS :: TimeStamp
  pl_ForUpdateTS :: TimeStamp
  pl_Primary :: bytes
  pl_LockTTL :: u64
  pl_WaitTimeout :: u64

definition AcquirePessimisticLock ::
  "MvccTxn \<Rightarrow> store \<Rightarrow> PessimisticLockProps \<Rightarrow> bytes \<Rightarrow> txn_error + MvccTxn"
where
  "AcquirePessimisticLock txn snap props key =
     res_bind (lift_err (LoadLock snap key)) (\<lambda>existingLock.
       case existingLock of
         Some l \<Rightarrow>
           if lock_StartTS l = pl_StartTS props then
             (if lock_LockType l = LockTypePessimistic \<and> lock_ForUpdateTS l < pl_ForUpdateTS props
              then Inr (PutLock key (l\<lparr>lock_ForUpdateTS := pl_ForUpdateTS props\<rparr>) txn)
              else Inr txn)
           else Inl ErrKeyIsLocked
       | None \<Rightarrow>
           res_bind (newestConflict snap key (pl_ForUpdateTS props)) (\<lambda>_.
             Inr (PutLock key
               (Lock_zero\<lparr>lock_LockType := LockTypePessimistic, lock_Primary := pl_Primary props,
                  lock_StartTS := pl_StartTS props, lock_TTL := pl_LockTTL props,
                  lock_ForUpdateTS := pl_ForUpdateTS props\<rparr>) txn)))"

record PessimisticPrewriteProps = PrewriteProps +
  ppp_ForUpdateTS :: TimeStamp
  ppp_IsPessimistic :: bool

definition pessimisticPrewriteLock :: "PessimisticPrewriteProps \<Rightarrow> TxnMutation \<Rightarrow> Lock" where
  "pessimisticPrewriteLock props mut =
     inlineShort (tm_Value mut)
       (Lock_zero\<lparr>lock_LockType := mutationOpToLockType (tm_Op mut), lock_Primary := pp_Primary props,
          lock_StartTS := pp_StartTS props, lock_TTL := pp_LockTTL props,
          lock_ForUpdateTS := ppp_ForUpdateTS props\<rparr>)"

definition PrewritePessimistic ::
  "MvccTxn \<Rightarrow> store \<Rightarrow> PessimisticPrewriteProps \<Rightarrow> TxnMutation \<Rightarrow> txn_error + MvccTxn"
where
  "PrewritePessimistic txn snap props mut =
     (let key = tm_Key mut;
          finish = (\<lambda>txn. Inr (putLarge (pp_StartTS props) mut
                                (PutLock key (pessimisticPrewriteLock props mut) txn))) in
      res_bind (lift_err (LoadLock snap key)) (\<lambda>existingLock.
        case existingLock of
          Some l \<Rightarrow>
            if lock_StartTS l \<noteq> pp_StartTS props then Inl ErrKeyIsLocked
            else if lock_LockType l \<noteq> LockTypePessimistic then Inr txn
            else finish (snd (UnlockKey key True txn))
        | None \<Rightarrow>
            if ppp_IsPessimistic props then Inl ErrTxnLockNotFound
            else res_bind (newestConflict snap key (pp_StartTS props)) (\<lambda>_. finish txn)))"

definition pessimisticRollback1 ::
  "store \<Rightarrow> TimeStamp \<Rightarrow> TimeStamp \<Rightarrow> bytes \<Rightarrow> txn_error option list \<times> MvccTxn \<Rightarrow> txn_error option list \<times> MvccTxn"
where
  "pessimisticRollback1 snap startTS forUpdateTS key acc =
     (let (errs, txn) = acc in
      case LoadLock snap key of
        Inl e \<Rightarrow> (errs @ [Some (TxnErr e)], txn)
      | Inr None \<Rightarrow> (errs @ [None], txn)
      | Inr (Some l) \<Rightarrow>
          if lock_StartTS l \<noteq> startTS then (errs @ [None], txn)
          else if lock_LockType l \<noteq> LockTypePessimistic then (errs @ [None], txn)
          else if forUpdateTS \<noteq> 0 \<and> lock_ForUpdateTS l \<noteq> forUpdateTS then (errs @ [None], txn)
          else (errs @ [None], snd (UnlockKey key True txn)))"

definition PessimisticRollback ::
  "MvccTxn \<Rightarrow> store \<Rightarrow> bytes list \<Rightarrow> TimeStamp \<Rightarrow> TimeStamp \<Rightarrow> txn_error option list \<times> MvccTxn"
where
  "PessimisticRollback txn snap keys startTS forUpdateTS =
     fold (pessimisticRollback1 snap startTS forUpdateTS) keys ([], txn)"

subsection \<open>Conflict detection\<close>

lemma lift_err_simps [simp]: "lift_err (Inl e) = Inl (TxnErr e)" "lift_err (Inr x) = Inr x"
  by (simp_all add: lift_err_def)

text \<open>The records newer than a timestamp, newest first.\<close>

definition newer_than :: "TimeStamp \<Rightarrow> version list \<Rightarrow> version list" where
  "newer_than ts vs = filter (\<lambda>v. ts < fst v) vs"

definition has_data :: "version list \<Rightarrow> bool" where
  "has_data vs \<longleftrightarrow> list_ex (\<lambda>v. \<not> no_data (snd v)) vs"

lemma le_Prev_ts: "c \<noteq> 0 \<Longrightarrow> x \<le> Prev_ts c \<longleftrightarrow> x < c"
proof -
  assume c: "c \<noteq> 0"
  then have "unat (c - 1) = unat c - 1" "0 < unat c" by (simp_all add: unat_minus_one unat_gt_0)
  then show ?thesis using c by (auto simp: Prev_ts_def TSZero_def word_le_nat_alt word_less_nat_alt)
qed

lemma filter_below_head:
  assumes "sorted_wrt newer vs" "filter (\<lambda>v. fst v \<le> t) vs = (c, w) # rest" "c \<noteq> 0"
  shows "filter (\<lambda>v. fst v \<le> Prev_ts c) vs = rest"
proof -
  have "(c, w) \<in> set (filter (\<lambda>v. fst v \<le> t) vs)" by (simp only: assms(2) list.set_intros)
  then have ct: "c \<le> t" by simp
  have "sorted_wrt newer ((c, w) # rest)"
    using sorted_wrt_filter [OF assms(1), of "\<lambda>v. fst v \<le> t"] assms(2) by simp
  then have rest: "\<forall>v \<in> set rest. fst v < c" by simp
  have "filter (\<lambda>v. fst v \<le> Prev_ts c) vs = filter (\<lambda>v. fst v < c) vs"
    using assms(3) by (simp add: le_Prev_ts)
  also have "\<dots> = filter (\<lambda>v. fst v < c) (filter (\<lambda>v. fst v \<le> t) vs)"
    unfolding filter_filter using ct by (intro filter_cong) auto
  also have "\<dots> = rest" using rest by (simp add: assms(2) filter_id_conv)
  finally show ?thesis .
qed

lemma conflict_loop_versions:
  assumes "mvcc_ok snap"
  shows "conflict_loop n snap key s t =
    (if has_data (take n (newer_than s (filter (\<lambda>v. fst v \<le> t) (st_versions snap key))))
     then Inl ErrWriteConflict else Inr ())"
proof (induction n arbitrary: t)
  case 0
  then show ?case by (simp add: has_data_def)
next
  case (Suc n)
  let ?vs = "st_versions snap key"
  have sorted: "sorted_wrt newer ?vs" by (rule st_versions_newest_first [OF assms])
  have seek: "SeekWrite snap key t = Inr (newest (filter (\<lambda>v. fst v \<le> t) ?vs))"
    by (rule SeekWrite_st [OF assms])
  show ?case
  proof (cases "filter (\<lambda>v. fst v \<le> t) ?vs")
    case Nil
    with seek show ?thesis by (simp add: newest_def newer_than_def has_data_def)
  next
    case (Cons v rest)
    obtain c w where v: "v = (c, w)" by (cases v)
    have below: "\<forall>v' \<in> set rest. fst v' < c"
      using sorted_wrt_filter [OF sorted, of "\<lambda>v. fst v \<le> t"] Cons v by simp
    show ?thesis
    proof (cases "c \<le> s")
      case True
      then have "newer_than s ((c, w) # rest) = []" using below by (auto simp: newer_than_def filter_empty_conv)
      with True Cons v seek show ?thesis by (simp add: newest_def has_data_def)
    next
      case False
      then have "c \<noteq> 0" by auto
      with Cons v have "filter (\<lambda>v. fst v \<le> Prev_ts c) ?vs = rest"
        by (intro filter_below_head [OF sorted]) auto
      with False Cons v seek Suc.IH [of "Prev_ts c"] show ?thesis
        by (auto simp: newest_def newer_than_def has_data_def no_data_def not_le)
    qed
  qed
qed

lemma filter_TSMax [simp]: "filter (\<lambda>v. fst v \<le> TSMax) vs = vs"
  by (simp add: TSMax_def)

text \<open>The records a prewrite looks at: the 64 newest that are newer than its start.\<close>

definition conflicts :: "TimeStamp \<Rightarrow> version list \<Rightarrow> bool" where
  "conflicts s vs \<longleftrightarrow> has_data (take (SeekBound * 2) (newer_than s vs))"

lemma conflicts_exact:
  "length (newer_than s vs) \<le> SeekBound * 2 \<Longrightarrow> conflicts s vs \<longleftrightarrow> has_data (newer_than s vs)"
  by (simp add: conflicts_def)

lemma conflict_loop_st:
  "mvcc_ok snap \<Longrightarrow> conflict_loop (SeekBound * 2) snap key s TSMax =
    (if conflicts s (st_versions snap key) then Inl ErrWriteConflict else Inr ())"
  by (simp add: conflict_loop_versions conflicts_def)

lemma newestConflict_st:
  "mvcc_ok snap \<Longrightarrow> newestConflict snap key s =
    (if has_data (newer_than s (take 1 (st_versions snap key))) then Inl ErrWriteConflict else Inr ())"
  by (auto simp: newestConflict_def SeekWrite_st newest_def newer_than_def has_data_def no_data_def
      split: list.splits)

subsection \<open>The actions on the MVCC view\<close>

text \<open>What a prewrite adds to the store.\<close>

definition put_prewrite :: "Lock \<Rightarrow> TimeStamp \<Rightarrow> TxnMutation \<Rightarrow> store \<Rightarrow> store" where
  "put_prewrite l s mut st =
     (case tm_Value mut of
        None \<Rightarrow> put_lock (tm_Key mut) l st
      | Some x \<Rightarrow>
          if tm_Op mut = MutationOpPut \<and> ShortValueMaxLen < length x
          then put_value (tm_Key mut) s x (put_lock (tm_Key mut) l st)
          else put_lock (tm_Key mut) l st)"

lemma txn_apply_putLarge [simp]:
  "txn_apply (putLarge s mut (PutLock (tm_Key mut) l txn)) st = put_prewrite l s mut (txn_apply txn st)"
  by (simp add: putLarge_def put_prewrite_def split: option.splits)

lemma txn_known_putLarge [simp]: "txn_known (putLarge s mut txn) \<longleftrightarrow> txn_known txn"
  by (simp add: putLarge_def split: option.splits)

lemma Prewrite_st:
  assumes "mvcc_ok snap"
  shows "Prewrite txn snap props mut =
    (case st_lock snap (tm_Key mut) of
       Some l \<Rightarrow> if lock_StartTS l = pp_StartTS props then Inr txn else Inl (KeyLockedError (tm_Key mut) l)
     | None \<Rightarrow>
         if conflicts (pp_StartTS props) (st_versions snap (tm_Key mut)) then Inl ErrWriteConflict
         else Inr (putLarge (pp_StartTS props) mut (PutLock (tm_Key mut) (prewriteLock props mut) txn)))"
  using assms by (simp add: Prewrite_def LoadLock_st_lock conflict_loop_st split: option.splits)

lemma Commit_st:
  assumes "mvcc_ok snap"
  shows "Commit txn snap key s c =
    (case st_lock snap key of
       None \<Rightarrow> Inl ErrTxnLockNotFound
     | Some l \<Rightarrow>
         if lock_StartTS l \<noteq> s then Inl ErrTxnLockNotFound
         else if c < lock_MinCommitTS l then Inl ErrCommitTSTooSmall
         else if lock_LockType l = LockTypePessimistic then Inr (snd (UnlockKey key True txn))
         else Inr (PutWrite key c
                (Write_zero\<lparr>write_WriteType := lockTypeToWriteType (lock_LockType l),
                   write_StartTS := lock_StartTS l, write_ShortValue := lock_ShortValue l\<rparr>)
                (snd (UnlockKey key False txn))))"
  using assms by (simp add: Commit_def LoadLock_st_lock Let_def split: option.splits)

lemma Rollback_st:
  assumes "mvcc_ok snap"
  shows "Rollback txn snap key s =
    (case fst (commit_record s (st_versions snap key)) of
       Some w \<Rightarrow> if write_WriteType w \<noteq> WriteTypeRollback then Inl ErrAlreadyCommitted else Inr txn
     | None \<Rightarrow>
         Inr (PutWrite key s (rollbackWrite s)
           (case st_lock snap key of
              Some l \<Rightarrow> if lock_StartTS l = s then dropLock key s l txn else txn
            | None \<Rightarrow> txn)))"
  using assms
  by (simp add: Rollback_def LoadLock_st_lock GetTxnCommitRecord_st Let_def split: option.splits prod.splits)

text \<open>The store after the lock of a transaction is dropped.\<close>

definition drop_lock :: "bytes \<Rightarrow> TimeStamp \<Rightarrow> Lock \<Rightarrow> store \<Rightarrow> store" where
  "drop_lock key s l st =
     (if lock_ShortValue l = None \<and> lock_LockType l = LockTypePut
      then del_value key s (del_lock key st) else del_lock key st)"

lemma txn_apply_dropLock [simp]:
  "txn_apply (dropLock key s l txn) st = drop_lock key s l (txn_apply txn st)"
  by (simp add: dropLock_def drop_lock_def Let_def)

lemma txn_known_dropLock [simp]: "txn_known (dropLock key s l txn) \<longleftrightarrow> txn_known txn"
  by (simp add: dropLock_def Let_def)

lemma drop_lock_view [mvcc_view]:
  "mvcc_ok st \<Longrightarrow> mvcc_ok (drop_lock key s l st)"
  "st_lock (drop_lock key s l st) key' = (if key' = key then None else st_lock st key')"
  "st_versions (drop_lock key s l st) key' = st_versions st key'"
  "st_value (drop_lock key s l st) key' c =
     (if key' = key \<and> c = s \<and> lock_ShortValue l = None \<and> lock_LockType l = LockTypePut
      then None else st_value st key' c)"
  by (simp_all add: drop_lock_def mvcc_view)

lemma rollbackWrite_simps [simp]:
  "write_sizes_ok (rollbackWrite s)" "normWrite (rollbackWrite s) = rollbackWrite s"
  "write_StartTS (rollbackWrite s) = s" "write_WriteType (rollbackWrite s) = WriteTypeRollback"
  "no_data (rollbackWrite s)"
  by (simp_all add: rollbackWrite_def write_sizes_ok_def normWrite_fixed Write_zero_def
      LastChange_zero_def no_data_def)

lemma CheckTxnStatus_st:
  assumes "mvcc_ok snap"
  shows "CheckTxnStatus snap key s =
    Inr (case st_lock snap key of
       Some l \<Rightarrow>
         if lock_StartTS l = s then TxnStatus_zero\<lparr>ts_IsLocked := True, ts_Lock := Some l\<rparr>
         else (case statusOfWrite (commit_record s (st_versions snap key)) of Some r \<Rightarrow> r | None \<Rightarrow> TxnStatus_zero)
     | None \<Rightarrow>
         (case statusOfWrite (commit_record s (st_versions snap key)) of Some r \<Rightarrow> r | None \<Rightarrow> TxnStatus_zero))"
  using assms
  by (simp add: CheckTxnStatus_def LoadLock_st_lock GetTxnCommitRecord_st split: option.splits)

lemma ResolveLock_st:
  assumes "mvcc_ok snap"
  shows "ResolveLock txn snap key s c =
    (case st_lock snap key of
       None \<Rightarrow> Inr txn
     | Some l \<Rightarrow>
         if lock_StartTS l \<noteq> s then Inr txn
         else if 0 < c then Commit txn snap key s c else Rollback txn snap key s)"
  using assms by (simp add: ResolveLock_def LoadLock_st_lock split: option.splits)

end
