(* ===== verification/TxnProperties.thy ===== *)
theory TxnProperties
  imports TxnActions
begin

unbundle bit_operations_syntax

section \<open>Properties of the Percolator actions\<close>

text \<open>
  The properties of package txn on the MVCC view: which outcome each action has, what the
  store looks like after its modifications are applied, and how the actions of one
  transaction on one key follow each other.
\<close>

subsection \<open>Running one action\<close>

text \<open>The modifications of a successful action are applied as one batch.\<close>

definition run_action :: "txn_error + MvccTxn \<Rightarrow> store \<Rightarrow> txn_error + store" where
  "run_action r st = res_bind r (\<lambda>txn. lift_err (ApplyModifies (txn_Modifies txn) st))"

lemma run_action_simps [simp]:
  "run_action (Inl e) st = Inl e"
  "txn_known txn \<Longrightarrow> run_action (Inr txn) st = Inr (txn_apply txn st)"
  by (simp_all add: run_action_def ApplyModifies_txn)

lemma run_action_if [simp]: "run_action (if b then x else y) st = (if b then run_action x st else run_action y st)"
  by simp

text \<open>The write record a commit produces from a lock.\<close>

definition commit_write :: "Lock \<Rightarrow> Write" where
  "commit_write l = Write_zero\<lparr>write_WriteType := lockTypeToWriteType (lock_LockType l),
     write_StartTS := lock_StartTS l, write_ShortValue := lock_ShortValue l\<rparr>"

lemma commit_write_sizes: "lock_sizes_ok l \<Longrightarrow> write_sizes_ok (commit_write l)"
  by (simp add: lock_sizes_ok_def write_sizes_ok_def commit_write_def)

lemma commit_write_fields [simp]:
  "write_WriteType (normWrite (commit_write l)) = lockTypeToWriteType (lock_LockType l)"
  "write_StartTS (normWrite (commit_write l)) = lock_StartTS l"
  "write_ShortValue (normWrite (commit_write l)) = normSlice (lock_ShortValue l)"
  "lc_TS (write_LastChange (normWrite (commit_write l))) = 0"
  by (simp_all add: commit_write_def normWrite_def Write_zero_def LastChange_zero_def normLastChange_def)

lemma lockTypeToWriteType_neq_Rollback [simp]: "lockTypeToWriteType t \<noteq> WriteTypeRollback"
  by (simp add: lockTypeToWriteType_def write_types)

lemma run_Prewrite:
  assumes "mvcc_ok st"
  shows "run_action (Prewrite (NewMvccTxn s) st props mut) st =
    (case st_lock st (tm_Key mut) of
       Some l \<Rightarrow> if lock_StartTS l = pp_StartTS props then Inr st else Inl (KeyLockedError (tm_Key mut) l)
     | None \<Rightarrow>
         if conflicts (pp_StartTS props) (st_versions st (tm_Key mut)) then Inl ErrWriteConflict
         else Inr (put_prewrite (prewriteLock props mut) (pp_StartTS props) mut st))"
  using assms by (simp add: Prewrite_st split: option.splits)

lemma run_Commit:
  assumes "mvcc_ok st"
  shows "run_action (Commit (NewMvccTxn s) st key s c) st =
    (case st_lock st key of
       None \<Rightarrow> Inl ErrTxnLockNotFound
     | Some l \<Rightarrow>
         if lock_StartTS l \<noteq> s then Inl ErrTxnLockNotFound
         else if c < lock_MinCommitTS l then Inl ErrCommitTSTooSmall
         else if lock_LockType l = LockTypePessimistic then Inr (del_lock key st)
         else Inr (put_write key c (commit_write l) (del_lock key st)))"
  using assms by (auto simp: Commit_st commit_write_def split: option.splits)

text \<open>The store after a transaction that has no record on a key is rolled back there.\<close>

definition roll_back :: "bytes \<Rightarrow> TimeStamp \<Rightarrow> store \<Rightarrow> store" where
  "roll_back key s st = put_write key s (rollbackWrite s)
     (case st_lock st key of
        Some l \<Rightarrow> if lock_StartTS l = s then drop_lock key s l st else st
      | None \<Rightarrow> st)"

lemma run_Rollback:
  assumes "mvcc_ok st"
  shows "run_action (Rollback (NewMvccTxn s) st key s) st =
    (case fst (commit_record s (st_versions st key)) of
       Some w \<Rightarrow> if write_WriteType w \<noteq> WriteTypeRollback then Inl ErrAlreadyCommitted else Inr st
     | None \<Rightarrow> Inr (roll_back key s st))"
  using assms by (simp add: Rollback_st roll_back_def split: option.splits)

lemma roll_back_view [mvcc_view]:
  assumes "mvcc_ok st"
  shows "mvcc_ok (roll_back key s st)"
    "st_versions (roll_back key s st) key' =
       (if key' = key then ver_put s (rollbackWrite s) (st_versions st key) else st_versions st key')"
    "key' \<noteq> key \<Longrightarrow> st_lock (roll_back key s st) key' = st_lock st key'"
    "st_lock (roll_back key s st) key =
       (case st_lock st key of None \<Rightarrow> None | Some l \<Rightarrow> if lock_StartTS l = s then None else Some l)"
  using assms by (auto simp: roll_back_def mvcc_view split: option.splits)

text \<open>Commit timestamps are not below start timestamps, and no record carries a last-change
  pointer: what every record the actions write satisfies.\<close>

definition plain_versions :: "version list \<Rightarrow> bool" where
  "plain_versions vs \<longleftrightarrow> list_all (\<lambda>v. write_StartTS (snd v) \<le> fst v \<and> lc_TS (write_LastChange (snd v)) = 0) vs"

lemma plain_last_change_ok: "plain_versions vs \<Longrightarrow> last_change_ok vs"
  by (auto simp: plain_versions_def last_change_ok_def jumps_def IsZero_def TSZero_def list_all_iff)

lemma plain_ver_put:
  "plain_versions vs \<Longrightarrow> write_StartTS w \<le> c \<Longrightarrow> lc_TS (write_LastChange w) = 0 \<Longrightarrow> plain_versions (ver_put c w vs)"
  by (auto simp: plain_versions_def ver_put_def list_all_iff)

lemma plain_filter: "plain_versions vs \<Longrightarrow> plain_versions (filter P vs)"
  by (auto simp: plain_versions_def list_all_iff)

lemma plain_commit_record:
  assumes "plain_versions vs" "sorted_wrt newer vs"
  shows "commit_record s vs =
    (case find (\<lambda>v. write_StartTS (snd v) = s) vs of None \<Rightarrow> (None, 0) | Some (c, w) \<Rightarrow> (Some w, c))"
  using assms by (intro commit_record_find) (auto simp: plain_versions_def list_all_iff)

lemma commit_record_None_iff:
  assumes "plain_versions vs" "sorted_wrt newer vs"
  shows "fst (commit_record s vs) = None \<longleftrightarrow> (\<forall>v \<in> set vs. write_StartTS (snd v) \<noteq> s)"
proof -
  have "fst (commit_record s vs) = None \<longleftrightarrow> find (\<lambda>v. write_StartTS (snd v) = s) vs = None"
    unfolding plain_commit_record [OF assms] by (simp split: option.splits)
  then show ?thesis unfolding find_None_iff by blast
qed

lemma commit_record_ver_put:
  assumes "plain_versions vs" "sorted_wrt newer vs" "fst (commit_record s vs) = None"
    and "write_StartTS w = s" "s \<le> c" "lc_TS (write_LastChange w) = 0"
  shows "commit_record s (ver_put c w vs) = (Some w, c)"
proof -
  have none: "\<forall>v \<in> set vs. write_StartTS (snd v) \<noteq> s"
    using assms(1-3) commit_record_None_iff by blast
  have "plain_versions (ver_put c w vs)" using assms by (intro plain_ver_put) auto
  moreover have "sorted_wrt newer (ver_put c w vs)" using assms(2) by (rule ver_put_newest_first)
  moreover have "find (\<lambda>v. write_StartTS (snd v) = s) (ver_put c w vs) = Some (c, w)"
  proof -
    have "find (\<lambda>v. write_StartTS (snd v) = s) (xs @ (c, w) # ys) = Some (c, w)"
      if "\<forall>v \<in> set xs. write_StartTS (snd v) \<noteq> s" for xs ys
      using that assms(4) by (induction xs) auto
    then show ?thesis unfolding ver_put_def using none by simp
  qed
  ultimately show ?thesis by (simp add: plain_commit_record)
qed

lemma inlineShort_fields [simp]:
  "lock_LockType (inlineShort v l) = lock_LockType l" "lock_Primary (inlineShort v l) = lock_Primary l"
  "lock_StartTS (inlineShort v l) = lock_StartTS l" "lock_TTL (inlineShort v l) = lock_TTL l"
  "lock_ForUpdateTS (inlineShort v l) = lock_ForUpdateTS l"
  "lock_MinCommitTS (inlineShort v l) = lock_MinCommitTS l"
  "lock_UseAsyncCommit (inlineShort v l) = lock_UseAsyncCommit l"
  "lock_Secondaries (inlineShort v l) = lock_Secondaries l"
  "lock_RollbackTS (inlineShort v l) = lock_RollbackTS l"
  "lock_LastChange (inlineShort v l) = lock_LastChange l"
  by (simp_all add: inlineShort_def split: option.splits)

lemma inlineShort_value:
  "lock_ShortValue l = None \<Longrightarrow>
     lock_ShortValue (inlineShort v l) =
       (case v of None \<Rightarrow> None | Some x \<Rightarrow> if length x \<le> ShortValueMaxLen then Some x else None)"
  by (simp add: inlineShort_def split: option.splits)

lemma inlineShort_sizes: "lock_sizes_ok l \<Longrightarrow> lock_sizes_ok (inlineShort v l)"
  by (simp add: lock_sizes_ok_def inlineShort_def split: option.splits)

lemma Lock_zero_fields [simp]:
  "lock_ShortValue Lock_zero = None" "lock_MinCommitTS Lock_zero = 0" "lock_UseAsyncCommit Lock_zero = False"
  "lock_Secondaries Lock_zero = []" "lock_RollbackTS Lock_zero = []"
  "lock_LastChange Lock_zero = LastChange_zero" "lock_ForUpdateTS Lock_zero = 0"
  by (simp_all add: Lock_zero_def)

lemma normLock_fields [simp]:
  "lock_LockType (normLock l) = lock_LockType l" "lock_StartTS (normLock l) = lock_StartTS l"
  "lock_Primary (normLock l) = lock_Primary l" "lock_TTL (normLock l) = lock_TTL l"
  "lock_MinCommitTS (normLock l) = lock_MinCommitTS l" "lock_ForUpdateTS (normLock l) = lock_ForUpdateTS l"
  "lock_UseAsyncCommit (normLock l) = lock_UseAsyncCommit l"
  "lock_ShortValue (normLock l) = normSlice (lock_ShortValue l)"
  by (simp_all add: normLock_def)

lemma prewriteLock_sizes: "length (pp_Primary props) < 2 ^ 64 \<Longrightarrow> lock_sizes_ok (prewriteLock props mut)"
  unfolding prewriteLock_def
  by (rule inlineShort_sizes) (simp add: lock_sizes_ok_def maxAlloc_def)

lemma prewriteLock_fields [simp]:
  "lock_StartTS (prewriteLock props mut) = pp_StartTS props"
  "lock_LockType (prewriteLock props mut) = mutationOpToLockType (tm_Op mut)"
  "lock_Primary (prewriteLock props mut) = pp_Primary props"
  "lock_MinCommitTS (prewriteLock props mut) = 0"
  by (simp_all add: prewriteLock_def)

lemma prewriteLock_ShortValue:
  "lock_ShortValue (prewriteLock props mut) =
     (case tm_Value mut of None \<Rightarrow> None | Some x \<Rightarrow> if length x \<le> ShortValueMaxLen then Some x else None)"
  by (simp add: prewriteLock_def inlineShort_value)

lemma put_prewrite_view [mvcc_view]:
  assumes "mvcc_ok st" "lock_sizes_ok l"
  shows "mvcc_ok (put_prewrite l s mut st)"
    "st_lock (put_prewrite l s mut st) key = (if key = tm_Key mut then Some (normLock l) else st_lock st key)"
    "st_versions (put_prewrite l s mut st) key = st_versions st key"
    "st_value (put_prewrite l s mut st) key c =
       (if key = tm_Key mut \<and> c = s \<and> tm_Op mut = MutationOpPut \<and> ShortValueMaxLen < length (slice_bytes (tm_Value mut))
        then tm_Value mut else st_value st key c)"
  using assms by (auto simp: put_prewrite_def mvcc_view split: option.splits)

lemma op_types [simp]:
  "mutationOpToLockType op \<noteq> LockTypePessimistic"
  "lockTypeToWriteType (mutationOpToLockType op) = mutationOpToWriteType op"
  by (cases op; simp add: mutationOpToLockType_def mutationOpToWriteType_def lockTypeToWriteType_def lock_types)+

subsection \<open>Prewrite, commit and rollback\<close>

text \<open>C2: A prewrite detects conflicts exactly. On a key without a lock it fails with a
  write conflict if and only if the key has a data record committed after the start of the
  transaction, provided at most 64 records are newer; a lock of another transaction is
  reported, the own lock makes the prewrite a no-op, and otherwise the new lock and a large
  value are written.\<close>

theorem Prewrite_outcome:
  assumes "mvcc_ok st"
    and "length (newer_than (pp_StartTS props) (st_versions st (tm_Key mut))) \<le> 64"
  shows "run_action (Prewrite (NewMvccTxn s) st props mut) st =
    (case st_lock st (tm_Key mut) of
       Some l \<Rightarrow> if lock_StartTS l = pp_StartTS props then Inr st else Inl (KeyLockedError (tm_Key mut) l)
     | None \<Rightarrow>
         if has_data (newer_than (pp_StartTS props) (st_versions st (tm_Key mut))) then Inl ErrWriteConflict
         else Inr (put_prewrite (prewriteLock props mut) (pp_StartTS props) mut st))"
  using assms conflicts_exact [of "pp_StartTS props" "st_versions st (tm_Key mut)"]
  by (simp add: run_Prewrite SeekBound_def split: option.splits)

definition sampleMut :: TxnMutation where
  "sampleMut = \<lparr>tm_Op = MutationOpPut, tm_Key = [1], tm_Value = Some [9]\<rparr>"

definition sampleProps :: "TimeStamp \<Rightarrow> PrewriteProps" where
  "sampleProps s = \<lparr>pp_StartTS = s, pp_Primary = [1], pp_LockTTL = 3000, pp_IsPrimary = True\<rparr>"

lemma sample_txn_fields [simp]:
  "pp_StartTS (sampleProps s) = s" "pp_Primary (sampleProps s) = [1]"
  "tm_Op sampleMut = MutationOpPut" "tm_Key sampleMut = [1]" "tm_Value sampleMut = Some [9]"
  "mutationOpToLockType MutationOpPut = LockTypePut"
  by (simp_all add: sampleProps_def sampleMut_def mutationOpToLockType_def)

theorem Prewrite_outcome_witness:
  "run_action (Prewrite (NewMvccTxn 7) sampleStore (sampleProps 7) sampleMut) sampleStore = Inl ErrWriteConflict \<and>
   run_action (Prewrite (NewMvccTxn 15) sampleStore (sampleProps 15) sampleMut) sampleStore =
     Inr (put_prewrite (prewriteLock (sampleProps 15) sampleMut) 15 sampleMut sampleStore)"
  using Prewrite_outcome [of sampleStore "sampleProps 7" sampleMut 7]
    Prewrite_outcome [of sampleStore "sampleProps 15" sampleMut 15]
  by (simp add: newer_than_def has_data_def)

text \<open>C3: A commit succeeds exactly when the key holds the lock of the transaction and the
  commit timestamp reaches the minimum the lock demands. It then removes the lock, adds one
  record at the commit timestamp with the type and the short value of the lock (none for a
  pessimistic lock), and leaves every other key and every large value as it was.\<close>

theorem Commit_outcome:
  assumes "mvcc_ok st"
  shows "((\<exists>st'. run_action (Commit (NewMvccTxn s) st key s c) st = Inr st') \<longleftrightarrow>
      (\<exists>l. st_lock st key = Some l \<and> lock_StartTS l = s \<and> lock_MinCommitTS l \<le> c)) \<and>
    (\<forall>st' l. run_action (Commit (NewMvccTxn s) st key s c) st = Inr st' \<longrightarrow> st_lock st key = Some l \<longrightarrow>
      mvcc_ok st' \<and> st_lock st' key = None \<and> st_value st' = st_value st \<and>
      (\<forall>k. k \<noteq> key \<longrightarrow> st_lock st' k = st_lock st k \<and> st_versions st' k = st_versions st k) \<and>
      st_versions st' key =
        (if lock_LockType l = LockTypePessimistic then st_versions st key
         else ver_put c (normWrite (commit_write l)) (st_versions st key)))"
proof (intro conjI allI impI)
  show "(\<exists>st'. run_action (Commit (NewMvccTxn s) st key s c) st = Inr st') \<longleftrightarrow>
      (\<exists>l. st_lock st key = Some l \<and> lock_StartTS l = s \<and> lock_MinCommitTS l \<le> c)"
    using assms by (auto simp: run_Commit split: option.splits if_splits)
next
  fix st' l
  assume run: "run_action (Commit (NewMvccTxn s) st key s c) st = Inr st'" and l: "st_lock st key = Some l"
  then have st': "st' = (if lock_LockType l = LockTypePessimistic then del_lock key st
      else put_write key c (commit_write l) (del_lock key st))"
    using assms by (simp add: run_Commit split: if_splits)
  have size: "write_sizes_ok (commit_write l)" using l by (simp add: commit_write_sizes st_lock_sizes)
  show "mvcc_ok st'" "st_lock st' key = None" "st_value st' = st_value st"
    "st_versions st' key = (if lock_LockType l = LockTypePessimistic then st_versions st key
         else ver_put c (normWrite (commit_write l)) (st_versions st key))"
    using assms size by (auto simp: st' mvcc_view fun_eq_iff)
  fix k assume "k \<noteq> key"
  then show "st_lock st' k = st_lock st k" "st_versions st' k = st_versions st k"
    using assms size by (auto simp: st' mvcc_view)
qed

definition preparedStore :: store where
  "preparedStore = put_prewrite (prewriteLock (sampleProps 15) sampleMut) 15 sampleMut sampleStore"

lemma preparedStore_view [simp]:
  "mvcc_ok preparedStore"
  "st_lock preparedStore [1] = Some (normLock (prewriteLock (sampleProps 15) sampleMut))"
  "st_versions preparedStore [1] = [(30, sampleRollback), (10, samplePut)]"
  by (simp_all add: preparedStore_def mvcc_view prewriteLock_sizes)

theorem Commit_outcome_witness:
  "\<exists>st'. run_action (Commit (NewMvccTxn 15) preparedStore [1] 15 40) preparedStore = Inr st' \<and>
     st_lock st' [1] = None \<and> map fst (st_versions st' [1]) = [40, 30, 10]"
proof -
  obtain st' where run: "run_action (Commit (NewMvccTxn 15) preparedStore [1] 15 40) preparedStore = Inr st'"
    using Commit_outcome [of preparedStore 15 "[1]" 40] by auto
  then show ?thesis
    using Commit_outcome [of preparedStore 15 "[1]" 40] by (auto simp: ver_put_def lock_types)
qed

lemma data_version_ver_put:
  assumes "s \<notin> fst ` set vs" "no_data w" "sorted_wrt newer vs"
  shows "data_version (filter (\<lambda>v. fst v \<le> ts) (ver_put s w vs)) = data_version (filter (\<lambda>v. fst v \<le> ts) vs)"
proof -
  have split: "filter (\<lambda>v. s < fst v) vs @ filter (\<lambda>v. fst v < s) vs = vs"
  proof -
    have "takeWhile (\<lambda>v. s < fst v) vs = filter (\<lambda>v. s < fst v) vs"
      by (rule takeWhile_eq_filter [OF assms(3)]) auto
    moreover have "dropWhile (\<lambda>v. s < fst v) vs = filter (\<lambda>v. \<not> s < fst v) vs"
      by (rule dropWhile_eq_filter [OF assms(3)]) auto
    moreover have "filter (\<lambda>v. \<not> s < fst v) vs = filter (\<lambda>v. fst v < s) vs"
      using assms(1) by (intro filter_cong) (auto simp: not_less le_less)
    ultimately show ?thesis using takeWhile_dropWhile_id [of "\<lambda>v. s < fst v" vs] by simp
  qed
  have "data_version (filter (\<lambda>v. fst v \<noteq> s) (filter (\<lambda>v. fst v \<le> ts) (ver_put s w vs))) =
      data_version (filter (\<lambda>v. fst v \<le> ts) (ver_put s w vs))"
    using assms(1,2) by (intro data_version_skip) (auto simp: ver_put_def split: if_splits)
  moreover have "filter (\<lambda>v. fst v \<noteq> s) (ver_put s w vs) = vs"
  proof -
    have "filter (\<lambda>v. fst v \<noteq> s) (ver_put s w vs) =
        filter (\<lambda>v. s < fst v) vs @ filter (\<lambda>v. fst v < s) vs"
      by (auto simp: ver_put_def intro!: arg_cong2 [where f = append] filter_cong)
    with split show ?thesis by simp
  qed
  then have "filter (\<lambda>v. fst v \<noteq> s) (filter (\<lambda>v. fst v \<le> ts) (ver_put s w vs)) = filter (\<lambda>v. fst v \<le> ts) vs"
    by (metis (no_types, lifting) filter_filter filter_cong conj_commute)
  ultimately show ?thesis by simp
qed

lemma rollbackWrite_lc [simp]: "lc_TS (write_LastChange (rollbackWrite s)) = 0"
  by (simp add: rollbackWrite_def Write_zero_def LastChange_zero_def)

lemma rollback_record:
  assumes "mvcc_ok st" "plain_versions (st_versions st key)"
    and "fst (commit_record s (st_versions st key)) = None"
  shows "commit_record s (ver_put s (rollbackWrite s) (st_versions st key)) = (Some (rollbackWrite s), s)"
  using assms by (intro commit_record_ver_put st_versions_newest_first) auto


definition plainStore :: store where
  "plainStore = put_write [1] 10 samplePut empty_store"

lemma plainStore_view [simp]:
  "mvcc_ok plainStore" "st_versions plainStore [1] = [(10, samplePut)]" "st_lock plainStore k = None"
  "st_value plainStore k ts = None"
  by (simp_all add: plainStore_def mvcc_view ver_put_def)

lemma plain_sample [simp]: "plain_versions [(10, samplePut)]"
  by (simp add: plain_versions_def) (simp add: sample_defs)


text \<open>A rollback record does not stop a late prewrite of the same transaction. After the
  rollback of a transaction that has not yet prewritten the key, its prewrite still
  succeeds and takes the lock, because the conflict check ignores records at the start
  timestamp itself.\<close>

theorem late_prewrite_succeeds:
  assumes "mvcc_ok st" "st_lock st (tm_Key mut) = None"
    and "fst (commit_record (pp_StartTS props) (st_versions st (tm_Key mut))) = None"
    and "\<not> conflicts (pp_StartTS props) (st_versions st (tm_Key mut))"
  shows "run_action (Rollback (NewMvccTxn (pp_StartTS props)) st (tm_Key mut) (pp_StartTS props)) st =
      Inr (roll_back (tm_Key mut) (pp_StartTS props) st) \<and>
    run_action (Prewrite (NewMvccTxn (pp_StartTS props)) (roll_back (tm_Key mut) (pp_StartTS props) st) props mut)
        (roll_back (tm_Key mut) (pp_StartTS props) st) =
      Inr (put_prewrite (prewriteLock props mut) (pp_StartTS props) mut
             (roll_back (tm_Key mut) (pp_StartTS props) st))"
proof -
  have "newer_than s (ver_put s w vs) = newer_than s vs" for s w vs
    by (auto simp: newer_than_def ver_put_def filter_empty_conv)
  with assms show ?thesis
    by (simp add: run_Rollback run_Prewrite roll_back_view conflicts_def)
qed

theorem late_prewrite_succeeds_witness:
  "\<exists>st. run_action (Rollback (NewMvccTxn 20) plainStore [1] 20) plainStore = Inr st \<and>
     run_action (Prewrite (NewMvccTxn 20) st (sampleProps 20) sampleMut) st =
       Inr (put_prewrite (prewriteLock (sampleProps 20) sampleMut) 20 sampleMut st)"
  using late_prewrite_succeeds [of plainStore sampleMut "sampleProps 20"]
  by (simp add: conflicts_def newer_than_def has_data_def)

lemma commit_record_mem: "commit_record s vs = (Some w, c) \<Longrightarrow> (c, w) \<in> set vs \<and> write_StartTS w = s"
  by (induction vs) (auto split: if_splits)

definition own_lock :: "store \<Rightarrow> bytes \<Rightarrow> TimeStamp \<Rightarrow> Lock option" where
  "own_lock st key s =
     (case st_lock st key of Some l \<Rightarrow> if lock_StartTS l = s then Some l else None | None \<Rightarrow> None)"

definition record_status :: "TimeStamp \<Rightarrow> version list \<Rightarrow> TxnStatus" where
  "record_status s vs = (case statusOfWrite (commit_record s vs) of Some r \<Rightarrow> r | None \<Rightarrow> TxnStatus_zero)"

lemma CheckTxnStatus_own:
  "mvcc_ok st \<Longrightarrow> CheckTxnStatus st key s =
     Inr (case own_lock st key s of
            Some l \<Rightarrow> TxnStatus_zero\<lparr>ts_IsLocked := True, ts_Lock := Some l\<rparr>
          | None \<Rightarrow> record_status s (st_versions st key))"
  by (simp add: CheckTxnStatus_st own_lock_def record_status_def split: option.splits)

lemma CheckTxnStatusWithCleanup_own:
  "mvcc_ok st \<Longrightarrow> CheckTxnStatusWithCleanup txn st key s caller rb =
     Inr (case own_lock st key s of
            Some l \<Rightarrow>
              if IsExpired l caller
              then (TxnStatus_zero\<lparr>ts_IsRolledBack := True\<rparr>,
                    PutWrite key s (rollbackWrite s) (dropLock key s l txn))
              else (TxnStatus_zero\<lparr>ts_IsLocked := True, ts_Lock := Some l\<rparr>, txn)
          | None \<Rightarrow>
              (case statusOfWrite (commit_record s (st_versions st key)) of
                 Some r \<Rightarrow> (r, txn)
               | None \<Rightarrow>
                   if rb then (TxnStatus_zero\<lparr>ts_IsRolledBack := True\<rparr>, PutWrite key s (rollbackWrite s) txn)
                   else (TxnStatus_zero, txn)))"
  by (auto simp: CheckTxnStatusWithCleanup_def LoadLock_st_lock GetTxnCommitRecord_st own_lock_def Let_def
      IsExpired_def Physical_def TSLogicalBits_def split: option.splits)

lemma statusOfWrite_None: "statusOfWrite r = None \<longleftrightarrow> fst r = None"
  by (simp add: statusOfWrite_def split: option.splits)

lemma rollback_status: "record_status s vs = TxnStatus_zero\<lparr>ts_IsRolledBack := True\<rparr>"
  if "commit_record s vs = (Some (rollbackWrite s), s)"
  using that by (simp add: record_status_def statusOfWrite_def)

text \<open>C32: The status check with cleanup is truthful. Whatever it answers is the status the
  transaction has once its modifications are applied, and it answers that the transaction is
  locked exactly when the primary holds its lock and the lock has not outlived its TTL.\<close>

theorem CheckTxnStatusWithCleanup_truthful:
  assumes "mvcc_ok st" "plain_versions (st_versions st key)"
    and "own_lock st key s \<noteq> None \<longrightarrow> fst (commit_record s (st_versions st key)) = None"
  shows "\<exists>status txn. CheckTxnStatusWithCleanup (NewMvccTxn s) st key s caller rb = Inr (status, txn) \<and>
    mvcc_ok (txn_apply txn st) \<and> CheckTxnStatus (txn_apply txn st) key s = Inr status \<and>
    (ts_IsLocked status \<longleftrightarrow> (\<exists>l. own_lock st key s = Some l \<and> \<not> IsExpired l caller))"
proof (cases "own_lock st key s")
  case (Some l)
  then have none: "fst (commit_record s (st_versions st key)) = None" using assms(3) by simp
  have "own_lock (put_write key s (rollbackWrite s) (drop_lock key s l st)) key s = None"
    by (simp add: own_lock_def mvcc_view)
  then show ?thesis
    using Some assms(1) rollback_status [OF rollback_record [OF assms(1,2) none]]
    by (simp add: CheckTxnStatusWithCleanup_own CheckTxnStatus_own mvcc_view TxnStatus_zero_def)
next
  case None
  have own: "own_lock (put_write key s (rollbackWrite s) st) key s = None"
    using None by (simp add: own_lock_def mvcc_view)
  have unlocked: "\<not> ts_IsLocked r" if "statusOfWrite x = Some r" for x r
    using that by (auto simp: statusOfWrite_def TxnStatus_zero_def split: option.splits if_splits)
  show ?thesis
  proof (cases "statusOfWrite (commit_record s (st_versions st key))")
    case (Some r)
    with None assms(1) unlocked [OF Some] show ?thesis
      by (simp add: CheckTxnStatusWithCleanup_own CheckTxnStatus_own record_status_def)
  next
    case none: None
    then have "fst (commit_record s (st_versions st key)) = None" by (simp add: statusOfWrite_None)
    from rollback_status [OF rollback_record [OF assms(1,2) this]] show ?thesis
      using None none own assms(1)
      by (cases rb) (simp_all add: CheckTxnStatusWithCleanup_own CheckTxnStatus_own mvcc_view
          record_status_def [of s "st_versions st key"], simp_all add: TxnStatus_zero_def)
  qed
qed

theorem CheckTxnStatusWithCleanup_truthful_witness:
  "\<exists>status txn. CheckTxnStatusWithCleanup (NewMvccTxn 20) plainStore [1] 20 30 True = Inr (status, txn) \<and>
     CheckTxnStatus (txn_apply txn plainStore) [1] 20 = Inr status \<and> \<not> ts_IsLocked status"
  using CheckTxnStatusWithCleanup_truthful [of plainStore "[1]" 20 30 True]
  by (auto simp: own_lock_def)

subsection \<open>One-phase commit\<close>

definition onepc_write :: "OnePCProps \<Rightarrow> TxnMutation \<Rightarrow> Write" where
  "onepc_write props mut = Write_zero\<lparr>write_WriteType := mutationOpToWriteType (tm_Op mut),
     write_StartTS := op_StartTS props,
     write_ShortValue := (case tm_Value mut of
        None \<Rightarrow> None | Some x \<Rightarrow> if length x \<le> ShortValueMaxLen then Some x else None)\<rparr>"

lemma onepc_write_sizes: "write_sizes_ok (onepc_write props mut)"
  by (simp add: write_sizes_ok_def onepc_write_def split: option.splits)

definition put_1pc :: "OnePCProps \<Rightarrow> TxnMutation \<Rightarrow> store \<Rightarrow> store" where
  "put_1pc props mut st =
     put_write (tm_Key mut) (op_CommitTS props) (onepc_write props mut)
       (case tm_Value mut of
          None \<Rightarrow> st
        | Some x \<Rightarrow>
            if tm_Op mut = MutationOpPut \<and> ShortValueMaxLen < length x
            then put_value (tm_Key mut) (op_StartTS props) x st else st)"

lemma txn_apply_write1PC [simp]:
  "txn_apply (write1PC props mut txn) st = put_1pc props mut (txn_apply txn st)"
  by (auto simp: write1PC_def put_1pc_def onepc_write_def Let_def Write_zero_def split: option.splits)

lemma txn_known_write1PC [simp]: "txn_known (write1PC props mut txn) \<longleftrightarrow> txn_known txn"
  by (auto simp: write1PC_def Let_def split: option.splits)

lemma txn_apply_fold_write1PC:
  "txn_apply (fold (write1PC props) muts txn) st = fold (put_1pc props) muts (txn_apply txn st)"
  by (induction muts arbitrary: txn) auto

lemma put_1pc_view [mvcc_view]:
  assumes "mvcc_ok st"
  shows "mvcc_ok (put_1pc props mut st)"
    "st_lock (put_1pc props mut st) key = st_lock st key"
    "st_versions (put_1pc props mut st) key =
       (if key = tm_Key mut then ver_put (op_CommitTS props) (normWrite (onepc_write props mut)) (st_versions st key)
        else st_versions st key)"
  using assms by (auto simp: put_1pc_def mvcc_view onepc_write_sizes split: option.splits)

lemma fold_put_1pc_view:
  "mvcc_ok st \<Longrightarrow> distinct (map tm_Key muts) \<Longrightarrow>
     mvcc_ok (fold (put_1pc props) muts st) \<and>
     st_lock (fold (put_1pc props) muts st) = st_lock st \<and>
     (\<forall>key. key \<notin> tm_Key ` set muts \<longrightarrow> st_versions (fold (put_1pc props) muts st) key = st_versions st key) \<and>
     (\<forall>mut \<in> set muts. st_versions (fold (put_1pc props) muts st) (tm_Key mut) =
        ver_put (op_CommitTS props) (normWrite (onepc_write props mut)) (st_versions st (tm_Key mut)))"
proof (induction muts arbitrary: st)
  case (Cons m muts)
  have ok: "mvcc_ok (put_1pc props m st)" using Cons.prems by (simp add: mvcc_view)
  have dist: "distinct (map tm_Key muts)" "tm_Key m \<notin> tm_Key ` set muts" using Cons.prems by auto
  note IH = Cons.IH [OF ok dist(1)]
  have other: "tm_Key mut \<noteq> tm_Key m" if "mut \<in> set muts" for mut
    using that dist(2) by (metis image_eqI)
  show ?case
    using IH dist other Cons.prems(1) by (auto simp: mvcc_view fun_eq_iff)
qed simp


definition sampleOnePC :: "TimeStamp \<Rightarrow> TimeStamp \<Rightarrow> OnePCProps" where
  "sampleOnePC s c = \<lparr>op_StartTS = s, op_CommitTS = c, op_Primary = [1], op_LockTTL = 3000\<rparr>"

lemma check1PC_st:
  "mvcc_ok st \<Longrightarrow> check1PC st props mut =
     (case st_lock st (tm_Key mut) of
        Some l \<Rightarrow> if lock_StartTS l \<noteq> op_StartTS props then Some ErrKeyIsLocked
                  else if has_data (newer_than (op_StartTS props) (take 1 (st_versions st (tm_Key mut))))
                  then Some ErrWriteConflict else None
      | None \<Rightarrow> if has_data (newer_than (op_StartTS props) (take 1 (st_versions st (tm_Key mut))))
                then Some ErrWriteConflict else None)"
  by (auto simp: check1PC_def LoadLock_st_lock newestConflict_st split: option.splits)


text \<open>The one-phase check looks at the newest record only, so a rollback record on top
  hides a conflict: on a key with a value committed at 10 and a rollback record at 30, a
  transaction started at 7 passes the one-phase check and commits at 50, while the prewrite
  of the same transaction reports the write conflict.\<close>

theorem OnePC_misses_conflict:
  "fst (PrewriteAndCommit1PC (NewMvccTxn 7) sampleStore (sampleOnePC 7 50) [sampleMut]) = [None] \<and>
   st_versions (txn_apply (snd (PrewriteAndCommit1PC (NewMvccTxn 7) sampleStore (sampleOnePC 7 50) [sampleMut]))
      sampleStore) [1] =
     [(50, onepc_write (sampleOnePC 7 50) sampleMut), (30, sampleRollback), (10, samplePut)] \<and>
   run_action (Prewrite (NewMvccTxn 7) sampleStore (sampleProps 7) sampleMut) sampleStore = Inl ErrWriteConflict"
proof -
  have "check1PC sampleStore (sampleOnePC 7 50) sampleMut = None"
    by (simp add: check1PC_st sampleOnePC_def newer_than_def has_data_def)
  moreover have "normWrite (onepc_write (sampleOnePC 7 50) sampleMut) = onepc_write (sampleOnePC 7 50) sampleMut"
    by (simp add: normWrite_fixed onepc_write_def Write_zero_def LastChange_zero_def ShortValueMaxLen_def)
  moreover have "conflicts 7 [(30, sampleRollback), (10, samplePut)]"
    by (simp add: conflicts_def newer_than_def has_data_def SeekBound_def)
  ultimately show ?thesis
    by (simp add: PrewriteAndCommit1PC_def Let_def mvcc_view ver_put_def run_Prewrite)
      (simp add: sampleOnePC_def)
qed

subsection \<open>Pessimistic locks, async commit and heartbeats\<close>

lemma AcquirePessimisticLock_st:
  "mvcc_ok st \<Longrightarrow> AcquirePessimisticLock txn st props key =
     (case st_lock st key of
        Some l \<Rightarrow>
          if lock_StartTS l = pl_StartTS props then
            (if lock_LockType l = LockTypePessimistic \<and> lock_ForUpdateTS l < pl_ForUpdateTS props
             then Inr (PutLock key (l\<lparr>lock_ForUpdateTS := pl_ForUpdateTS props\<rparr>) txn) else Inr txn)
          else Inl ErrKeyIsLocked
      | None \<Rightarrow>
          if has_data (newer_than (pl_ForUpdateTS props) (take 1 (st_versions st key))) then Inl ErrWriteConflict
          else Inr (PutLock key
               (Lock_zero\<lparr>lock_LockType := LockTypePessimistic, lock_Primary := pl_Primary props,
                  lock_StartTS := pl_StartTS props, lock_TTL := pl_LockTTL props,
                  lock_ForUpdateTS := pl_ForUpdateTS props\<rparr>) txn))"
  by (simp add: AcquirePessimisticLock_def LoadLock_st_lock newestConflict_st split: option.splits)

text \<open>Pessimistic locks are invisible to readers. Whenever a transaction acquires (or
  renews) a pessimistic lock, every point read of every key, at every timestamp and
  isolation level, returns what it returned before.\<close>

theorem pessimistic_lock_invisible:
  assumes "mvcc_ok st" "last_change_ok (st_versions st k)" "length (pl_Primary props) < 2 ^ 64"
    and "run_action (AcquirePessimisticLock (NewMvccTxn s) st props key) st = Inr st'"
  shows "PointGetter_Get (NewPointGetter st' ts level) k = PointGetter_Get (NewPointGetter st ts level) k"
proof -
  have "st' = st \<or> (\<exists>l. st' = put_lock key l st \<and> lock_sizes_ok l \<and> lock_LockType l = LockTypePessimistic \<and>
      (\<forall>l'. st_lock st key = Some l' \<longrightarrow> lock_LockType l' = LockTypePessimistic))"
  proof (cases "st_lock st key")
    case None
    then have "st' = put_lock key (Lock_zero\<lparr>lock_LockType := LockTypePessimistic, lock_Primary := pl_Primary props,
                  lock_StartTS := pl_StartTS props, lock_TTL := pl_LockTTL props,
                  lock_ForUpdateTS := pl_ForUpdateTS props\<rparr>) st"
      using assms(1,4) by (simp add: AcquirePessimisticLock_st split: if_splits)
    then show ?thesis
      using None assms(3) by (auto simp: lock_sizes_ok_def maxAlloc_def)
  next
    case (Some l)
    then have "st' = st \<or> (st' = put_lock key (l\<lparr>lock_ForUpdateTS := pl_ForUpdateTS props\<rparr>) st \<and>
        lock_LockType l = LockTypePessimistic)"
      using assms(1,4) by (auto simp: AcquirePessimisticLock_st split: if_splits)
    moreover have "lock_sizes_ok (l\<lparr>lock_ForUpdateTS := pl_ForUpdateTS props\<rparr>)"
      using st_lock_sizes [OF Some] by (simp add: lock_sizes_ok_def)
    ultimately show ?thesis using Some by fastforce
  qed
  then show ?thesis
  proof
    assume "\<exists>l. st' = put_lock key l st \<and> lock_sizes_ok l \<and> lock_LockType l = LockTypePessimistic \<and>
      (\<forall>l'. st_lock st key = Some l' \<longrightarrow> lock_LockType l' = LockTypePessimistic)"
    then obtain l where st': "st' = put_lock key l st" and l: "lock_sizes_ok l" "lock_LockType l = LockTypePessimistic"
      and old: "\<And>l'. st_lock st key = Some l' \<Longrightarrow> lock_LockType l' = LockTypePessimistic" by auto
    have "blocking_lock (NewPointGetter st' ts level) k = blocking_lock (NewPointGetter st ts level) k"
      using l old assms(1) by (auto simp: blocking_lock_def NewPointGetter_def st' mvcc_view split: option.splits)
    moreover have "read_at st' k ts = read_at st k ts" by (rule read_at_cong) (simp_all add: st' mvcc_view)
    ultimately show ?thesis
      using assms(1,2) l st' by (simp add: NewPointGetter_Get mvcc_view split: option.splits)
  qed simp
qed

definition samplePessimistic :: PessimisticLockProps where
  "samplePessimistic = \<lparr>pl_StartTS = 15, pl_ForUpdateTS = 15, pl_Primary = [1], pl_LockTTL = 3000, pl_WaitTimeout = 0\<rparr>"

theorem pessimistic_lock_invisible_witness:
  "\<exists>st'. run_action (AcquirePessimisticLock (NewMvccTxn 15) plainStore samplePessimistic [1]) plainStore = Inr st' \<and>
     PointGetter_Get (NewPointGetter st' 50 IsolationLevelSI) [1] =
     PointGetter_Get (NewPointGetter plainStore 50 IsolationLevelSI) [1]"
proof -
  have "\<exists>st'. run_action (AcquirePessimisticLock (NewMvccTxn 15) plainStore samplePessimistic [1]) plainStore = Inr st'"
    by (simp add: AcquirePessimisticLock_st samplePessimistic_def newer_than_def has_data_def)
  then show ?thesis
    using pessimistic_lock_invisible [of plainStore "[1]" samplePessimistic 15 "[1]" _ 50 IsolationLevelSI]
    by (auto simp: plain_last_change_ok samplePessimistic_def)
qed

lemma word_less_Suc_max: "x \<noteq> (- 1 :: u64) \<Longrightarrow> x < x + 1"
proof -
  assume "x \<noteq> - 1"
  then have "1 + x \<noteq> 0" by (metis add_eq_0_iff)
  then have "unat (1 + x) = Suc (unat x)" by (rule unatSuc)
  then show ?thesis by (simp add: word_less_nat_alt add.commute)
qed

lemma minCommitTS_above:
  "s < TSMax \<Longrightarrow> m < TSMax \<Longrightarrow> s < minCommitTS s m \<and> m < minCommitTS s m"
proof -
  assume a: "s < TSMax" "m < TSMax"
  then have s: "s < s + 1" and m: "m < m + 1" by (auto intro: word_less_Suc_max simp: TSMax_def)
  show ?thesis
  proof (cases "0 < m \<and> s + 1 < m + 1")
    case True
    then show ?thesis using s m by (auto simp: minCommitTS_def)
  next
    case False
    then have "m = 0 \<or> m + 1 \<le> s + 1" by (auto simp: word_gt_0 not_less)
    then have "m < s + 1" using s m by auto (metis word_gt_0 le_less_trans word_zero_le)
    with False s show ?thesis by (auto simp: minCommitTS_def Let_def)
  qed
qed

lemma asyncCommitLock_fields [simp]:
  "lock_StartTS (asyncCommitLock props mut) = pp_StartTS props"
  "lock_LockType (asyncCommitLock props mut) = mutationOpToLockType (tm_Op mut)"
  "lock_MinCommitTS (asyncCommitLock props mut) =
     (if ap_UseAsyncCommit props then minCommitTS (pp_StartTS props) (ap_MaxCommitTS props) else 0)"
  by (simp_all add: asyncCommitLock_def Let_def)

definition async_sizes_ok :: "AsyncCommitPrewriteProps \<Rightarrow> bool" where
  "async_sizes_ok props \<longleftrightarrow> length (pp_Primary props) < 2 ^ 64 \<and>
     length (ap_Secondaries props) * 24 \<le> maxAlloc \<and> list_all (\<lambda>k. length k < 2 ^ 64) (ap_Secondaries props)"

lemma asyncCommitLock_sizes: "async_sizes_ok props \<Longrightarrow> lock_sizes_ok (asyncCommitLock props mut)"
proof -
  assume a: "async_sizes_ok props"
  have "lock_sizes_ok (inlineShort (tm_Value mut) (Lock_zero\<lparr>lock_LockType := mutationOpToLockType (tm_Op mut),
       lock_Primary := pp_Primary props, lock_StartTS := pp_StartTS props, lock_TTL := pp_LockTTL props\<rparr>))"
    using a by (intro inlineShort_sizes) (simp add: lock_sizes_ok_def async_sizes_ok_def maxAlloc_def)
  with a show ?thesis by (auto simp: asyncCommitLock_def Let_def lock_sizes_ok_def async_sizes_ok_def)
qed

lemma run_PrewriteAsyncCommit:
  assumes "mvcc_ok st"
  shows "run_action (PrewriteAsyncCommit (NewMvccTxn s) st props mut) st =
    (case st_lock st (tm_Key mut) of
       Some l \<Rightarrow> if lock_StartTS l = pp_StartTS props then Inr st else Inl ErrKeyIsLocked
     | None \<Rightarrow>
         if conflicts (pp_StartTS props) (st_versions st (tm_Key mut)) then Inl ErrWriteConflict
         else Inr (put_prewrite (asyncCommitLock props mut) (pp_StartTS props) mut st))"
  using assms
  by (simp add: PrewriteAsyncCommit_def LoadLock_st_lock conflict_loop_st Let_def split: option.splits)

text \<open>An async-commit prewrite fixes the smallest commit timestamp. After it, a commit of
  the key succeeds exactly at timestamps from the minimum on, and the minimum lies above both
  the start timestamp and the largest timestamp a reader was served, as long as neither is
  the maximal timestamp.\<close>

theorem async_commit_min_commit_ts:
  assumes "mvcc_ok st" "st_lock st (tm_Key mut) = None"
    and "\<not> conflicts (pp_StartTS props) (st_versions st (tm_Key mut))"
    and "ap_UseAsyncCommit props" "async_sizes_ok props"
  shows "\<exists>st'. run_action (PrewriteAsyncCommit (NewMvccTxn (pp_StartTS props)) st props mut) st = Inr st' \<and>
    mvcc_ok st' \<and>
    ((\<exists>st''. run_action (Commit (NewMvccTxn (pp_StartTS props)) st' (tm_Key mut) (pp_StartTS props) c) st' = Inr st'') \<longleftrightarrow>
       minCommitTS (pp_StartTS props) (ap_MaxCommitTS props) \<le> c) \<and>
    (pp_StartTS props < TSMax \<longrightarrow> ap_MaxCommitTS props < TSMax \<longrightarrow>
       pp_StartTS props < minCommitTS (pp_StartTS props) (ap_MaxCommitTS props) \<and>
       ap_MaxCommitTS props < minCommitTS (pp_StartTS props) (ap_MaxCommitTS props))"
  using assms minCommitTS_above [of "pp_StartTS props" "ap_MaxCommitTS props"]
  by (simp add: run_PrewriteAsyncCommit run_Commit mvcc_view asyncCommitLock_sizes) auto

definition sampleAsync :: AsyncCommitPrewriteProps where
  "sampleAsync = \<lparr>pp_StartTS = 15, pp_Primary = [1], pp_LockTTL = 3000, pp_IsPrimary = True,
     ap_UseAsyncCommit = True, ap_Secondaries = [[2]], ap_MaxCommitTS = 60\<rparr>"

theorem async_commit_min_commit_ts_witness:
  "\<exists>st'. run_action (PrewriteAsyncCommit (NewMvccTxn 15) plainStore sampleAsync sampleMut) plainStore = Inr st' \<and>
     \<not> (\<exists>st''. run_action (Commit (NewMvccTxn 15) st' [1] 15 60) st' = Inr st'')"
proof -
  have "async_sizes_ok sampleAsync" by (simp add: async_sizes_ok_def sampleAsync_def maxAlloc_def)
  moreover have "\<not> conflicts 15 [(10, samplePut)]" by (simp add: conflicts_def newer_than_def has_data_def)
  ultimately show ?thesis
    using async_commit_min_commit_ts [of plainStore sampleMut sampleAsync 60]
    by (auto simp: sampleAsync_def minCommitTS_def)
qed

text \<open>A heartbeat only extends: it succeeds exactly when the primary holds the lock of the
  transaction, answers the larger of the stored and the advised TTL, and the lock then has
  that TTL; records, values and the locks of other keys do not change.\<close>

theorem TxnHeartBeat_outcome:
  assumes "mvcc_ok st"
  shows "(case own_lock st key s of
      None \<Rightarrow> TxnHeartBeat (NewMvccTxn s) st key s ttl = Inl ErrTxnLockNotFound
    | Some l \<Rightarrow> (\<exists>txn. TxnHeartBeat (NewMvccTxn s) st key s ttl = Inr (max (lock_TTL l) ttl, txn) \<and>
        mvcc_ok (txn_apply txn st) \<and>
        (\<exists>l'. own_lock (txn_apply txn st) key s = Some l' \<and> lock_TTL l' = max (lock_TTL l) ttl) \<and>
        (\<forall>k. k \<noteq> key \<longrightarrow> st_lock (txn_apply txn st) k = st_lock st k) \<and>
        st_versions (txn_apply txn st) = st_versions st \<and> st_value (txn_apply txn st) = st_value st))"
proof (cases "own_lock st key s")
  case None
  then show ?thesis using assms
    by (auto simp: TxnHeartBeat_def LoadLock_st_lock own_lock_def split: option.splits if_splits)
next
  case (Some l)
  then have l: "st_lock st key = Some l" "lock_StartTS l = s"
    by (auto simp: own_lock_def split: option.splits if_splits)
  have size: "lock_sizes_ok (l\<lparr>lock_TTL := ttl\<rparr>)"
    using st_lock_sizes [OF l(1)] by (simp add: lock_sizes_ok_def)
  show ?thesis
  proof (cases "lock_TTL l < ttl")
    case True
    then show ?thesis using assms l size Some
      by (simp add: TxnHeartBeat_def LoadLock_st_lock mvcc_view own_lock_def max_def fun_eq_iff less_imp_le)
  next
    case False
    then show ?thesis using assms l Some
      by (simp add: TxnHeartBeat_def LoadLock_st_lock own_lock_def max_def)
  qed
qed

theorem TxnHeartBeat_outcome_witness:
  "\<exists>txn. TxnHeartBeat (NewMvccTxn 15) preparedStore [1] 15 9000 = Inr (9000, txn)"
  using TxnHeartBeat_outcome [where st = preparedStore and key = "[1]" and s = 15 and ttl = 9000]
  by (auto simp: own_lock_def prewriteLock_def sampleProps_def max_def)

text \<open>The store with \<open>n\<close> rollback records above one committed value.\<close>

definition rb_version :: "nat \<Rightarrow> version" where
  "rb_version i = (of_nat (20 + i), rollbackWrite (of_nat (20 + i)))"

definition rollbacks :: "nat \<Rightarrow> store" where
  "rollbacks n = fold (\<lambda>i. put_write [1] (fst (rb_version i)) (snd (rb_version i))) [0..<n] plainStore"

lemma rb_version_less: "i < n \<Longrightarrow> n \<le> 100 \<Longrightarrow> fst (rb_version i) < fst (rb_version n)"
  by (simp add: rb_version_def word_less_nat_alt unat_of_nat_u64 del: of_nat_add)

lemma rb_version_above: "n \<le> 100 \<Longrightarrow> 10 < fst (rb_version n) \<and> 7 < fst (rb_version n)"
  by (simp add: rb_version_def word_less_nat_alt unat_of_nat_u64 del: of_nat_add)

lemma rb_version_snd [simp]:
  "write_sizes_ok (snd (rb_version i))" "normWrite (snd (rb_version i)) = snd (rb_version i)"
  "no_data (snd (rb_version i))"
  by (simp_all add: rb_version_def)

lemma ver_put_newest: "\<forall>v \<in> set vs. fst v < c \<Longrightarrow> ver_put c w vs = (c, w) # vs"
proof -
  assume a: "\<forall>v \<in> set vs. fst v < c"
  then have "filter (\<lambda>v. c < fst v) vs = []" by (auto simp: filter_empty_conv dest!: bspec)
  moreover have "filter (\<lambda>v. fst v < c) vs = vs" using a by (simp add: filter_id_conv)
  ultimately show ?thesis by (simp add: ver_put_def)
qed

lemma rollbacks_view:
  "n \<le> 100 \<Longrightarrow> mvcc_ok (rollbacks n) \<and> (\<forall>k. st_lock (rollbacks n) k = None) \<and>
     st_versions (rollbacks n) [1] = map rb_version (rev [0..<n]) @ [(10, samplePut)]"
proof (induction n)
  case 0
  then show ?case by (simp add: rollbacks_def)
next
  case (Suc n)
  have IH: "mvcc_ok (rollbacks n)" "\<forall>k. st_lock (rollbacks n) k = None"
    "st_versions (rollbacks n) [1] = map rb_version (rev [0..<n]) @ [(10, samplePut)]"
    using Suc by simp_all
  have step: "rollbacks (Suc n) = put_write [1] (fst (rb_version n)) (snd (rb_version n)) (rollbacks n)"
    by (simp add: rollbacks_def)
  have "\<forall>v \<in> set (st_versions (rollbacks n) [1]). fst v < fst (rb_version n)"
    unfolding IH(3) using rb_version_less [of _ n] rb_version_above [of n] Suc.prems by auto
  then have "ver_put (fst (rb_version n)) (snd (rb_version n)) (st_versions (rollbacks n) [1]) =
      rb_version n # st_versions (rollbacks n) [1]"
    by (simp add: ver_put_newest)
  then show ?case using IH by (simp add: step mvcc_view)
qed

text \<open>The conflict search is bounded: 64 rollback records above it hide a newer commit.
  On a key with a value committed at 10 and rollback records at 20 to 83, the prewrite of a
  transaction started at 7 succeeds, although the value was committed after its start; with
  63 rollback records it reports the conflict.\<close>

theorem Prewrite_conflict_window:
  "has_data (newer_than 7 (st_versions (rollbacks 64) [1])) \<and>
   run_action (Prewrite (NewMvccTxn 7) (rollbacks 64) (sampleProps 7) sampleMut) (rollbacks 64) =
     Inr (put_prewrite (prewriteLock (sampleProps 7) sampleMut) 7 sampleMut (rollbacks 64)) \<and>
   run_action (Prewrite (NewMvccTxn 7) (rollbacks 63) (sampleProps 7) sampleMut) (rollbacks 63) =
     Inl ErrWriteConflict"
proof -
  have newer: "newer_than 7 (st_versions (rollbacks n) [1]) = st_versions (rollbacks n) [1]" if "n \<le> 64" for n
  proof -
    have "\<forall>v \<in> set (st_versions (rollbacks n) [1]). 7 < fst v"
      using rollbacks_view [of n] rb_version_above that by auto
    then show ?thesis by (simp add: newer_than_def filter_id_conv)
  qed
  have "has_data (st_versions (rollbacks n) [1])" if "n \<le> 64" for n
    using rollbacks_view [of n] that by (simp add: has_data_def)
  moreover have "\<not> has_data (take 64 (st_versions (rollbacks 64) [1]))"
    using rollbacks_view [of 64] by (auto simp: has_data_def list_ex_iff)
  moreover have "take 64 (st_versions (rollbacks 63) [1]) = st_versions (rollbacks 63) [1]"
    using rollbacks_view [of 63] by simp
  ultimately show ?thesis
    using rollbacks_view [of 64] rollbacks_view [of 63] newer [of 64] newer [of 63]
    by (simp add: run_Prewrite conflicts_def SeekBound_def has_data_def del: upt_Suc)
qed

end
