(* ===== verification/Latch.thy ===== *)
theory Latch
  imports Gookv_Prelude
begin

unbundle bit_operations_syntax

section \<open>Package latch: serialization of commands by key\<close>

text \<open>
  Models \<^verbatim>\<open>internal/storage/txn/latch/latch.go\<close>. The functions \<open>GenLock\<close>, \<open>Acquire\<close> and \<open>Release\<close>
  are the methods of one caller; the mutex of a slot makes each slot access atomic, so the
  concurrent behaviour is the step relation \<open>lstep\<close>, whose steps are single slot accesses
  of the loops of \<^verbatim>\<open>AcquireBlocking\<close> and \<^verbatim>\<open>Release\<close> by any of the running commands, with the
  per-command channels (capacity one) that wake a blocked command.

  The lemmas show that slots are exclusive, that ordered acquisition cannot deadlock, and
  that a cancelled command can swallow the wake-up of another.
\<close>

subsection \<open>The methods\<close>

record latchSlot =
  ls_owner :: u64
  ls_waitQueue :: "u64 list"

text \<open>\<open>la_waiters\<close> maps a command to its channel: whether a token is in it.\<close>

record Latches =
  la_slots :: "latchSlot list"
  la_size :: nat
  la_waiters :: "u64 \<Rightarrow> bool option"

record LatchLock =
  ll_RequiredHashes :: "u64 list"
  ll_OwnedCount :: nat

function latch_size :: "nat \<Rightarrow> nat \<Rightarrow> nat" where
  "latch_size sz slotCount =
     (if 0 < sz \<and> sz < slotCount then latch_size (sz * 2) slotCount else sz)"
  by pat_completeness auto
termination
  by (relation "measure (\<lambda>(sz, slotCount). slotCount - sz)") auto

declare latch_size.simps [simp del]

definition NewLatches :: "nat \<Rightarrow> Latches" where
  "NewLatches slotCount =
     (let sz = latch_size 1 slotCount in
      \<lparr>la_slots = replicate sz \<lparr>ls_owner = 0, ls_waitQueue = []\<rparr>, la_size = sz,
       la_waiters = (\<lambda>_. None)\<rparr>)"

text \<open>\<^verbatim>\<open>hash/fnv\<close>'s 64-bit FNV-1a.\<close>

definition hashKey :: "bytes \<Rightarrow> u64" where
  "hashKey key = foldl (\<lambda>h b. (h XOR ucast b) * 1099511628211) 14695981039346656037 key"

primrec GenLock_loop :: "nat \<Rightarrow> bytes list \<Rightarrow> u64 list \<Rightarrow> u64 list" where
  "GenLock_loop sz [] hashes = hashes"
| "GenLock_loop sz (key # keys) hashes =
     (let slotIdx = hashKey key AND of_nat (sz - 1) in
      GenLock_loop sz keys (if slotIdx \<in> set hashes then hashes else hashes @ [slotIdx]))"

definition GenLock :: "Latches \<Rightarrow> bytes list \<Rightarrow> LatchLock" where
  "GenLock l keys = \<lparr>ll_RequiredHashes = sort (GenLock_loop (la_size l) keys []), ll_OwnedCount = 0\<rparr>"

text \<open>One iteration of \<^verbatim>\<open>Acquire\<close> under the mutex of the slot: take it, or queue for it.\<close>

definition trySlot :: "u64 \<Rightarrow> u64 \<Rightarrow> latchSlot list \<Rightarrow> bool \<times> latchSlot list" where
  "trySlot commandID slotIdx slots =
     (let slot = slots ! unat slotIdx in
      if ls_owner slot = 0 \<or> ls_owner slot = commandID
      then (True, slots[unat slotIdx := slot\<lparr>ls_owner := commandID\<rparr>])
      else (False, slots[unat slotIdx := slot\<lparr>ls_waitQueue := ls_waitQueue slot @ [commandID]\<rparr>]))"

fun Acquire_loop :: "u64 \<Rightarrow> u64 list \<Rightarrow> nat \<Rightarrow> latchSlot list \<Rightarrow> bool \<times> nat \<times> latchSlot list" where
  "Acquire_loop commandID [] owned slots = (True, owned, slots)"
| "Acquire_loop commandID (h # hs) owned slots =
     (case trySlot commandID h slots of
        (True, slots) \<Rightarrow> Acquire_loop commandID hs (owned + 1) slots
      | (False, slots) \<Rightarrow> (False, owned, slots))"

definition Acquire :: "LatchLock \<Rightarrow> u64 \<Rightarrow> Latches \<Rightarrow> bool \<times> LatchLock \<times> Latches" where
  "Acquire lock commandID l =
     (let (ok, owned, slots) =
            Acquire_loop commandID (drop (ll_OwnedCount lock) (ll_RequiredHashes lock))
              (ll_OwnedCount lock) (la_slots l) in
      (ok, lock\<lparr>ll_OwnedCount := owned\<rparr>, l\<lparr>la_slots := slots\<rparr>))"

text \<open>One iteration of \<^verbatim>\<open>Release\<close>: free the slot and take its first waiter off the queue.\<close>

definition freeSlot :: "u64 \<Rightarrow> u64 \<Rightarrow> latchSlot list \<Rightarrow> u64 list \<times> latchSlot list" where
  "freeSlot commandID slotIdx slots =
     (let slot = slots ! unat slotIdx in
      if ls_owner slot = commandID
      then (case ls_waitQueue slot of
              [] \<Rightarrow> ([], slots[unat slotIdx := slot\<lparr>ls_owner := 0\<rparr>])
            | w # ws \<Rightarrow> ([w], slots[unat slotIdx := slot\<lparr>ls_owner := 0, ls_waitQueue := ws\<rparr>]))
      else ([], slots))"

fun Release_loop :: "u64 \<Rightarrow> u64 list \<Rightarrow> u64 list \<Rightarrow> latchSlot list \<Rightarrow> u64 list \<times> latchSlot list" where
  "Release_loop commandID [] wakeUp slots = (wakeUp, slots)"
| "Release_loop commandID (h # hs) wakeUp slots =
     (let (w, slots) = freeSlot commandID h slots in Release_loop commandID hs (wakeUp @ w) slots)"

text \<open>A non-blocking send on the channel of every woken command that still has one.\<close>

definition signal :: "u64 list \<Rightarrow> (u64 \<Rightarrow> bool option) \<Rightarrow> u64 \<Rightarrow> bool option" where
  "signal wakeUp waiters =
     fold (\<lambda>i ws. case ws i of None \<Rightarrow> ws | Some _ \<Rightarrow> ws(i := Some True)) wakeUp waiters"

definition Release :: "LatchLock \<Rightarrow> u64 \<Rightarrow> Latches \<Rightarrow> u64 list \<times> LatchLock \<times> Latches" where
  "Release lock commandID l =
     (let (wakeUp, slots) =
            Release_loop commandID (take (ll_OwnedCount lock) (ll_RequiredHashes lock)) [] (la_slots l) in
      (wakeUp, lock\<lparr>ll_OwnedCount := 0\<rparr>,
       l\<lparr>la_slots := slots, la_waiters := signal wakeUp (la_waiters l)\<rparr>))"

subsection \<open>Concurrent commands\<close>

text \<open>Where a command is: in the acquire loop, blocked on its channel, holding all its
  latches, or inside \<^verbatim>\<open>Release\<close> with the slots still to free and the commands to wake.\<close>

datatype phase =
    Acquiring
  | Waiting
  | Holding
  | Releasing "u64 list" "u64 list"

record lsys =
  sys_latches :: Latches
  sys_cmds :: "u64 \<Rightarrow> (LatchLock \<times> phase) option"

inductive lstep :: "lsys \<Rightarrow> lsys \<Rightarrow> bool" where
  lstep_start:
    "c \<noteq> 0 \<Longrightarrow> sys_cmds s c = None \<Longrightarrow> lock = GenLock (sys_latches s) keys \<Longrightarrow>
     lstep s (s\<lparr>sys_latches := (sys_latches s)\<lparr>la_waiters := (la_waiters (sys_latches s))(c := Some False)\<rparr>,
                sys_cmds := (sys_cmds s)(c := Some (lock, Acquiring))\<rparr>)"
| lstep_take:
    "sys_cmds s c = Some (lock, Acquiring) \<Longrightarrow> ll_OwnedCount lock < length (ll_RequiredHashes lock) \<Longrightarrow>
     trySlot c (ll_RequiredHashes lock ! ll_OwnedCount lock) (la_slots (sys_latches s)) = (True, slots) \<Longrightarrow>
     lstep s (s\<lparr>sys_latches := (sys_latches s)\<lparr>la_slots := slots\<rparr>,
                sys_cmds := (sys_cmds s)(c := Some (lock\<lparr>ll_OwnedCount := ll_OwnedCount lock + 1\<rparr>, Acquiring))\<rparr>)"
| lstep_block:
    "sys_cmds s c = Some (lock, Acquiring) \<Longrightarrow> ll_OwnedCount lock < length (ll_RequiredHashes lock) \<Longrightarrow>
     trySlot c (ll_RequiredHashes lock ! ll_OwnedCount lock) (la_slots (sys_latches s)) = (False, slots) \<Longrightarrow>
     lstep s (s\<lparr>sys_latches := (sys_latches s)\<lparr>la_slots := slots\<rparr>,
                sys_cmds := (sys_cmds s)(c := Some (lock, Waiting))\<rparr>)"
| lstep_hold:
    "sys_cmds s c = Some (lock, Acquiring) \<Longrightarrow> ll_OwnedCount lock = length (ll_RequiredHashes lock) \<Longrightarrow>
     lstep s (s\<lparr>sys_latches := (sys_latches s)\<lparr>la_waiters := (la_waiters (sys_latches s))(c := None)\<rparr>,
                sys_cmds := (sys_cmds s)(c := Some (lock, Holding))\<rparr>)"
| lstep_wake:
    "sys_cmds s c = Some (lock, Waiting) \<Longrightarrow> la_waiters (sys_latches s) c = Some True \<Longrightarrow>
     lstep s (s\<lparr>sys_latches := (sys_latches s)\<lparr>la_waiters := (la_waiters (sys_latches s))(c := Some False)\<rparr>,
                sys_cmds := (sys_cmds s)(c := Some (lock, Acquiring))\<rparr>)"
| lstep_cancel:
    "sys_cmds s c = Some (lock, Waiting) \<Longrightarrow>
     lstep s (s\<lparr>sys_cmds := (sys_cmds s)(c := Some (lock, Releasing (take (ll_OwnedCount lock) (ll_RequiredHashes lock)) []))\<rparr>)"
| lstep_release:
    "sys_cmds s c = Some (lock, Holding) \<Longrightarrow>
     lstep s (s\<lparr>sys_cmds := (sys_cmds s)(c := Some (lock, Releasing (take (ll_OwnedCount lock) (ll_RequiredHashes lock)) []))\<rparr>)"
| lstep_free:
    "sys_cmds s c = Some (lock, Releasing (h # hs) wakeUp) \<Longrightarrow>
     freeSlot c h (la_slots (sys_latches s)) = (w, slots) \<Longrightarrow>
     lstep s (s\<lparr>sys_latches := (sys_latches s)\<lparr>la_slots := slots\<rparr>,
                sys_cmds := (sys_cmds s)(c := Some (lock, Releasing hs (wakeUp @ w)))\<rparr>)"
| lstep_signal:
    "sys_cmds s c = Some (lock, Releasing [] wakeUp) \<Longrightarrow>
     lstep s (s\<lparr>sys_latches := (sys_latches s)\<lparr>la_waiters := (signal wakeUp (la_waiters (sys_latches s)))(c := None)\<rparr>,
                sys_cmds := (sys_cmds s)(c := None)\<rparr>)"

inductive_cases lstepE: "lstep s s'"

definition lsys_init :: "nat \<Rightarrow> lsys" where
  "lsys_init slotCount = \<lparr>sys_latches = NewLatches slotCount, sys_cmds = (\<lambda>_. None)\<rparr>"

inductive lreach :: "nat \<Rightarrow> lsys \<Rightarrow> bool" for n where
  lreach_init: "lreach n (lsys_init n)"
| lreach_step: "lreach n s \<Longrightarrow> lstep s s' \<Longrightarrow> lreach n s'"

subsection \<open>Lock requests\<close>

lemma latch_size_bounds: "0 < sz \<Longrightarrow> 0 < latch_size sz n \<and> latch_size sz n \<le> max sz (2 * n)"
proof (induction sz n rule: latch_size.induct)
  case (1 sz n)
  show ?case
  proof (cases "sz < n")
    case True
    with 1 show ?thesis by (subst (1 2) latch_size.simps) auto
  next
    case False
    with 1 show ?thesis by (subst (1 2) latch_size.simps) auto
  qed
qed

lemma GenLock_loop_props:
  "distinct hashes \<Longrightarrow> distinct (GenLock_loop sz keys hashes) \<and>
     set (GenLock_loop sz keys hashes) = set hashes \<union> (\<lambda>k. hashKey k AND of_nat (sz - 1)) ` set keys"
  by (induction keys arbitrary: hashes) (auto simp: Let_def)

lemma and_le_right: "unat (a AND of_nat m :: u64) \<le> m"
proof -
  have "a AND of_nat m \<le> of_nat m" by (rule word_and_le1)
  then have "unat (a AND of_nat m) \<le> unat (of_nat m :: u64)" by (simp add: word_le_nat_alt)
  also have "\<dots> \<le> m" by (simp add: unat_of_nat)
  finally show ?thesis .
qed

lemma GenLock_required:
  "sorted_wrt (<) (ll_RequiredHashes (GenLock l keys))"
  "set (ll_RequiredHashes (GenLock l keys)) = (\<lambda>k. hashKey k AND of_nat (la_size l - 1)) ` set keys"
  "ll_OwnedCount (GenLock l keys) = 0"
  "0 < la_size l \<Longrightarrow> h \<in> set (ll_RequiredHashes (GenLock l keys)) \<Longrightarrow> unat h < la_size l"
proof -
  have d: "distinct (GenLock_loop (la_size l) keys [])" using GenLock_loop_props [of "[]"] by simp
  show "sorted_wrt (<) (ll_RequiredHashes (GenLock l keys))"
    using d by (simp add: GenLock_def strict_sorted_iff)
  show set: "set (ll_RequiredHashes (GenLock l keys)) = (\<lambda>k. hashKey k AND of_nat (la_size l - 1)) ` set keys"
    using GenLock_loop_props [of "[]" "la_size l" keys] by (simp add: GenLock_def)
  show "ll_OwnedCount (GenLock l keys) = 0" by (simp add: GenLock_def)
  assume a: "0 < la_size l" "h \<in> set (ll_RequiredHashes (GenLock l keys))"
  then obtain k where "h = hashKey k AND of_nat (la_size l - 1)" using set by auto
  then have "unat h \<le> la_size l - 1" by (simp only: and_le_right)
  then show "unat h < la_size l" using a by simp
qed

subsection \<open>The invariant\<close>

definition owners :: "latchSlot list \<Rightarrow> u64 list" where
  "owners slots = map ls_owner slots"

lemma owners_simps [simp]: "length (owners slots) = length slots"
  by (simp add: owners_def)

lemma trySlot_owners:
  assumes "trySlot c h slots = (b, slots')" "unat h < length slots"
  shows "length slots' = length slots"
    "b \<longleftrightarrow> owners slots ! unat h = 0 \<or> owners slots ! unat h = c"
    "owners slots' = (if b then (owners slots)[unat h := c] else owners slots)"
  using assms
  by (auto simp: trySlot_def owners_def Let_def map_update list_update_same_conv [symmetric] split: if_splits
    intro!: list_update_id [symmetric] nth_equalityI simp: nth_list_update)

lemma freeSlot_owners:
  assumes "freeSlot c h slots = (w, slots')" "unat h < length slots"
  shows "length slots' = length slots"
    "owners slots' = (if owners slots ! unat h = c then (owners slots)[unat h := 0] else owners slots)"
  using assms
  by (auto simp: freeSlot_def owners_def Let_def map_update split: if_splits list.splits)

fun owned :: "LatchLock \<times> phase \<Rightarrow> u64 list" where
  "owned (lock, Releasing hs wakeUp) = hs"
| "owned (lock, Acquiring) = take (ll_OwnedCount lock) (ll_RequiredHashes lock)"
| "owned (lock, Waiting) = take (ll_OwnedCount lock) (ll_RequiredHashes lock)"
| "owned (lock, Holding) = take (ll_OwnedCount lock) (ll_RequiredHashes lock)"

definition cmd_ok :: "u64 list \<Rightarrow> u64 \<Rightarrow> LatchLock \<times> phase \<Rightarrow> bool" where
  "cmd_ok os c x \<longleftrightarrow> c \<noteq> 0 \<and> sorted_wrt (<) (ll_RequiredHashes (fst x)) \<and>
     (\<forall>h \<in> set (ll_RequiredHashes (fst x)). unat h < length os) \<and>
     ll_OwnedCount (fst x) \<le> length (ll_RequiredHashes (fst x)) \<and>
     (snd x = Holding \<longrightarrow> ll_OwnedCount (fst x) = length (ll_RequiredHashes (fst x))) \<and>
     (snd x = Waiting \<longrightarrow> ll_OwnedCount (fst x) < length (ll_RequiredHashes (fst x))) \<and>
     distinct (owned x) \<and> set (owned x) \<subseteq> set (ll_RequiredHashes (fst x)) \<and>
     (\<forall>h \<in> set (owned x). os ! unat h = c)"

definition linv :: "lsys \<Rightarrow> bool" where
  "linv s \<longleftrightarrow>
     (let os = owners (la_slots (sys_latches s)) in
      (\<forall>c x. sys_cmds s c = Some x \<longrightarrow> cmd_ok os c x) \<and>
      (\<forall>i < length os. os ! i \<noteq> 0 \<longrightarrow> (\<exists>x. sys_cmds s (os ! i) = Some x \<and> (\<exists>h \<in> set (owned x). unat h = i))) \<and>
      length os = la_size (sys_latches s) \<and> 0 < la_size (sys_latches s) \<and> finite (dom (sys_cmds s)))"

lemma linv_init: "linv (lsys_init n)"
  using latch_size_bounds [of 1 n] by (simp add: linv_def lsys_init_def NewLatches_def Let_def owners_def)

lemma linv_cmd: "linv s \<Longrightarrow> sys_cmds s c = Some x \<Longrightarrow> cmd_ok (owners (la_slots (sys_latches s))) c x"
  unfolding linv_def Let_def by blast

lemma linv_slot:
  "linv s \<Longrightarrow> i < length (la_slots (sys_latches s)) \<Longrightarrow> owners (la_slots (sys_latches s)) ! i \<noteq> 0 \<Longrightarrow>
     \<exists>x. sys_cmds s (owners (la_slots (sys_latches s)) ! i) = Some x \<and> (\<exists>h \<in> set (owned x). unat h = i)"
  unfolding linv_def Let_def owners_simps by blast

lemma linv_size:
  "linv s \<Longrightarrow> length (la_slots (sys_latches s)) = la_size (sys_latches s) \<and> 0 < la_size (sys_latches s) \<and>
     finite (dom (sys_cmds s))"
  unfolding linv_def Let_def owners_simps by blast

lemma linvI:
  assumes "\<And>c x. sys_cmds s c = Some x \<Longrightarrow> cmd_ok (owners (la_slots (sys_latches s))) c x"
    and "\<And>i. i < length (la_slots (sys_latches s)) \<Longrightarrow> owners (la_slots (sys_latches s)) ! i \<noteq> 0 \<Longrightarrow>
      \<exists>x. sys_cmds s (owners (la_slots (sys_latches s)) ! i) = Some x \<and> (\<exists>h \<in> set (owned x). unat h = i)"
    and "length (la_slots (sys_latches s)) = la_size (sys_latches s)" "0 < la_size (sys_latches s)"
    and "finite (dom (sys_cmds s))"
  shows "linv s"
  unfolding linv_def Let_def owners_simps using assms by blast

text \<open>One command moves to a new state while the owners change as the step says.\<close>

lemma linv_update:
  assumes inv: "linv s" and ok: "cmd_ok os' c x'"
    and len: "length os' = length (owners (la_slots (sys_latches s)))"
    and others: "\<And>i. i < length os' \<Longrightarrow> os' ! i = owners (la_slots (sys_latches s)) ! i
        \<or> (owners (la_slots (sys_latches s)) ! i = 0 \<and> os' ! i = c)
        \<or> (owners (la_slots (sys_latches s)) ! i = c \<and> os' ! i = 0)"
    and mine: "\<And>i. i < length os' \<Longrightarrow> os' ! i = c \<Longrightarrow> \<exists>h \<in> set (owned x'). unat h = i"
    and s': "owners (la_slots (sys_latches s')) = os'" "la_size (sys_latches s') = la_size (sys_latches s)"
      "sys_cmds s' = (sys_cmds s)(c := Some x')"
  shows "linv s'"
proof -
  let ?os = "owners (la_slots (sys_latches s))"
  have c0: "c \<noteq> 0" using ok by (simp add: cmd_ok_def)
  have cmds: "cmd_ok os' d y" if "sys_cmds s' d = Some y" for d y
  proof (cases "d = c")
    case True
    with that s'(3) ok show ?thesis by simp
  next
    case False
    with that s'(3) have old: "cmd_ok ?os d y" by (intro linv_cmd [OF inv]) simp
    have "os' ! unat h = d" if h: "h \<in> set (owned y)" for h
    proof -
      have "?os ! unat h = d" "unat h < length os'" "d \<noteq> 0"
        using old h len by (auto simp: cmd_ok_def)
      with others [of "unat h"] False show ?thesis by auto
    qed
    with old len show ?thesis by (simp add: cmd_ok_def)
  qed
  have occupied: "\<exists>y. sys_cmds s' (os' ! i) = Some y \<and> (\<exists>h \<in> set (owned y). unat h = i)"
    if i: "i < length os'" "os' ! i \<noteq> 0" for i
  proof (cases "os' ! i = c")
    case True
    with mine [OF i(1)] s'(3) show ?thesis by auto
  next
    case False
    with others [OF i(1)] i(2) have eq: "?os ! i = os' ! i" by auto
    with linv_slot [OF inv, of i] i len False s'(3) show ?thesis by simp
  qed
  have l': "length (la_slots (sys_latches s')) = length os'" using s'(1) by (metis owners_simps)
  show ?thesis
  proof (rule linvI)
    show "finite (dom (sys_cmds s'))" using linv_size [OF inv] s'(3) by simp
    show "cmd_ok (owners (la_slots (sys_latches s'))) d y" if "sys_cmds s' d = Some y" for d y
      using cmds [OF that] s'(1) by simp
    show "\<exists>x. sys_cmds s' (owners (la_slots (sys_latches s')) ! i) = Some x \<and> (\<exists>h\<in>set (owned x). unat h = i)"
      if "i < length (la_slots (sys_latches s'))" "owners (la_slots (sys_latches s')) ! i \<noteq> 0" for i
      using occupied [of i] that s'(1) l' by simp
    show "length (la_slots (sys_latches s')) = la_size (sys_latches s')" "0 < la_size (sys_latches s')"
      using linv_size [OF inv] s'(2) l' len by simp_all
  qed
qed

lemma linv_owner:
  assumes "linv s" "i < length (owners (la_slots (sys_latches s)))" "sys_cmds s c = Some x"
    and "owners (la_slots (sys_latches s)) ! i = c"
  shows "\<exists>h \<in> set (owned x). unat h = i"
proof -
  have "c \<noteq> 0" using linv_cmd [OF assms(1,3)] by (simp add: cmd_ok_def)
  with linv_slot [OF assms(1), of i] assms show ?thesis by simp
qed

lemma cmd_ok_cong:
  "cmd_ok os c (lock, ph) \<Longrightarrow> owned (lock', ph') = owned (lock, ph) \<Longrightarrow> ll_RequiredHashes lock' = ll_RequiredHashes lock \<Longrightarrow>
     ll_OwnedCount lock' = ll_OwnedCount lock \<Longrightarrow>
     (ph' = Holding \<Longrightarrow> ll_OwnedCount lock = length (ll_RequiredHashes lock)) \<Longrightarrow>
     (ph' = Waiting \<Longrightarrow> ll_OwnedCount lock < length (ll_RequiredHashes lock)) \<Longrightarrow> cmd_ok os c (lock', ph')"
  by (simp add: cmd_ok_def)

lemma linv_same_owners:
  assumes inv: "linv s" and c: "sys_cmds s c = Some (lock, ph)"
    and "owned (lock, ph') = owned (lock, ph)"
    and "ph' = Holding \<Longrightarrow> ll_OwnedCount lock = length (ll_RequiredHashes lock)"
    and "ph' = Waiting \<Longrightarrow> ll_OwnedCount lock < length (ll_RequiredHashes lock)"
    and "owners (la_slots (sys_latches s')) = owners (la_slots (sys_latches s))"
      "la_size (sys_latches s') = la_size (sys_latches s)"
      "sys_cmds s' = (sys_cmds s)(c := Some (lock, ph'))"
  shows "linv s'"
  by (rule linv_update [OF inv cmd_ok_cong [OF linv_cmd [OF inv c]]])
     (use assms linv_owner [OF inv _ c] in auto)

lemma linv_start:
  assumes inv: "linv s" and c: "c \<noteq> 0" "sys_cmds s c = None"
    and s': "la_slots (sys_latches s') = la_slots (sys_latches s)"
      "la_size (sys_latches s') = la_size (sys_latches s)"
      "sys_cmds s' = (sys_cmds s)(c := Some (GenLock (sys_latches s) keys, Acquiring))"
  shows "linv s'"
proof (rule linv_update [OF inv])
  let ?os = "owners (la_slots (sys_latches s))"
  show "cmd_ok ?os c (GenLock (sys_latches s) keys, Acquiring)"
    using c GenLock_required [where l = "sys_latches s" and keys = keys] linv_size [OF inv] by (simp add: cmd_ok_def)
  show "\<exists>h\<in>set (owned (GenLock (sys_latches s) keys, Acquiring)). unat h = i"
    if "i < length ?os" "?os ! i = c" for i
    using linv_slot [OF inv, of i] that c by simp
qed (use s' in auto)

lemma linv_take:
  assumes inv: "linv s" and c: "sys_cmds s c = Some (lock, Acquiring)"
    and n: "ll_OwnedCount lock < length (ll_RequiredHashes lock)"
    and t: "trySlot c (ll_RequiredHashes lock ! ll_OwnedCount lock) (la_slots (sys_latches s)) = (True, slots)"
    and s': "la_slots (sys_latches s') = slots"
      "la_size (sys_latches s') = la_size (sys_latches s)"
      "sys_cmds s' = (sys_cmds s)(c := Some (lock\<lparr>ll_OwnedCount := ll_OwnedCount lock + 1\<rparr>, Acquiring))"
  shows "linv s'"
proof (rule linv_update [OF inv])
  let ?os = "owners (la_slots (sys_latches s))" and ?h = "ll_RequiredHashes lock ! ll_OwnedCount lock"
    and ?lock = "lock\<lparr>ll_OwnedCount := ll_OwnedCount lock + 1\<rparr>"
  note ok = linv_cmd [OF inv c]
  have h: "unat ?h < length (la_slots (sys_latches s))" using ok n by (auto simp: cmd_ok_def)
  have owned: "owned (?lock, Acquiring) = owned (lock, Acquiring) @ [?h]"
    using n by (simp add: take_Suc_conv_app_nth)
  have free: "?os ! unat ?h = 0 \<or> ?os ! unat ?h = c" using trySlot_owners(2) [OF t h] by simp
  have os': "owners slots = ?os[unat ?h := c]" using trySlot_owners(3) [OF t h] by simp
  have new: "distinct (owned (?lock, Acquiring))" "set (owned (?lock, Acquiring)) \<subseteq> set (ll_RequiredHashes lock)"
    using ok by (auto simp: cmd_ok_def strict_sorted_iff dest: in_set_takeD)
  show "cmd_ok (owners slots) c (?lock, Acquiring)"
    using ok n new h unfolding cmd_ok_def owned os' by (auto simp: nth_list_update)
  show "\<exists>h\<in>set (owned (?lock, Acquiring)). unat h = i"
    if "i < length (owners slots)" "owners slots ! i = c" for i
    using linv_owner [OF inv _ c, of i] that h unfolding os' owned by (auto simp: nth_list_update split: if_splits)
  show "owners slots ! i = ?os ! i \<or> ?os ! i = 0 \<and> owners slots ! i = c \<or> ?os ! i = c \<and> owners slots ! i = 0"
    if "i < length (owners slots)" for i
    using free that h unfolding os' by (auto simp: nth_list_update)
  show "length (owners slots) = length ?os" by (simp only: os' length_list_update)
qed (use s' in simp_all)

lemma linv_free:
  assumes inv: "linv s" and c: "sys_cmds s c = Some (lock, Releasing (h # hs) wakeUp)"
    and f: "freeSlot c h (la_slots (sys_latches s)) = (w, slots)"
    and s': "la_slots (sys_latches s') = slots"
      "la_size (sys_latches s') = la_size (sys_latches s)"
      "sys_cmds s' = (sys_cmds s)(c := Some (lock, Releasing hs (wakeUp @ w)))"
  shows "linv s'"
proof (rule linv_update [OF inv])
  let ?os = "owners (la_slots (sys_latches s))"
  note ok = linv_cmd [OF inv c]
  have h: "unat h < length (la_slots (sys_latches s))" "?os ! unat h = c" "h \<notin> set hs"
    using ok by (auto simp: cmd_ok_def)
  have os': "owners slots = ?os[unat h := 0]" using freeSlot_owners(2) [OF f h(1)] h(2) by simp
  have ne: "unat h \<noteq> unat g" if "g \<in> set hs" for g using that h(3) by (auto dest!: unsigned_word_eqI)
  show "cmd_ok (owners slots) c (lock, Releasing hs (wakeUp @ w))"
    using ok by (simp add: cmd_ok_def os' nth_list_update ne)
  show "\<exists>h\<in>set (owned (lock, Releasing hs (wakeUp @ w))). unat h = i"
    if "i < length (owners slots)" "owners slots ! i = c" for i
  proof -
    have c0: "c \<noteq> 0" using ok by (simp add: cmd_ok_def)
    have "i \<noteq> unat h" using that h(1) c0 unfolding os' by (auto simp: nth_list_update)
    then show ?thesis using linv_owner [OF inv _ c, of i] that unfolding os' by (simp add: nth_list_update)
  qed
  show "owners slots ! i = ?os ! i \<or> ?os ! i = 0 \<and> owners slots ! i = c \<or> ?os ! i = c \<and> owners slots ! i = 0"
    if "i < length (owners slots)" for i
    using that h unfolding os' by (auto simp: nth_list_update)
  show "length (owners slots) = length ?os" by (simp only: os' length_list_update)
qed (use s' in simp_all)

lemma linv_signal:
  assumes inv: "linv s" and c: "sys_cmds s c = Some (lock, Releasing [] wakeUp)"
    and s': "la_slots (sys_latches s') = la_slots (sys_latches s)"
      "la_size (sys_latches s') = la_size (sys_latches s)" "sys_cmds s' = (sys_cmds s)(c := None)"
  shows "linv s'"
proof (rule linvI)
  show "\<exists>x. sys_cmds s' (owners (la_slots (sys_latches s')) ! i) = Some x \<and> (\<exists>h\<in>set (owned x). unat h = i)"
    if "i < length (la_slots (sys_latches s'))" "owners (la_slots (sys_latches s')) ! i \<noteq> 0" for i
    using linv_slot [OF inv, of i] that s' c by auto
  show "finite (dom (sys_cmds s'))" using linv_size [OF inv] s' by simp
qed (use linv_cmd [OF inv] linv_size [OF inv] s' in \<open>auto split: if_splits\<close>)

lemma linv_step: "lstep s s' \<Longrightarrow> linv s \<Longrightarrow> linv s'"
proof (induction rule: lstep.induct)
  case (lstep_start c s lock keys)
  show ?case by (rule linv_start [of s c _ keys]) (use lstep_start in simp_all)
next
  case (lstep_take s c lock slots)
  show ?case by (rule linv_take [of s c lock]) (use lstep_take in simp_all)
next
  case (lstep_block s c lock slots)
  have h: "unat (ll_RequiredHashes lock ! ll_OwnedCount lock) < length (la_slots (sys_latches s))"
    using linv_cmd [OF lstep_block(4,1)] lstep_block(2) by (simp add: cmd_ok_def)
  show ?case
    by (rule linv_same_owners [of s c lock Acquiring Waiting])
       (use lstep_block trySlot_owners(3) [OF lstep_block(3) h] in simp_all)
next
  case (lstep_hold s c lock)
  show ?case by (rule linv_same_owners [of s c lock Acquiring Holding]) (use lstep_hold in simp_all)
next
  case (lstep_wake s c lock)
  show ?case by (rule linv_same_owners [of s c lock Waiting Acquiring]) (use lstep_wake in simp_all)
next
  case (lstep_cancel s c lock)
  show ?case
    by (rule linv_same_owners [of s c lock Waiting "Releasing (take (ll_OwnedCount lock) (ll_RequiredHashes lock)) []"]) (use lstep_cancel in simp_all)
next
  case (lstep_release s c lock)
  show ?case
    by (rule linv_same_owners [of s c lock Holding "Releasing (take (ll_OwnedCount lock) (ll_RequiredHashes lock)) []"]) (use lstep_release in simp_all)
next
  case (lstep_free s c lock h hs wakeUp w slots)
  show ?case by (rule linv_free [of s c lock h hs wakeUp w slots]) (use lstep_free in simp_all)
next
  case (lstep_signal s c lock wakeUp)
  show ?case by (rule linv_signal [of s c lock wakeUp]) (use lstep_signal in simp_all)
qed

lemma linv_reach: "lreach n s \<Longrightarrow> linv s"
  by (induction rule: lreach.induct) (simp_all add: linv_init linv_step)

subsection \<open>Schedules\<close>

text \<open>The steps as a function: what a scheduler that names the command and its action does.\<close>

datatype laction = Start "bytes list" | Try | Hold | Wake | Cancel | Free | Signal

definition ldo :: "u64 \<times> laction \<Rightarrow> lsys \<Rightarrow> lsys option" where
  "ldo ca s =
     (let l = sys_latches s; c = fst ca;
          set_cmd = (\<lambda>x l'. Some (s\<lparr>sys_latches := l', sys_cmds := (sys_cmds s)(c := x)\<rparr>)) in
      case (snd ca, sys_cmds s c) of
        (Start keys, None) \<Rightarrow>
          if c = 0 then None
          else set_cmd (Some (GenLock l keys, Acquiring)) (l\<lparr>la_waiters := (la_waiters l)(c := Some False)\<rparr>)
      | (Try, Some (lock, Acquiring)) \<Rightarrow>
          if ll_OwnedCount lock < length (ll_RequiredHashes lock)
          then (case trySlot c (ll_RequiredHashes lock ! ll_OwnedCount lock) (la_slots l) of
                  (True, slots) \<Rightarrow> set_cmd (Some (lock\<lparr>ll_OwnedCount := ll_OwnedCount lock + 1\<rparr>, Acquiring)) (l\<lparr>la_slots := slots\<rparr>)
                | (False, slots) \<Rightarrow> set_cmd (Some (lock, Waiting)) (l\<lparr>la_slots := slots\<rparr>))
          else None
      | (Hold, Some (lock, Acquiring)) \<Rightarrow>
          if ll_OwnedCount lock = length (ll_RequiredHashes lock)
          then set_cmd (Some (lock, Holding)) (l\<lparr>la_waiters := (la_waiters l)(c := None)\<rparr>) else None
      | (Wake, Some (lock, Waiting)) \<Rightarrow>
          if la_waiters l c = Some True
          then set_cmd (Some (lock, Acquiring)) (l\<lparr>la_waiters := (la_waiters l)(c := Some False)\<rparr>) else None
      | (Cancel, Some (lock, Waiting)) \<Rightarrow>
          set_cmd (Some (lock, Releasing (take (ll_OwnedCount lock) (ll_RequiredHashes lock)) [])) l
      | (Free, Some (lock, Holding)) \<Rightarrow>
          set_cmd (Some (lock, Releasing (take (ll_OwnedCount lock) (ll_RequiredHashes lock)) [])) l
      | (Free, Some (lock, Releasing (h # hs) wakeUp)) \<Rightarrow>
          (case freeSlot c h (la_slots l) of
             (w, slots) \<Rightarrow> set_cmd (Some (lock, Releasing hs (wakeUp @ w))) (l\<lparr>la_slots := slots\<rparr>))
      | (Signal, Some (lock, Releasing [] wakeUp)) \<Rightarrow>
          set_cmd None (l\<lparr>la_waiters := (signal wakeUp (la_waiters l))(c := None)\<rparr>)
      | _ \<Rightarrow> None)"

lemma ldo_lstep: "ldo ca s = Some s' \<Longrightarrow> lstep s s'"
  by (auto simp: ldo_def Let_def split: laction.splits option.splits prod.splits phase.splits if_splits list.splits bool.splits
      intro: lstep.intros lstep_take [simplified])

primrec lrun :: "(u64 \<times> laction) list \<Rightarrow> lsys \<Rightarrow> lsys option" where
  "lrun [] s = Some s"
| "lrun (ca # cas) s = (case ldo ca s of None \<Rightarrow> None | Some s' \<Rightarrow> lrun cas s')"

lemma lrun_lreach: "lreach n s \<Longrightarrow> lrun cas s = Some s' \<Longrightarrow> lreach n s'"
  by (induction cas arbitrary: s) (auto split: option.splits dest: ldo_lstep intro: lreach_step)

lemma NewLatches_samples:
  "NewLatches 1 = \<lparr>la_slots = [\<lparr>ls_owner = 0, ls_waitQueue = []\<rparr>], la_size = 1, la_waiters = (\<lambda>_. None)\<rparr>"
  "NewLatches 2 = \<lparr>la_slots = [\<lparr>ls_owner = 0, ls_waitQueue = []\<rparr>, \<lparr>ls_owner = 0, ls_waitQueue = []\<rparr>],
     la_size = 2, la_waiters = (\<lambda>_. None)\<rparr>"
  by (simp_all add: NewLatches_def latch_size.simps Let_def numeral_2_eq_2)

lemma GenLock_one_slot: "GenLock l [k] = \<lparr>ll_RequiredHashes = [hashKey k AND of_nat (la_size l - 1)], ll_OwnedCount = 0\<rparr>"
  by (simp add: GenLock_def)

lemmas lrun_simps = lsys_init_def NewLatches_samples ldo_def Let_def GenLock_one_slot trySlot_def freeSlot_def signal_def

lemma lrun_init: "lrun cas (lsys_init n) = Some s \<Longrightarrow> lreach n s"
  by (rule lrun_lreach [OF lreach_init])

text \<open>Two commands on two of two slots, and three commands on the only slot.\<close>

definition two_holders :: lsys where
  "two_holders =
     \<lparr>sys_latches = \<lparr>la_slots = [\<lparr>ls_owner = 2, ls_waitQueue = []\<rparr>, \<lparr>ls_owner = 1, ls_waitQueue = []\<rparr>],
        la_size = 2, la_waiters = (\<lambda>_. None)\<rparr>,
      sys_cmds = (\<lambda>_. None)(1 \<mapsto> (\<lparr>ll_RequiredHashes = [1], ll_OwnedCount = 1\<rparr>, Holding),
                            2 \<mapsto> (\<lparr>ll_RequiredHashes = [0], ll_OwnedCount = 1\<rparr>, Holding))\<rparr>"

definition lost_wakeup :: lsys where
  "lost_wakeup =
     \<lparr>sys_latches = \<lparr>la_slots = [\<lparr>ls_owner = 0, ls_waitQueue = [3]\<rparr>],
        la_size = 1, la_waiters = (\<lambda>_. None)(3 \<mapsto> False)\<rparr>,
      sys_cmds = (\<lambda>_. None)(3 \<mapsto> (\<lparr>ll_RequiredHashes = [0], ll_OwnedCount = 0\<rparr>, Waiting))\<rparr>"

lemma hashKey_samples: "hashKey [] AND 1 = 1" "hashKey [1] AND 1 = 0"
  by (simp_all add: hashKey_def)

lemma two_holders_reach: "lreach 2 two_holders"
  by (rule lrun_init [where cas = "[(1, Start [[]]), (1, Try), (1, Hold), (2, Start [[1]]), (2, Try), (2, Hold)]"])
     (simp add: lrun_simps hashKey_samples two_holders_def fun_eq_iff)

lemma lost_wakeup_reach: "lreach 1 lost_wakeup"
  by (rule lrun_init [where cas = "[(1, Start [[]]), (1, Try), (1, Hold), (2, Start [[]]), (2, Try), (3, Start [[]]), (3, Try),
       (2, Cancel), (2, Signal), (1, Free), (1, Free), (1, Signal)]"])
     (simp add: lrun_simps NewLatches_samples [simplified] lost_wakeup_def fun_eq_iff)

subsection \<open>Properties\<close>

text \<open>C7: Two commands never hold latches on a common slot at the same time, in any
  interleaving of \<^verbatim>\<open>AcquireBlocking\<close> (its loop, its waiting, its cancellation) and
  \<^verbatim>\<open>Release\<close> by any number of commands; so two commands whose key lists share a key
  are never both past \<^verbatim>\<open>AcquireBlocking\<close>.\<close>

theorem latch_mutual_exclusion:
  assumes "lreach n s" "c \<noteq> d"
    and "sys_cmds s c = Some (lock, Holding)" "sys_cmds s d = Some (lock', Holding)"
    and "ll_RequiredHashes lock = ll_RequiredHashes (GenLock l keys)"
    and "ll_RequiredHashes lock' = ll_RequiredHashes (GenLock l keys')"
  shows "set (ll_RequiredHashes lock) \<inter> set (ll_RequiredHashes lock') = {} \<and> set keys \<inter> set keys' = {}"
proof -
  note ok = linv_cmd [OF linv_reach [OF assms(1)]]
  have own: "owners (la_slots (sys_latches s)) ! unat h = e"
    if "sys_cmds s e = Some (lk, Holding)" "h \<in> set (ll_RequiredHashes lk)" for e lk h
    using ok [OF that(1)] that(2) by (simp add: cmd_ok_def)
  have disj: "h \<notin> set (ll_RequiredHashes lock')" if "h \<in> set (ll_RequiredHashes lock)" for h
    using own [OF assms(3) that] own [OF assms(4)] assms(2) by blast
  have "k \<notin> set keys'" if "k \<in> set keys" for k
    using disj [of "hashKey k AND of_nat (la_size l - 1)"] that assms(5,6) GenLock_required(2) by auto
  with disj show ?thesis by blast
qed

theorem latch_mutual_exclusion_witness:
  "lreach 2 two_holders \<and> {0 :: u64} \<inter> {1} = {} \<and> set [[]] \<inter> set [[1 :: byte]] = {}"
  using latch_mutual_exclusion [OF two_holders_reach, where c = 1 and d = 2 and l = "NewLatches 2" and keys = "[[]]"
      and keys' = "[[1]]" and lock = "\<lparr>ll_RequiredHashes = [1], ll_OwnedCount = 1\<rparr>"
      and lock' = "\<lparr>ll_RequiredHashes = [0], ll_OwnedCount = 1\<rparr>"] two_holders_reach
  by (simp add: two_holders_def GenLock_one_slot hashKey_samples NewLatches_samples)

text \<open>The slot a command tries next.\<close>

definition next_slot :: "LatchLock \<Rightarrow> u64" where
  "next_slot lock = ll_RequiredHashes lock ! ll_OwnedCount lock"

lemma owner_waits_higher:
  assumes "cmd_ok os d (lock, ph)" "ph = Acquiring \<or> ph = Waiting" "h \<in> set (owned (lock, ph))"
    and "ll_OwnedCount lock < length (ll_RequiredHashes lock)"
  shows "h < next_slot lock"
proof -
  obtain j where j: "j < ll_OwnedCount lock" "h = ll_RequiredHashes lock ! j"
    using assms(2,3,4) by (auto simp: in_set_conv_nth)
  moreover have "sorted_wrt (<) (ll_RequiredHashes lock)" using assms(1) by (simp add: cmd_ok_def)
  ultimately show ?thesis using assms(4) by (simp add: next_slot_def sorted_wrt_iff_nth_less)
qed

lemma blocked_command_waits_for_higher:
  assumes inv: "linv s" and quiet: "\<And>c lock ph. sys_cmds s c = Some (lock, ph) \<Longrightarrow> ph = Acquiring \<or> ph = Waiting"
    and stuck: "\<And>c lock ph. sys_cmds s c = Some (lock, ph) \<Longrightarrow> ll_OwnedCount lock < length (ll_RequiredHashes lock) \<and>
        ls_owner (la_slots (sys_latches s) ! unat (next_slot lock)) \<noteq> 0"
    and c: "sys_cmds s c = Some (lock, ph)"
  shows "\<exists>d lock' ph'. sys_cmds s d = Some (lock', ph') \<and> next_slot lock < next_slot lock'"
proof -
  let ?os = "owners (la_slots (sys_latches s))"
  have i: "unat (next_slot lock) < length (la_slots (sys_latches s))"
    using linv_cmd [OF inv c] stuck [OF c] by (simp add: cmd_ok_def next_slot_def)
  then have "?os ! unat (next_slot lock) \<noteq> 0" using stuck [OF c] by (simp add: owners_def)
  then obtain x h where x: "sys_cmds s (?os ! unat (next_slot lock)) = Some x" "h \<in> set (owned x)"
      "unat h = unat (next_slot lock)"
    using linv_slot [OF inv i] by blast
  obtain lock' ph' where [simp]: "x = (lock', ph')" by (cases x)
  from x(3) have "h = next_slot lock" by (rule unsigned_word_eqI)
  moreover have "h < next_slot lock'"
    using owner_waits_higher [OF linv_cmd [OF inv x(1) [simplified]] quiet [OF x(1) [simplified]]] x stuck [OF x(1) [simplified]]
    by simp
  ultimately show ?thesis using x(1) by auto
qed

text \<open>C12: The latches cannot deadlock. In every reachable state in which some command is
  waiting or trying to acquire and no command holds or is releasing latches, some command
  either has all its latches or finds its next slot free.\<close>

theorem latch_no_deadlock:
  assumes "lreach n s" "sys_cmds s c \<noteq> None"
    and quiet: "\<forall>c lock ph. sys_cmds s c = Some (lock, ph) \<longrightarrow> ph = Acquiring \<or> ph = Waiting"
  shows "\<exists>c lock ph. sys_cmds s c = Some (lock, ph) \<and>
     (ll_OwnedCount lock = length (ll_RequiredHashes lock) \<or>
      ls_owner (la_slots (sys_latches s) ! unat (ll_RequiredHashes lock ! ll_OwnedCount lock)) = 0)"
proof (rule ccontr)
  assume no: "\<not> ?thesis"
  note inv = linv_reach [OF assms(1)]
  have stuck: "ll_OwnedCount lock < length (ll_RequiredHashes lock) \<and>
      ls_owner (la_slots (sys_latches s) ! unat (next_slot lock)) \<noteq> 0" if "sys_cmds s c = Some (lock, ph)" for c lock ph
    using no that linv_cmd [OF inv that] by (auto simp: next_slot_def cmd_ok_def order.order_iff_strict)
  let ?N = "(\<lambda>x. next_slot (fst x)) ` ran (sys_cmds s)"
  have "finite ?N" using linv_size [OF inv] by (simp add: finite_ran)
  moreover have "?N \<noteq> {}" using assms(2) by (auto simp: ran_def)
  ultimately have m: "Max ?N \<in> ?N" "\<And>h. h \<in> ?N \<Longrightarrow> h \<le> Max ?N" by simp_all
  then obtain d lock ph where d: "sys_cmds s d = Some (lock, ph)" "Max ?N = next_slot lock"
    by (auto simp: ran_def)
  have "\<exists>e lock' ph'. sys_cmds s e = Some (lock', ph') \<and> next_slot lock < next_slot lock'"
    by (rule blocked_command_waits_for_higher [OF inv _ stuck d(1)]) (use quiet in blast)+
  then obtain e lock' ph' where e: "sys_cmds s e = Some (lock', ph')" "next_slot lock < next_slot lock'"
    by blast
  then have "next_slot lock' \<in> ?N" by (force simp: ran_def)
  from m(2) [OF this] d(2) e(2) show False by simp
qed

theorem latch_no_deadlock_witness:
  "\<exists>c lock ph. sys_cmds lost_wakeup c = Some (lock, ph) \<and>
     (ll_OwnedCount lock = length (ll_RequiredHashes lock) \<or>
      ls_owner (la_slots (sys_latches lost_wakeup) ! unat (ll_RequiredHashes lock ! ll_OwnedCount lock)) = 0)"
  by (rule latch_no_deadlock [OF lost_wakeup_reach, where c = 3]) (simp_all add: lost_wakeup_def)

text \<open>A cancelled wait can lose the wake-up of another command. Command 1 holds the slot,
  2 and 3 wait for it, the wait of 2 is cancelled, which leaves 2 in the queue; the release
  of 1 then takes 2 off the queue and signals nobody. The state reached has command 3 waiting
  with nothing in its channel, although the slot is free and no other command exists.\<close>

theorem latch_lost_wakeup:
  "\<exists>s lock. lreach 1 s \<and> sys_cmds s = [3 \<mapsto> (lock, Waiting)] \<and> la_waiters (sys_latches s) 3 = Some False \<and>
     ll_RequiredHashes lock = [0] \<and> ls_owner (la_slots (sys_latches s) ! 0) = 0"
  by (rule exI [of _ lost_wakeup], rule exI [of _ "\<lparr>ll_RequiredHashes = [0], ll_OwnedCount = 0\<rparr>"])
     (use lost_wakeup_reach in \<open>simp add: lost_wakeup_def\<close>)

subsection \<open>One command at a time\<close>

definition all_free :: "Latches \<Rightarrow> bool" where
  "all_free l \<longleftrightarrow> (\<forall>slot \<in> set (la_slots l). slot = \<lparr>ls_owner = 0, ls_waitQueue = []\<rparr>) \<and>
     length (la_slots l) = la_size l \<and> 0 < la_size l"


lemma all_free_NewLatches: "all_free (NewLatches n)"
  using latch_size_bounds [of 1 n] by (simp add: all_free_def NewLatches_def Let_def)

lemma Acquire_loop_free:
  assumes "\<And>h. h \<in> set hs \<Longrightarrow> unat h < length slots \<and> ls_owner (slots ! unat h) = 0" "distinct hs"
  shows "\<exists>slots'. Acquire_loop c hs k slots = (True, k + length hs, slots') \<and> length slots' = length slots \<and>
     (\<forall>i < length slots. slots' ! i = (if i \<in> unat ` set hs then (slots ! i)\<lparr>ls_owner := c\<rparr> else slots ! i))"
  using assms
proof (induction hs arbitrary: k slots)
  case (Cons h hs)
  let ?slots = "slots[unat h := (slots ! unat h)\<lparr>ls_owner := c\<rparr>]"
  have ne: "unat h \<noteq> unat g" if "g \<in> set hs" for g using that Cons.prems(2) by (auto dest!: unsigned_word_eqI)
  have "\<exists>slots'. Acquire_loop c hs (k + 1) ?slots = (True, k + 1 + length hs, slots') \<and> length slots' = length ?slots \<and>
     (\<forall>i < length ?slots. slots' ! i = (if i \<in> unat ` set hs then (?slots ! i)\<lparr>ls_owner := c\<rparr> else ?slots ! i))"
    by (rule Cons.IH) (use Cons.prems ne in auto)
  moreover have "unat h < length slots" "ls_owner (slots ! unat h) = 0" using Cons.prems by auto
  ultimately show ?case using ne by (force simp: trySlot_def nth_list_update)
qed simp

lemma Release_loop_owned:
  assumes "\<And>h. h \<in> set hs \<Longrightarrow> unat h < length slots \<and> ls_owner (slots ! unat h) = c \<and> ls_waitQueue (slots ! unat h) = []"
    and "distinct hs"
  shows "\<exists>slots'. Release_loop c hs wakeUp slots = (wakeUp, slots') \<and> length slots' = length slots \<and>
     (\<forall>i < length slots. slots' ! i = (if i \<in> unat ` set hs then (slots ! i)\<lparr>ls_owner := 0\<rparr> else slots ! i))"
  using assms
proof (induction hs arbitrary: wakeUp slots)
  case (Cons h hs)
  let ?slots = "slots[unat h := (slots ! unat h)\<lparr>ls_owner := 0\<rparr>]"
  have ne: "unat h \<noteq> unat g" if "g \<in> set hs" for g using that Cons.prems(2) by (auto dest!: unsigned_word_eqI)
  have "\<exists>slots'. Release_loop c hs wakeUp ?slots = (wakeUp, slots') \<and> length slots' = length ?slots \<and>
     (\<forall>i < length ?slots. slots' ! i = (if i \<in> unat ` set hs then (?slots ! i)\<lparr>ls_owner := 0\<rparr> else ?slots ! i))"
    by (rule Cons.IH) (use Cons.prems ne in auto)
  moreover have "unat h < length slots" "ls_owner (slots ! unat h) = c" "ls_waitQueue (slots ! unat h) = []"
    using Cons.prems by auto
  ultimately show ?case using ne by (force simp: freeSlot_def nth_list_update)
qed simp

lemma Acquire_Release_free:
  assumes "all_free l"
  shows "\<exists>lock l'. Acquire (GenLock l keys) c l = (True, lock, l') \<and> la_waiters l' = la_waiters l \<and>
     Release lock c l' = ([], lock\<lparr>ll_OwnedCount := 0\<rparr>, l)"
proof -
  let ?hs = "ll_RequiredHashes (GenLock l keys)"
  have hs: "unat h < length (la_slots l)" "la_slots l ! unat h = \<lparr>ls_owner = 0, ls_waitQueue = []\<rparr>" if "h \<in> set ?hs" for h
    using assms GenLock_required(4) [OF _ that] by (simp_all add: all_free_def)
  have d: "distinct ?hs" using GenLock_required(1) by (auto simp: strict_sorted_iff)
  obtain slots where a: "Acquire_loop c ?hs 0 (la_slots l) = (True, length ?hs, slots)" "length slots = length (la_slots l)"
      "\<And>i. i < length (la_slots l) \<Longrightarrow> slots ! i = (if i \<in> unat ` set ?hs then (la_slots l ! i)\<lparr>ls_owner := c\<rparr> else la_slots l ! i)"
    using Acquire_loop_free [of ?hs "la_slots l" c 0] hs d by auto
  obtain slots' where r: "Release_loop c ?hs [] slots = ([], slots')" "length slots' = length slots"
      "\<And>i. i < length slots \<Longrightarrow> slots' ! i = (if i \<in> unat ` set ?hs then (slots ! i)\<lparr>ls_owner := 0\<rparr> else slots ! i)"
    using Release_loop_owned [of ?hs slots c "[]"] hs d a(2,3) by auto
  have "slots' = la_slots l"
    using a r hs by (intro nth_equalityI) auto
  with a(1) r(1) show ?thesis
    by (simp add: Acquire_def Release_def GenLock_required(3) signal_def)
qed

end
