(* ===== verification/Concurrency.thy ===== *)
theory Concurrency
  imports Txntypes "HOL-Library.AList"
begin

section \<open>Package concurrency: the concurrency manager\<close>

text \<open>
  Models \<^verbatim>\<open>internal/storage/txn/concurrency/manager.go\<close>: the largest timestamp seen so far and
  the table of in-memory locks. The table is an association list without duplicate keys; its
  order is the order in which \<^verbatim>\<open>Range\<close> visits it, which the code leaves open. The loop of
  \<^verbatim>\<open>UpdateMaxTS\<close> around its compare-and-swap is a step relation over any number of threads,
  so that every interleaving of loads and swaps is covered.

  The lemmas show that concurrent updates never lose the maximum, that a failed swap means
  that another thread has raised it, and that the minimum over the lock table does not
  depend on the order of the visit.
\<close>

record LockHandle =
  lh_Key :: bytes
  lh_StartTS :: TimeStamp

record Manager =
  mgr_maxTS :: u64
  mgr_lockTable :: "(bytes \<times> LockHandle) list"

definition NewManager :: Manager where
  "NewManager = \<lparr>mgr_maxTS = 0, mgr_lockTable = []\<rparr>"

text \<open>\<^verbatim>\<open>UpdateMaxTS\<close> of a single thread: the first swap succeeds.\<close>

definition UpdateMaxTS :: "TimeStamp \<Rightarrow> Manager \<Rightarrow> Manager" where
  "UpdateMaxTS ts m =
     (let current = mgr_maxTS m in
      if ts \<le> current then m else m\<lparr>mgr_maxTS := ts\<rparr>)"

definition MaxTS :: "Manager \<Rightarrow> TimeStamp" where
  "MaxTS m = mgr_maxTS m"

text \<open>The guard is the key under which \<^verbatim>\<open>Release\<close> deletes the entry.\<close>

definition LockKey :: "bytes \<Rightarrow> TimeStamp \<Rightarrow> Manager \<Rightarrow> bytes \<times> Manager" where
  "LockKey key startTS m =
     (key, m\<lparr>mgr_lockTable := AList.update key \<lparr>lh_Key = key, lh_StartTS = startTS\<rparr> (mgr_lockTable m)\<rparr>)"

definition KeyHandleGuard_Release :: "bytes \<Rightarrow> Manager \<Rightarrow> Manager" where
  "KeyHandleGuard_Release key m = m\<lparr>mgr_lockTable := AList.delete key (mgr_lockTable m)\<rparr>"

definition IsKeyLocked :: "bytes \<Rightarrow> Manager \<Rightarrow> LockHandle option" where
  "IsKeyLocked key m = map_of (mgr_lockTable m) key"

fun GlobalMinLock_loop :: "(bytes \<times> LockHandle) list \<Rightarrow> TimeStamp option \<Rightarrow> TimeStamp option" where
  "GlobalMinLock_loop [] minTS = minTS"
| "GlobalMinLock_loop ((_, handle) # rest) minTS =
     GlobalMinLock_loop rest
       (case minTS of
          None \<Rightarrow> Some (lh_StartTS handle)
        | Some t \<Rightarrow> if lh_StartTS handle < t then Some (lh_StartTS handle) else Some t)"

definition GlobalMinLock :: "Manager \<Rightarrow> TimeStamp option" where
  "GlobalMinLock m = GlobalMinLock_loop (mgr_lockTable m) None"

definition LockCount :: "Manager \<Rightarrow> nat" where
  "LockCount m = foldl (\<lambda>count _. count + 1) 0 (mgr_lockTable m)"

subsection \<open>Concurrent updates of the maximum\<close>

text \<open>A thread in \<^verbatim>\<open>UpdateMaxTS(ts)\<close>: before the load, between the load and the swap, or
  returned.\<close>

datatype uphase = Loading | Loaded u64 | Returned

record msys =
  ms_maxTS :: u64
  ms_threads :: "nat \<Rightarrow> (TimeStamp \<times> uphase) option"

inductive mstep :: "msys \<Rightarrow> msys \<Rightarrow> bool" where
  mstep_call:
    "ms_threads s t = None \<Longrightarrow> mstep s (s\<lparr>ms_threads := (ms_threads s)(t \<mapsto> (ts, Loading))\<rparr>)"
| mstep_load:
    "ms_threads s t = Some (ts, Loading) \<Longrightarrow> current = ms_maxTS s \<Longrightarrow>
     mstep s (s\<lparr>ms_threads := (ms_threads s)(t \<mapsto> (ts, if ts \<le> current then Returned else Loaded current))\<rparr>)"
| mstep_swap:
    "ms_threads s t = Some (ts, Loaded current) \<Longrightarrow> ms_maxTS s = current \<Longrightarrow>
     mstep s (s\<lparr>ms_maxTS := ts, ms_threads := (ms_threads s)(t \<mapsto> (ts, Returned))\<rparr>)"
| mstep_fail:
    "ms_threads s t = Some (ts, Loaded current) \<Longrightarrow> ms_maxTS s \<noteq> current \<Longrightarrow>
     mstep s (s\<lparr>ms_threads := (ms_threads s)(t \<mapsto> (ts, Loading))\<rparr>)"

inductive mreach :: "msys \<Rightarrow> bool" where
  mreach_init: "mreach \<lparr>ms_maxTS = 0, ms_threads = (\<lambda>_. None)\<rparr>"
| mreach_step: "mreach s \<Longrightarrow> mstep s s' \<Longrightarrow> mreach s'"

definition minv :: "msys \<Rightarrow> bool" where
  "minv s \<longleftrightarrow>
     (\<forall>t ts. ms_threads s t = Some (ts, Returned) \<longrightarrow> ts \<le> ms_maxTS s) \<and>
     (\<forall>t ts current. ms_threads s t = Some (ts, Loaded current) \<longrightarrow> current < ts \<and> current \<le> ms_maxTS s) \<and>
     (ms_maxTS s = 0 \<or> (\<exists>t. ms_threads s t = Some (ms_maxTS s, Returned)))"

lemma minv_Returned: "minv s \<Longrightarrow> ms_threads s t = Some (ts, Returned) \<Longrightarrow> ts \<le> ms_maxTS s"
  unfolding minv_def by blast

lemma minv_Loaded:
  "minv s \<Longrightarrow> ms_threads s t = Some (ts, Loaded current) \<Longrightarrow> current < ts \<and> current \<le> ms_maxTS s"
  unfolding minv_def by blast

lemma minv_origin: "minv s \<Longrightarrow> ms_maxTS s = 0 \<or> (\<exists>t. ms_threads s t = Some (ms_maxTS s, Returned))"
  unfolding minv_def by blast

lemma minv_swap: "minv s \<Longrightarrow> ms_threads s t = Some (ts, Loaded (ms_maxTS s)) \<Longrightarrow> ms_maxTS s < ts"
  using minv_Loaded by blast

lemma mstep_mono: "mstep s s' \<Longrightarrow> minv s \<Longrightarrow> ms_maxTS s \<le> ms_maxTS s'"
proof (induction rule: mstep.induct)
  case (mstep_swap s t ts current)
  then have "ms_maxTS s < ts" by (intro minv_swap) simp_all
  then show ?case by simp
qed simp_all

text \<open>A step of one thread that leaves the maximum alone, or raises it to its own argument.\<close>

lemma minv_update:
  assumes inv: "minv s" and t: "\<And>ts. ms_threads s t \<noteq> Some (ts, Returned)"
    and le: "ms_maxTS s \<le> mx" and origin: "mx = ms_maxTS s \<or> (mx = ts \<and> ph = Returned)"
    and ret: "ph = Returned \<Longrightarrow> ts \<le> mx" and load: "\<And>current. ph = Loaded current \<Longrightarrow> current < ts \<and> current \<le> mx"
    and s': "ms_maxTS s' = mx" "ms_threads s' = (ms_threads s)(t \<mapsto> (ts, ph))"
  shows "minv s'"
proof -
  have "mx = 0 \<or> (\<exists>u. ((ms_threads s)(t \<mapsto> (ts, ph))) u = Some (mx, Returned))"
  proof (cases "mx = ms_maxTS s")
    case True
    from minv_origin [OF inv] show ?thesis
    proof
      assume "\<exists>u. ms_threads s u = Some (ms_maxTS s, Returned)"
      then obtain u where u: "ms_threads s u = Some (ms_maxTS s, Returned)" ..
      with t have "u \<noteq> t" by auto
      with u True show ?thesis by (intro disjI2 exI [of _ u]) simp
    qed (simp add: True)
  next
    case False
    with origin show ?thesis by (intro disjI2 exI [of _ t]) simp
  qed
  moreover have "x \<le> mx" if "((ms_threads s)(t \<mapsto> (ts, ph))) u = Some (x, Returned)" for u x
    using that ret minv_Returned [OF inv, of u x] le by (auto split: if_splits)
  moreover have "c < x \<and> c \<le> mx" if "((ms_threads s)(t \<mapsto> (ts, ph))) u = Some (x, Loaded c)" for u x c
    using that load minv_Loaded [OF inv, of u x c] le by (auto split: if_splits)
  ultimately show ?thesis unfolding minv_def s' by blast
qed

lemma minv_step: "mstep s s' \<Longrightarrow> minv s \<Longrightarrow> minv s'"
proof (induction rule: mstep.induct)
  case (mstep_call s t ts)
  show ?case by (rule minv_update [of s t _ ts Loading]) (use mstep_call in simp_all)
next
  case (mstep_load s t ts current)
  show ?case
    by (rule minv_update [of s t _ ts "if ts \<le> current then Returned else Loaded current"])
       (use mstep_load in \<open>auto split: if_splits\<close>)
next
  case (mstep_swap s t ts current)
  then have "ms_maxTS s < ts" by (intro minv_swap) simp_all
  then show ?case by - (rule minv_update [of s t _ ts Returned], use mstep_swap in simp_all)
next
  case (mstep_fail s t ts current)
  show ?case by (rule minv_update [of s t _ ts Loading]) (use mstep_fail in simp_all)
qed

lemma minv_reach: "mreach s \<Longrightarrow> minv s"
  by (induction rule: mreach.induct) (simp add: minv_def, rule minv_step)

subsection \<open>The lock table\<close>

definition table_ok :: "Manager \<Rightarrow> bool" where
  "table_ok m \<longleftrightarrow> distinct (map fst (mgr_lockTable m))"

lemma table_ok_ops:
  "table_ok NewManager" "table_ok m \<Longrightarrow> table_ok (snd (LockKey k s m))"
  "table_ok m \<Longrightarrow> table_ok (KeyHandleGuard_Release k m)" "table_ok m \<Longrightarrow> table_ok (UpdateMaxTS ts m)"
  by (simp_all add: table_ok_def NewManager_def LockKey_def KeyHandleGuard_Release_def UpdateMaxTS_def
      distinct_update distinct_delete Let_def)

lemma GlobalMinLock_loop_Min:
  "GlobalMinLock_loop tbl (Some t) = Some (Min (insert t ((\<lambda>e. lh_StartTS (snd e)) ` set tbl)))"
proof (induction tbl arbitrary: t)
  case (Cons e tbl)
  obtain k h where e: "e = (k, h)" by (cases e)
  let ?A = "(\<lambda>e. lh_StartTS (snd e)) ` set tbl"
  have "Min (insert t (insert (lh_StartTS h) ?A)) = Min (insert (min (lh_StartTS h) t) ?A)"
    by (cases "?A = {}") (simp_all add: min.commute min.left_commute min.assoc del: image_is_empty)
  moreover have "GlobalMinLock_loop (e # tbl) (Some t) = GlobalMinLock_loop tbl (Some (min (lh_StartTS h) t))"
    by (cases "lh_StartTS h < t") (simp_all add: e min_absorb1 min_absorb2 less_imp_le)
  ultimately show ?case using Cons by (simp add: e)
qed simp

lemma GlobalMinLock_Min:
  "GlobalMinLock m =
     (if mgr_lockTable m = [] then None else Some (Min ((\<lambda>e. lh_StartTS (snd e)) ` set (mgr_lockTable m))))"
proof (cases "mgr_lockTable m")
  case (Cons e tbl)
  then show ?thesis by (cases e) (simp add: GlobalMinLock_def GlobalMinLock_loop_Min)
qed (simp add: GlobalMinLock_def)

text \<open>Concurrent calls of \<^verbatim>\<open>UpdateMaxTS\<close> keep the maximum. In every interleaving of their
  loads and swaps the stored timestamp is 0 or the argument of a call that has returned, is
  not below the argument of any call that has returned, and never decreases; and a swap
  fails only when another thread has raised the maximum since the load.\<close>

theorem UpdateMaxTS_concurrent:
  assumes "mreach s"
  shows "(ms_maxTS s = 0 \<or> (\<exists>t. ms_threads s t = Some (ms_maxTS s, Returned))) \<and>
    (\<forall>t ts. ms_threads s t = Some (ts, Returned) \<longrightarrow> ts \<le> ms_maxTS s) \<and>
    (\<forall>s'. mstep s s' \<longrightarrow> ms_maxTS s \<le> ms_maxTS s') \<and>
    (\<forall>t ts current. ms_threads s t = Some (ts, Loaded current) \<longrightarrow> ms_maxTS s \<noteq> current \<longrightarrow> current < ms_maxTS s)"
proof -
  have inv: "minv s" by (rule minv_reach [OF assms])
  have "current < ms_maxTS s" if "ms_threads s t = Some (ts, Loaded current)" "ms_maxTS s \<noteq> current" for t ts current
    using minv_Loaded [OF inv that(1)] that(2) by (auto simp: less_le)
  with minv_origin [OF inv] minv_Returned [OF inv] mstep_mono [OF _ inv] show ?thesis by blast
qed

definition two_updates :: msys where
  "two_updates = \<lparr>ms_maxTS = 9, ms_threads = (\<lambda>_. None)(0 \<mapsto> (5, Loaded 0), 1 \<mapsto> (9, Returned))\<rparr>"

lemma two_updates_reach: "mreach two_updates"
proof -
  have a: "mreach \<lparr>ms_maxTS = 0, ms_threads = (\<lambda>_. None)(0 \<mapsto> (5, Loading))\<rparr>"
    using mreach_step [OF mreach_init mstep_call [of _ 0 5]] by simp
  have b: "mreach \<lparr>ms_maxTS = 0, ms_threads = (\<lambda>_. None)(0 \<mapsto> (5, Loaded 0))\<rparr>"
    using mreach_step [OF a mstep_load [of _ 0 5]] by simp
  have c: "mreach \<lparr>ms_maxTS = 0, ms_threads = (\<lambda>_. None)(0 \<mapsto> (5, Loaded 0), 1 \<mapsto> (9, Loading))\<rparr>"
    using mreach_step [OF b mstep_call [of _ 1 9]] by simp
  have d: "mreach \<lparr>ms_maxTS = 0, ms_threads = (\<lambda>_. None)(0 \<mapsto> (5, Loaded 0), 1 \<mapsto> (9, Loaded 0))\<rparr>"
    using mreach_step [OF c mstep_load [of _ 1 9]] by simp
  show ?thesis
    using mreach_step [OF d mstep_swap [of _ 1 9 0]] by (simp add: two_updates_def)
qed

theorem UpdateMaxTS_concurrent_witness:
  "ms_threads two_updates 0 = Some (5, Loaded 0) \<and> 0 < ms_maxTS two_updates"
  using UpdateMaxTS_concurrent [OF two_updates_reach] by (simp add: two_updates_def)

end
