(* ===== verification/Storage.thy ===== *)
theory Storage
  imports TxnProperties Latch Concurrency
begin

section \<open>Server: the transactional storage\<close>

text \<open>
  Models \<^verbatim>\<open>internal/server/storage.go\<close>: every method of \<^verbatim>\<open>Storage\<close> that the gRPC handlers call,
  in its standalone form (latch, snapshot, action, apply, release) and in its cluster form
  (\<^verbatim>\<open>...Modifies\<close>, which returns the modifications and keeps the latches until
  \<^verbatim>\<open>ReleaseLatch\<close>). The state is the record \<open>Storage\<close>: the engine, the latches, the
  concurrency manager and the counter of command ids. A method is a function of that state;
  \<open>None\<close> stands for a call that waits for latches another command holds. The duration
  metrics have no place in the model.

  The lemmas show that with free latches every standalone method returns with the latches
  free again, that the cluster form followed by \<^verbatim>\<open>ApplyModifies\<close> and \<^verbatim>\<open>ReleaseLatch\<close> is the
  standalone form, that the MVCC invariant is kept by every method, and what a two-phase
  commit over several keys does to readers.
\<close>

subsection \<open>The state and the latch protocol\<close>

record Storage =
  sto_engine :: store
  sto_latches :: Latches
  sto_concMgr :: Manager
  sto_cmdID :: u64

definition NewStorage :: "store \<Rightarrow> Storage" where
  "NewStorage engine =
     \<lparr>sto_engine = engine, sto_latches = NewLatches 2048, sto_concMgr = NewManager, sto_cmdID = 0\<rparr>"

definition allocCmdID :: "Storage \<Rightarrow> u64 \<times> Storage" where
  "allocCmdID s = (sto_cmdID s + 1, s\<lparr>sto_cmdID := sto_cmdID s + 1\<rparr>)"

record LatchGuard =
  lg_lock :: LatchLock
  lg_cmdID :: u64

definition ReleaseLatch :: "LatchGuard option \<Rightarrow> Storage \<Rightarrow> Storage" where
  "ReleaseLatch g s =
     (case g of
        None \<Rightarrow> s
      | Some g \<Rightarrow> s\<lparr>sto_latches := snd (snd (Release (lg_lock g) (lg_cmdID g) (sto_latches s)))\<rparr>)"

definition Storage_ApplyModifies :: "Modify list \<Rightarrow> Storage \<Rightarrow> go_error option \<times> Storage" where
  "Storage_ApplyModifies modifies s =
     (case ApplyModifies modifies (sto_engine s) of
        Inl e \<Rightarrow> (Some e, s)
      | Inr st \<Rightarrow> (None, s\<lparr>sto_engine := st\<rparr>))"

text \<open>\<^verbatim>\<open>AcquireBlocking\<close> with a background context, as long as nobody else moves: it returns
  the lock when all slots can be taken, and waits otherwise.\<close>

definition AcquireBlocking :: "LatchLock \<Rightarrow> u64 \<Rightarrow> Latches \<Rightarrow> (LatchLock \<times> Latches) option" where
  "AcquireBlocking lock commandID l =
     (case Acquire lock commandID (l\<lparr>la_waiters := (la_waiters l)(commandID := Some False)\<rparr>) of
        (True, lock, l) \<Rightarrow> Some (lock, l\<lparr>la_waiters := (la_waiters l)(commandID := None)\<rparr>)
      | (False, _, _) \<Rightarrow> None)"

text \<open>The prologue of every command: a fresh id, the latches of its keys.\<close>

definition takeLatch :: "bytes list \<Rightarrow> Storage \<Rightarrow> (LatchGuard \<times> Storage) option" where
  "takeLatch keys s =
     (let (cmdID, s) = allocCmdID s;
          lock = GenLock (sto_latches s) keys in
      case AcquireBlocking lock cmdID (sto_latches s) of
        None \<Rightarrow> None
      | Some (lock, l) \<Rightarrow> Some (\<lparr>lg_lock = lock, lg_cmdID = cmdID\<rparr>, s\<lparr>sto_latches := l\<rparr>))"

text \<open>The standalone form releases the latches when the body returns (\<^verbatim>\<open>defer\<close>); the cluster
  form hands the guard to its caller.\<close>

definition standalone :: "bytes list \<Rightarrow> (Storage \<Rightarrow> 'a \<times> Storage) \<Rightarrow> Storage \<Rightarrow> ('a \<times> Storage) option" where
  "standalone keys body s =
     (case takeLatch keys s of
        None \<Rightarrow> None
      | Some (guard, s) \<Rightarrow> let (r, s) = body s in Some (r, ReleaseLatch (Some guard) s))"

definition guarded :: "bytes list \<Rightarrow> (store \<Rightarrow> 'a) \<Rightarrow> Storage \<Rightarrow> (('a \<times> LatchGuard option) \<times> Storage) option" where
  "guarded keys body s =
     (case takeLatch keys s of
        None \<Rightarrow> None
      | Some (guard, s) \<Rightarrow> Some ((body (sto_engine s), Some guard), s))"

subsection \<open>Loops over mutations and keys\<close>

text \<open>\<^verbatim>\<open>errs[i] = action(mvccTxn, reader, ..., item)\<close> for every item: errors do not stop the loop.\<close>

fun each :: "(MvccTxn \<Rightarrow> 'i \<Rightarrow> txn_error + MvccTxn) \<Rightarrow> 'i list \<Rightarrow> MvccTxn \<Rightarrow> txn_error option list \<times> MvccTxn" where
  "each act [] txn = ([], txn)"
| "each act (i # is) txn =
     (case act txn i of
        Inl e \<Rightarrow> let (errs, txn) = each act is txn in (Some e # errs, txn)
      | Inr txn \<Rightarrow> let (errs, txn) = each act is txn in (None # errs, txn))"

text \<open>\<^verbatim>\<open>if err := action(...); err != nil \{ return err \}\<close> for every key.\<close>

fun every :: "(MvccTxn \<Rightarrow> 'i \<Rightarrow> txn_error + MvccTxn) \<Rightarrow> 'i list \<Rightarrow> MvccTxn \<Rightarrow> txn_error + MvccTxn" where
  "every act [] txn = Inr txn"
| "every act (i # is) txn = res_bind (act txn i) (every act is)"

definition hasError :: "'e option list \<Rightarrow> bool" where
  "hasError errs = list_ex (\<lambda>e. e \<noteq> None) errs"

text \<open>Apply when no item failed; a failing apply is reported for every item.\<close>

definition applyEach :: "txn_error option list \<times> MvccTxn \<Rightarrow> Storage \<Rightarrow> txn_error option list \<times> Storage" where
  "applyEach r s =
     (let (errs, txn) = r in
      if hasError errs then (errs, s)
      else
        case Storage_ApplyModifies (txn_Modifies txn) s of
          (Some e, s) \<Rightarrow> (map (\<lambda>_. Some (TxnErr e)) errs, s)
        | (None, s) \<Rightarrow> (errs, s))"

definition applyEvery :: "txn_error + MvccTxn \<Rightarrow> Storage \<Rightarrow> txn_error option \<times> Storage" where
  "applyEvery r s =
     (case r of
        Inl e \<Rightarrow> (Some e, s)
      | Inr txn \<Rightarrow> (case Storage_ApplyModifies (txn_Modifies txn) s of (e, s) \<Rightarrow> (map_option TxnErr e, s)))"

definition modifiesEach :: "txn_error option list \<times> MvccTxn \<Rightarrow> Modify list \<times> txn_error option list" where
  "modifiesEach r = (let (errs, txn) = r in if hasError errs then ([], errs) else (txn_Modifies txn, errs))"

definition modifiesEvery :: "txn_error + MvccTxn \<Rightarrow> Modify list \<times> txn_error option" where
  "modifiesEvery r = (case r of Inl e \<Rightarrow> ([], Some e) | Inr txn \<Rightarrow> (txn_Modifies txn, None))"

subsection \<open>Reads\<close>

definition Storage_GetWithIsolation :: "bytes \<Rightarrow> TimeStamp \<Rightarrow> IsolationLevel \<Rightarrow> Storage \<Rightarrow> (mvcc_error + bytes option) option" where
  "Storage_GetWithIsolation key version level s =
     PointGetter_Get (NewPointGetter (sto_engine s) version level) key"

definition Storage_Get :: "bytes \<Rightarrow> TimeStamp \<Rightarrow> Storage \<Rightarrow> (mvcc_error + bytes option) option" where
  "Storage_Get key version s = Storage_GetWithIsolation key version IsolationLevelSI s"

record KvPairResult =
  kv_Key :: bytes
  kv_Value :: "bytes option"
  kv_Err :: "mvcc_error option"

fun BatchGet_loop :: "store \<Rightarrow> TimeStamp \<Rightarrow> bytes list \<Rightarrow> KvPairResult list \<Rightarrow> KvPairResult list option" where
  "BatchGet_loop snap version [] results = Some results"
| "BatchGet_loop snap version (key # keys) results =
     (case PointGetter_Get (NewPointGetter snap version IsolationLevelSI) key of
        None \<Rightarrow> None
      | Some (Inl e) \<Rightarrow>
          BatchGet_loop snap version keys (results @ [\<lparr>kv_Key = key, kv_Value = None, kv_Err = Some e\<rparr>])
      | Some (Inr None) \<Rightarrow> BatchGet_loop snap version keys results
      | Some (Inr (Some v)) \<Rightarrow>
          BatchGet_loop snap version keys (results @ [\<lparr>kv_Key = key, kv_Value = Some v, kv_Err = None\<rparr>]))"

definition Storage_BatchGet :: "bytes list \<Rightarrow> TimeStamp \<Rightarrow> Storage \<Rightarrow> KvPairResult list option" where
  "Storage_BatchGet keys version s = BatchGet_loop (sto_engine s) version keys []"

definition Storage_CheckTxnStatus :: "bytes \<Rightarrow> TimeStamp \<Rightarrow> Storage \<Rightarrow> txn_error + TxnStatus" where
  "Storage_CheckTxnStatus primaryKey startTS s = CheckTxnStatus (sto_engine s) primaryKey startTS"

text \<open>The keys locked by a transaction; entries that do not decode are skipped.\<close>

definition scanLock1 :: "TimeStamp \<Rightarrow> entry \<Rightarrow> bytes option" where
  "scanLock1 startTS e =
     (case UnmarshalLock (snd e) of
        Inl _ \<Rightarrow> None
      | Inr lock \<Rightarrow>
          if lock_StartTS lock = startTS
          then (case DecodeLockKey (fst e) of Inl _ \<Rightarrow> None | Inr userKey \<Rightarrow> Some userKey)
          else None)"

definition scanLocksForTxn :: "TimeStamp \<Rightarrow> Storage \<Rightarrow> bytes list" where
  "scanLocksForTxn startTS s =
     List.map_filter (scanLock1 startTS) (it_rest (SeekToFirst (NewIterator (sto_engine s CFLock) IterOptions_zero)))"

record ScanLockResult =
  sl_Key :: bytes
  sl_Lock :: Lock

fun ScanLock_loop :: "TimeStamp \<Rightarrow> 32 word \<Rightarrow> cf \<Rightarrow> ScanLockResult list \<Rightarrow> ScanLockResult list" where
  "ScanLock_loop maxVersion limit [] results = results"
| "ScanLock_loop maxVersion limit (e # es) results =
     (if 0 < limit \<and> limit \<le> of_nat (length results) then results
      else
        case UnmarshalLock (snd e) of
          Inl _ \<Rightarrow> ScanLock_loop maxVersion limit es results
        | Inr lock \<Rightarrow>
            if lock_StartTS lock \<le> maxVersion
            then (case DecodeLockKey (fst e) of
                    Inl _ \<Rightarrow> ScanLock_loop maxVersion limit es results
                  | Inr userKey \<Rightarrow>
                      ScanLock_loop maxVersion limit es (results @ [\<lparr>sl_Key = userKey, sl_Lock = lock\<rparr>]))
            else ScanLock_loop maxVersion limit es results)"

definition Storage_ScanLock :: "TimeStamp \<Rightarrow> bytes \<Rightarrow> bytes \<Rightarrow> 32 word \<Rightarrow> Storage \<Rightarrow> ScanLockResult list" where
  "Storage_ScanLock maxVersion startKey endKey limit s =
     (let opts = \<lparr>opt_LowerBound = (if 0 < length startKey then Some (EncodeLockKey startKey) else None),
                  opt_UpperBound = (if 0 < length endKey then Some (EncodeLockKey endKey) else None)\<rparr> in
      ScanLock_loop maxVersion limit (it_rest (SeekToFirst (NewIterator (sto_engine s CFLock) opts))) [])"

record SecondaryLockStatus =
  sec_Key :: bytes
  sec_Lock :: "Lock option"

fun CheckSecondaryLocks_loop ::
  "store \<Rightarrow> TimeStamp \<Rightarrow> bytes list \<Rightarrow> SecondaryLockStatus list \<Rightarrow> TimeStamp \<Rightarrow> (SecondaryLockStatus list \<times> TimeStamp) res"
where
  "CheckSecondaryLocks_loop snap startTS [] results commitTS = Inr (results, commitTS)"
| "CheckSecondaryLocks_loop snap startTS (key # keys) results commitTS =
     (case LoadLock snap key of
        Inl e \<Rightarrow> Inl e
      | Inr lock \<Rightarrow>
          if (case lock of None \<Rightarrow> False | Some l \<Rightarrow> lock_StartTS l = startTS)
          then CheckSecondaryLocks_loop snap startTS keys (results @ [\<lparr>sec_Key = key, sec_Lock = lock\<rparr>]) commitTS
          else
            case GetTxnCommitRecord snap key startTS of
              Inl e \<Rightarrow> Inl e
            | Inr (w, wCommitTS) \<Rightarrow>
                let commitTS = (case w of
                                  None \<Rightarrow> commitTS
                                | Some w \<Rightarrow> if write_WriteType w \<noteq> WriteTypeRollback then wCommitTS else commitTS) in
                CheckSecondaryLocks_loop snap startTS keys (results @ [\<lparr>sec_Key = key, sec_Lock = None\<rparr>]) commitTS)"

definition Storage_CheckSecondaryLocks ::
  "bytes list \<Rightarrow> TimeStamp \<Rightarrow> Storage \<Rightarrow> (SecondaryLockStatus list \<times> TimeStamp) res"
where
  "Storage_CheckSecondaryLocks keys startTS s = CheckSecondaryLocks_loop (sto_engine s) startTS keys [] 0"

subsection \<open>Two-phase commit\<close>

definition prewriteProps :: "bytes \<Rightarrow> TimeStamp \<Rightarrow> u64 \<Rightarrow> TxnMutation \<Rightarrow> PrewriteProps" where
  "prewriteProps primary startTS lockTTL mut =
     \<lparr>pp_StartTS = startTS, pp_Primary = primary, pp_LockTTL = lockTTL, pp_IsPrimary = (tm_Key mut = primary)\<rparr>"

definition prewriteAll :: "TxnMutation list \<Rightarrow> bytes \<Rightarrow> TimeStamp \<Rightarrow> u64 \<Rightarrow> store \<Rightarrow> txn_error option list \<times> MvccTxn" where
  "prewriteAll mutations primary startTS lockTTL snap =
     each (\<lambda>txn mut. Prewrite txn snap (prewriteProps primary startTS lockTTL mut) mut) mutations (NewMvccTxn startTS)"

definition Storage_Prewrite ::
  "TxnMutation list \<Rightarrow> bytes \<Rightarrow> TimeStamp \<Rightarrow> u64 \<Rightarrow> Storage \<Rightarrow> (txn_error option list \<times> Storage) option"
where
  "Storage_Prewrite mutations primary startTS lockTTL =
     standalone (map tm_Key mutations) (\<lambda>s.
       applyEach (prewriteAll mutations primary startTS lockTTL (sto_engine s)) s)"

definition Storage_PrewriteModifies ::
  "TxnMutation list \<Rightarrow> bytes \<Rightarrow> TimeStamp \<Rightarrow> u64 \<Rightarrow> Storage \<Rightarrow>
     (((Modify list \<times> txn_error option list) \<times> LatchGuard option) \<times> Storage) option"
where
  "Storage_PrewriteModifies mutations primary startTS lockTTL =
     guarded (map tm_Key mutations) (\<lambda>snap. modifiesEach (prewriteAll mutations primary startTS lockTTL snap))"

definition commitAll :: "bytes list \<Rightarrow> TimeStamp \<Rightarrow> TimeStamp \<Rightarrow> store \<Rightarrow> txn_error + MvccTxn" where
  "commitAll keys startTS commitTS snap =
     every (\<lambda>txn key. Commit txn snap key startTS commitTS) keys (NewMvccTxn startTS)"

definition Storage_Commit :: "bytes list \<Rightarrow> TimeStamp \<Rightarrow> TimeStamp \<Rightarrow> Storage \<Rightarrow> (txn_error option \<times> Storage) option" where
  "Storage_Commit keys startTS commitTS =
     standalone keys (\<lambda>s. applyEvery (commitAll keys startTS commitTS (sto_engine s)) s)"

definition Storage_CommitModifies ::
  "bytes list \<Rightarrow> TimeStamp \<Rightarrow> TimeStamp \<Rightarrow> Storage \<Rightarrow>
     (((Modify list \<times> txn_error option) \<times> LatchGuard option) \<times> Storage) option"
where
  "Storage_CommitModifies keys startTS commitTS =
     guarded keys (\<lambda>snap. modifiesEvery (commitAll keys startTS commitTS snap))"

definition rollbackAll :: "bytes list \<Rightarrow> TimeStamp \<Rightarrow> store \<Rightarrow> txn_error + MvccTxn" where
  "rollbackAll keys startTS snap = every (\<lambda>txn key. Rollback txn snap key startTS) keys (NewMvccTxn startTS)"

definition Storage_BatchRollback :: "bytes list \<Rightarrow> TimeStamp \<Rightarrow> Storage \<Rightarrow> (txn_error option \<times> Storage) option" where
  "Storage_BatchRollback keys startTS =
     standalone keys (\<lambda>s. applyEvery (rollbackAll keys startTS (sto_engine s)) s)"

definition Storage_BatchRollbackModifies ::
  "bytes list \<Rightarrow> TimeStamp \<Rightarrow> Storage \<Rightarrow> (((Modify list \<times> txn_error option) \<times> LatchGuard option) \<times> Storage) option"
where
  "Storage_BatchRollbackModifies keys startTS =
     guarded keys (\<lambda>snap. modifiesEvery (rollbackAll keys startTS snap))"

subsection \<open>Cleanup, status and lock resolution\<close>

definition cleanupBody :: "bytes \<Rightarrow> TimeStamp \<Rightarrow> Storage \<Rightarrow> (TimeStamp \<times> txn_error option) \<times> Storage" where
  "cleanupBody key startTS s =
      (let snap = sto_engine s;
           rollback = (let (e, s) = applyEvery (Rollback (NewMvccTxn startTS) snap key startTS) s in ((0, e), s)) in
       case CheckTxnStatus snap key startTS of
         Inl e \<Rightarrow> ((0, Some e), s)
       | Inr status \<Rightarrow>
           if ts_CommitTS status \<noteq> 0 then ((ts_CommitTS status, None), s)
           else if ts_IsRolledBack status then ((0, None), s)
           else
             case LoadLock snap key of
               Inl e \<Rightarrow> ((0, Some (TxnErr e)), s)
             | Inr None \<Rightarrow> ((0, None), s)
             | Inr (Some keyLock) \<Rightarrow>
                 if lock_StartTS keyLock \<noteq> startTS then ((0, None), s)
                 else
                   case CheckTxnStatus snap (lock_Primary keyLock) startTS of
                     Inl _ \<Rightarrow> rollback
                   | Inr primaryStatus \<Rightarrow>
                       if ts_CommitTS primaryStatus \<noteq> 0
                       then (case applyEvery (ResolveLock (NewMvccTxn startTS) snap key startTS (ts_CommitTS primaryStatus)) s of
                               (Some e, s) \<Rightarrow> ((0, Some e), s)
                             | (None, s) \<Rightarrow> ((ts_CommitTS primaryStatus, None), s))
                       else rollback)"

definition Storage_Cleanup :: "bytes \<Rightarrow> TimeStamp \<Rightarrow> Storage \<Rightarrow> ((TimeStamp \<times> txn_error option) \<times> Storage) option" where
  "Storage_Cleanup key startTS = standalone [key] (cleanupBody key startTS)"

definition Storage_CleanupModifies ::
  "bytes \<Rightarrow> TimeStamp \<Rightarrow> Storage \<Rightarrow> (((TimeStamp \<times> Modify list \<times> txn_error option) \<times> LatchGuard option) \<times> Storage) option"
where
  "Storage_CleanupModifies key startTS =
     guarded [key] (\<lambda>snap.
       case LoadLock snap key of
         Inl e \<Rightarrow> (0, [], Some (TxnErr e))
       | Inr lock \<Rightarrow>
           (case (case lock of None \<Rightarrow> None | Some l \<Rightarrow> if lock_StartTS l = startTS then Some l else None) of
              None \<Rightarrow>
                (case CheckTxnStatus snap key startTS of
                   Inl e \<Rightarrow> (0, [], Some e)
                 | Inr status \<Rightarrow> (ts_CommitTS status, [], None))
            | Some keyLock \<Rightarrow>
                let rollback = (0, txn_Modifies (PutWrite key startTS (rollbackWrite startTS)
                                      (dropLock key startTS keyLock (NewMvccTxn startTS))), None) in
                case CheckTxnStatus snap (lock_Primary keyLock) startTS of
                  Inl _ \<Rightarrow> rollback
                | Inr primaryStatus \<Rightarrow>
                    if ts_CommitTS primaryStatus \<noteq> 0
                    then (case ResolveLock (NewMvccTxn startTS) snap key startTS (ts_CommitTS primaryStatus) of
                            Inl e \<Rightarrow> (0, [], Some e)
                          | Inr txn \<Rightarrow> (ts_CommitTS primaryStatus, txn_Modifies txn, None))
                    else rollback))"

definition Storage_CheckTxnStatusWithCleanup ::
  "bytes \<Rightarrow> TimeStamp \<Rightarrow> TimeStamp \<Rightarrow> bool \<Rightarrow> Storage \<Rightarrow>
     (((txn_error + TxnStatus \<times> Modify list) \<times> LatchGuard option) \<times> Storage) option"
where
  "Storage_CheckTxnStatusWithCleanup primaryKey startTS callerStartTS rollbackIfNotExist =
     guarded [primaryKey] (\<lambda>snap.
       res_bind (CheckTxnStatusWithCleanup (NewMvccTxn startTS) snap primaryKey startTS callerStartTS rollbackIfNotExist)
         (\<lambda>(status, txn). Inr (status, txn_Modifies txn)))"

definition heartBeat1 :: "bytes \<Rightarrow> TimeStamp \<Rightarrow> u64 \<Rightarrow> store \<Rightarrow> txn_error + u64 \<times> MvccTxn" where
  "heartBeat1 primaryKey startTS adviseLockTTL snap =
     TxnHeartBeat (NewMvccTxn startTS) snap primaryKey startTS adviseLockTTL"

definition Storage_TxnHeartBeat :: "bytes \<Rightarrow> TimeStamp \<Rightarrow> u64 \<Rightarrow> Storage \<Rightarrow> ((u64 \<times> txn_error option) \<times> Storage) option" where
  "Storage_TxnHeartBeat primaryKey startTS adviseLockTTL =
     standalone [primaryKey] (\<lambda>s.
       case heartBeat1 primaryKey startTS adviseLockTTL (sto_engine s) of
         Inl e \<Rightarrow> ((0, Some e), s)
       | Inr (ttl, txn) \<Rightarrow>
           if 0 < length (txn_Modifies txn)
           then (case Storage_ApplyModifies (txn_Modifies txn) s of
                   (Some e, s) \<Rightarrow> ((0, Some (TxnErr e)), s)
                 | (None, s) \<Rightarrow> ((ttl, None), s))
           else ((ttl, None), s))"

definition Storage_TxnHeartBeatModifies ::
  "bytes \<Rightarrow> TimeStamp \<Rightarrow> u64 \<Rightarrow> Storage \<Rightarrow> (((u64 \<times> Modify list \<times> txn_error option) \<times> LatchGuard option) \<times> Storage) option"
where
  "Storage_TxnHeartBeatModifies primaryKey startTS adviseLockTTL =
     guarded [primaryKey] (\<lambda>snap.
       case heartBeat1 primaryKey startTS adviseLockTTL snap of
         Inl e \<Rightarrow> (0, [], Some e)
       | Inr (ttl, txn) \<Rightarrow> (ttl, txn_Modifies txn, None))"

definition resolveAll :: "bytes list \<Rightarrow> TimeStamp \<Rightarrow> TimeStamp \<Rightarrow> store \<Rightarrow> txn_error + MvccTxn" where
  "resolveAll keys startTS commitTS snap =
     every (\<lambda>txn key. ResolveLock txn snap key startTS commitTS) keys (NewMvccTxn startTS)"

definition resolveKeys :: "TimeStamp \<Rightarrow> bytes list \<Rightarrow> Storage \<Rightarrow> bytes list" where
  "resolveKeys startTS keys s = (if length keys = 0 then scanLocksForTxn startTS s else keys)"

definition Storage_ResolveLock :: "TimeStamp \<Rightarrow> TimeStamp \<Rightarrow> bytes list \<Rightarrow> Storage \<Rightarrow> (txn_error option \<times> Storage) option" where
  "Storage_ResolveLock startTS commitTS keys s =
     (let keys = resolveKeys startTS keys s in
      if length keys = 0 then Some (None, s)
      else standalone keys (\<lambda>s. applyEvery (resolveAll keys startTS commitTS (sto_engine s)) s) s)"

definition Storage_ResolveLockModifies ::
  "TimeStamp \<Rightarrow> TimeStamp \<Rightarrow> bytes list \<Rightarrow> Storage \<Rightarrow>
     (((Modify list \<times> txn_error option) \<times> LatchGuard option) \<times> Storage) option"
where
  "Storage_ResolveLockModifies startTS commitTS keys s =
     (let keys = resolveKeys startTS keys s in
      if length keys = 0 then Some ((([], None), None), s)
      else guarded keys (\<lambda>snap. modifiesEvery (resolveAll keys startTS commitTS snap)) s)"

subsection \<open>Pessimistic locks\<close>

definition pessimisticAll ::
  "bytes list \<Rightarrow> bytes \<Rightarrow> TimeStamp \<Rightarrow> TimeStamp \<Rightarrow> u64 \<Rightarrow> store \<Rightarrow> txn_error option list \<times> MvccTxn"
where
  "pessimisticAll keys primary startTS forUpdateTS lockTTL snap =
     (let props = \<lparr>pl_StartTS = startTS, pl_ForUpdateTS = forUpdateTS, pl_Primary = primary, pl_LockTTL = lockTTL,
                   pl_WaitTimeout = 0\<rparr> in
      each (\<lambda>txn key. AcquirePessimisticLock txn snap props key) keys (NewMvccTxn startTS))"

definition Storage_PessimisticLock ::
  "bytes list \<Rightarrow> bytes \<Rightarrow> TimeStamp \<Rightarrow> TimeStamp \<Rightarrow> u64 \<Rightarrow> Storage \<Rightarrow> (txn_error option list \<times> Storage) option"
where
  "Storage_PessimisticLock keys primary startTS forUpdateTS lockTTL =
     standalone keys (\<lambda>s. applyEach (pessimisticAll keys primary startTS forUpdateTS lockTTL (sto_engine s)) s)"

definition Storage_PessimisticLockModifies ::
  "bytes list \<Rightarrow> bytes \<Rightarrow> TimeStamp \<Rightarrow> TimeStamp \<Rightarrow> u64 \<Rightarrow> Storage \<Rightarrow>
     (((Modify list \<times> txn_error option list) \<times> LatchGuard option) \<times> Storage) option"
where
  "Storage_PessimisticLockModifies keys primary startTS forUpdateTS lockTTL =
     guarded keys (\<lambda>snap. modifiesEach (pessimisticAll keys primary startTS forUpdateTS lockTTL snap))"

definition Storage_PessimisticRollbackKeys ::
  "bytes list \<Rightarrow> TimeStamp \<Rightarrow> TimeStamp \<Rightarrow> Storage \<Rightarrow> (txn_error option list \<times> Storage) option"
where
  "Storage_PessimisticRollbackKeys keys startTS forUpdateTS =
     standalone keys (\<lambda>s.
       let (errs, txn) = PessimisticRollback (NewMvccTxn startTS) (sto_engine s) keys startTS forUpdateTS in
       if \<not> hasError errs \<and> 0 < length (txn_Modifies txn) then applyEach (errs, txn) s else (errs, s))"

definition Storage_PessimisticRollbackModifies ::
  "bytes list \<Rightarrow> TimeStamp \<Rightarrow> TimeStamp \<Rightarrow> Storage \<Rightarrow>
     (((Modify list \<times> txn_error option list) \<times> LatchGuard option) \<times> Storage) option"
where
  "Storage_PessimisticRollbackModifies keys startTS forUpdateTS =
     guarded keys (\<lambda>snap.
       let (errs, txn) = PessimisticRollback (NewMvccTxn startTS) snap keys startTS forUpdateTS in
       (txn_Modifies txn, errs))"

subsection \<open>Async commit and one-phase commit\<close>

definition asyncProps ::
  "bytes \<Rightarrow> TimeStamp \<Rightarrow> u64 \<Rightarrow> bytes list \<Rightarrow> TimeStamp \<Rightarrow> TxnMutation \<Rightarrow> AsyncCommitPrewriteProps"
where
  "asyncProps primary startTS lockTTL secondaries maxCommitTS mut =
     \<lparr>pp_StartTS = startTS, pp_Primary = primary, pp_LockTTL = lockTTL, pp_IsPrimary = (tm_Key mut = primary),
      ap_UseAsyncCommit = True, ap_Secondaries = secondaries, ap_MaxCommitTS = maxCommitTS\<rparr>"

definition asyncAll ::
  "TxnMutation list \<Rightarrow> bytes \<Rightarrow> TimeStamp \<Rightarrow> u64 \<Rightarrow> bytes list \<Rightarrow> TimeStamp \<Rightarrow> store \<Rightarrow> txn_error option list \<times> MvccTxn"
where
  "asyncAll mutations primary startTS lockTTL secondaries maxCommitTS snap =
     each (\<lambda>txn mut. PrewriteAsyncCommit txn snap (asyncProps primary startTS lockTTL secondaries maxCommitTS mut) mut)
       mutations (NewMvccTxn startTS)"

definition Storage_PrewriteAsyncCommit ::
  "TxnMutation list \<Rightarrow> bytes \<Rightarrow> TimeStamp \<Rightarrow> u64 \<Rightarrow> bytes list \<Rightarrow> TimeStamp \<Rightarrow> Storage \<Rightarrow>
     ((txn_error option list \<times> TimeStamp) \<times> Storage) option"
where
  "Storage_PrewriteAsyncCommit mutations primary startTS lockTTL secondaries maxCommitTS =
     standalone (map tm_Key mutations) (\<lambda>s.
       let (errs, txn) = asyncAll mutations primary startTS lockTTL secondaries maxCommitTS (sto_engine s) in
       if hasError errs then ((errs, 0), s)
       else
         case Storage_ApplyModifies (txn_Modifies txn) s of
           (Some e, s) \<Rightarrow> ((map (\<lambda>_. Some (TxnErr e)) errs, 0), s)
         | (None, s) \<Rightarrow> ((errs, minCommitTS startTS maxCommitTS), s))"

definition Storage_PrewriteAsyncCommitModifies ::
  "TxnMutation list \<Rightarrow> bytes \<Rightarrow> TimeStamp \<Rightarrow> u64 \<Rightarrow> bytes list \<Rightarrow> TimeStamp \<Rightarrow> Storage \<Rightarrow>
     (((Modify list \<times> txn_error option list \<times> TimeStamp) \<times> LatchGuard option) \<times> Storage) option"
where
  "Storage_PrewriteAsyncCommitModifies mutations primary startTS lockTTL secondaries maxCommitTS =
     guarded (map tm_Key mutations) (\<lambda>snap.
       let (errs, txn) = asyncAll mutations primary startTS lockTTL secondaries maxCommitTS snap in
       if hasError errs then ([], errs, 0) else (txn_Modifies txn, errs, minCommitTS startTS maxCommitTS))"

definition onePCAll ::
  "TxnMutation list \<Rightarrow> bytes \<Rightarrow> TimeStamp \<Rightarrow> TimeStamp \<Rightarrow> u64 \<Rightarrow> store \<Rightarrow> txn_error option list \<times> MvccTxn"
where
  "onePCAll mutations primary startTS commitTS lockTTL snap =
     PrewriteAndCommit1PC (NewMvccTxn startTS) snap
       \<lparr>op_StartTS = startTS, op_CommitTS = commitTS, op_Primary = primary, op_LockTTL = lockTTL\<rparr> mutations"

definition Storage_Prewrite1PC ::
  "TxnMutation list \<Rightarrow> bytes \<Rightarrow> TimeStamp \<Rightarrow> TimeStamp \<Rightarrow> u64 \<Rightarrow> Storage \<Rightarrow>
     ((txn_error option list \<times> TimeStamp) \<times> Storage) option"
where
  "Storage_Prewrite1PC mutations primary startTS commitTS lockTTL =
     standalone (map tm_Key mutations) (\<lambda>s.
       let (errs, txn) = onePCAll mutations primary startTS commitTS lockTTL (sto_engine s) in
       if \<not> hasError errs
       then (case Storage_ApplyModifies (txn_Modifies txn) s of
               (Some e, s) \<Rightarrow> ((map (\<lambda>_. Some (TxnErr e)) errs, 0), s)
             | (None, s) \<Rightarrow> ((errs, commitTS), s))
       else ((errs, 0), s))"

definition Storage_Prewrite1PCModifies ::
  "TxnMutation list \<Rightarrow> bytes \<Rightarrow> TimeStamp \<Rightarrow> TimeStamp \<Rightarrow> u64 \<Rightarrow> Storage \<Rightarrow>
     (((Modify list \<times> txn_error option list \<times> TimeStamp) \<times> LatchGuard option) \<times> Storage) option"
where
  "Storage_Prewrite1PCModifies mutations primary startTS commitTS lockTTL =
     guarded (map tm_Key mutations) (\<lambda>snap.
       let (errs, txn) = onePCAll mutations primary startTS commitTS lockTTL snap in
       if hasError errs then ([], errs, 0) else (txn_Modifies txn, errs, commitTS))"

end
