(* ===== verification/StorageProperties.thy ===== *)
theory StorageProperties
  imports Storage
begin

section \<open>Properties of the transactional storage\<close>

text \<open>
  What \<^verbatim>\<open>internal/server/storage.go\<close> guarantees as a whole: the latch protocol around every
  command, the agreement of the standalone and the cluster form, the invariant over every
  sequence of commands, and the meaning of a two-phase commit for readers.
\<close>

subsection \<open>The latch protocol\<close>

definition latches_idle :: "Latches \<Rightarrow> bool" where
  "latches_idle l \<longleftrightarrow> all_free l \<and> la_waiters l = (\<lambda>_. None)"

lemma latches_idle_New [simp]: "latches_idle (NewLatches n)"
  unfolding latches_idle_def using all_free_NewLatches [of n] by (simp add: NewLatches_def Let_def)

lemma Release_waiters:
  assumes "Release lock c l = ([], lock', l')"
  shows "Release lock c (l\<lparr>la_waiters := w\<rparr>) = ([], lock', l'\<lparr>la_waiters := w\<rparr>)"
  using assms by (auto simp: Release_def signal_def Let_def split: prod.splits)

lemma takeLatch_idle:
  assumes "latches_idle (sto_latches s)"
  shows "\<exists>guard l. takeLatch keys s = Some (guard, s\<lparr>sto_cmdID := sto_cmdID s + 1, sto_latches := l\<rparr>) \<and>
     (\<forall>t. sto_latches t = l \<longrightarrow> ReleaseLatch (Some guard) t = t\<lparr>sto_latches := sto_latches s\<rparr>)"
proof -
  let ?c = "sto_cmdID s + 1"
  let ?l = "sto_latches s\<lparr>la_waiters := (la_waiters (sto_latches s))(?c := Some False)\<rparr>"
  have free: "all_free ?l" and none: "la_waiters (sto_latches s) = (\<lambda>_. None)"
    using assms by (simp_all add: latches_idle_def all_free_def)
  obtain lock l' where a: "Acquire (GenLock ?l keys) ?c ?l = (True, lock, l')" "la_waiters l' = la_waiters ?l"
      "Release lock ?c l' = ([], lock\<lparr>ll_OwnedCount := 0\<rparr>, ?l)"
    using Acquire_Release_free [OF free, of keys ?c] by blast
  have gen: "GenLock ?l keys = GenLock (sto_latches s) keys" by (simp add: GenLock_def)
  let ?m = "l'\<lparr>la_waiters := (la_waiters l')(?c := None)\<rparr>"
  have "takeLatch keys s = Some (\<lparr>lg_lock = lock, lg_cmdID = ?c\<rparr>, s\<lparr>sto_cmdID := ?c, sto_latches := ?m\<rparr>)"
    using a(1) gen by (simp add: takeLatch_def allocCmdID_def AcquireBlocking_def)
  moreover have "ReleaseLatch (Some \<lparr>lg_lock = lock, lg_cmdID = ?c\<rparr>) t = t\<lparr>sto_latches := sto_latches s\<rparr>"
    if "sto_latches t = ?m" for t
    using Release_waiters [OF a(3), of "(la_waiters l')(?c := None)"] that a(2) none
    by (simp add: ReleaseLatch_def fun_upd_idem)
  ultimately show ?thesis by blast
qed

text \<open>A standalone command on idle latches returns what its body returns, and leaves the
  latches idle.\<close>

definition keeps_latches :: "(Storage \<Rightarrow> 'a \<times> Storage) \<Rightarrow> bool" where
  "keeps_latches body \<longleftrightarrow>
     (\<forall>s l n. body (s\<lparr>sto_cmdID := n, sto_latches := l\<rparr>) =
        (fst (body s), (snd (body s))\<lparr>sto_cmdID := n, sto_latches := l\<rparr>))"

lemma keeps_latchesD:
  "keeps_latches body \<Longrightarrow> body (s\<lparr>sto_cmdID := n, sto_latches := l\<rparr>) =
     (fst (body s), (snd (body s))\<lparr>sto_cmdID := n, sto_latches := l\<rparr>)"
  unfolding keeps_latches_def by blast

lemma standalone_idle:
  assumes "latches_idle (sto_latches s)" "keeps_latches body"
  shows "standalone keys body s =
    Some (fst (body s), (snd (body s))\<lparr>sto_cmdID := sto_cmdID s + 1, sto_latches := sto_latches s\<rparr>)"
proof -
  obtain guard l where t: "takeLatch keys s = Some (guard, s\<lparr>sto_cmdID := sto_cmdID s + 1, sto_latches := l\<rparr>)"
    and r: "\<And>t. sto_latches t = l \<Longrightarrow> ReleaseLatch (Some guard) t = t\<lparr>sto_latches := sto_latches s\<rparr>"
    using takeLatch_idle [OF assms(1), of keys] by blast
  show ?thesis
    by (simp add: standalone_def t keeps_latchesD [OF assms(2)] r)
qed

lemma Storage_ApplyModifies_latches:
  "Storage_ApplyModifies ms (s\<lparr>sto_cmdID := n, sto_latches := l\<rparr>) =
     (fst (Storage_ApplyModifies ms s), (snd (Storage_ApplyModifies ms s))\<lparr>sto_cmdID := n, sto_latches := l\<rparr>)"
  by (simp add: Storage_ApplyModifies_def split: sum.splits)

lemma Storage_ApplyModifies_txn:
  "txn_known txn \<Longrightarrow>
     Storage_ApplyModifies (txn_Modifies txn) s = (None, s\<lparr>sto_engine := txn_apply txn (sto_engine s)\<rparr>)"
  by (simp add: Storage_ApplyModifies_def ApplyModifies_txn)

lemma keeps_latches_bodies:
  "keeps_latches (\<lambda>s. applyEach (f (sto_engine s)) s)"
  "keeps_latches (\<lambda>s. applyEvery (g (sto_engine s)) s)"
  by (auto simp: keeps_latches_def applyEach_def applyEvery_def Storage_ApplyModifies_latches Let_def
      split: prod.splits sum.splits option.splits)

subsection \<open>The cluster form\<close>

text \<open>What a handler does with the result of a \<^verbatim>\<open>...Modifies\<close> method: the modifications are
  applied and the latches released.\<close>

definition cluster ::
  "('r \<Rightarrow> Modify list) \<Rightarrow> (go_error \<Rightarrow> 'r \<Rightarrow> 'a) \<Rightarrow> ('r \<Rightarrow> 'a) \<Rightarrow> (('r \<times> LatchGuard option) \<times> Storage) option \<Rightarrow>
     ('a \<times> Storage) option"
where
  "cluster mods fail ok r =
     (case r of
        None \<Rightarrow> None
      | Some ((r, guard), s) \<Rightarrow>
          (case Storage_ApplyModifies (mods r) s of
             (Some e, s) \<Rightarrow> Some (fail e r, ReleaseLatch guard s)
           | (None, s) \<Rightarrow> Some (ok r, ReleaseLatch guard s)))"

lemma ApplyModifies_nothing [simp]: "Storage_ApplyModifies [] s = (None, s)"
  by (simp add: Storage_ApplyModifies_def ApplyModifies_def)

lemma cluster_guarded:
  assumes "\<And>s. body s =
    (case Storage_ApplyModifies (mods (f (sto_engine s))) s of
       (Some e, s') \<Rightarrow> (fail e (f (sto_engine s)), s')
     | (None, s') \<Rightarrow> (ok (f (sto_engine s)), s'))"
  shows "cluster mods fail ok (guarded keys f s) = standalone keys body s"
  by (auto simp: cluster_def guarded_def standalone_def assms Let_def split: option.splits prod.splits)


subsection \<open>Every command keeps the store well-formed\<close>

definition store_ok :: "store \<Rightarrow> bool" where
  "store_ok st \<longleftrightarrow> mvcc_ok st \<and> (\<forall>k. plain_versions (st_versions st k))"

lemma store_okD: "store_ok st \<Longrightarrow> mvcc_ok st" "store_ok st \<Longrightarrow> plain_versions (st_versions st k)"
  by (simp_all add: store_ok_def)

lemma store_ok_empty [simp]: "store_ok empty_store"
  by (simp add: store_ok_def plain_versions_def)

lemma store_ok_effects:
  "store_ok st \<Longrightarrow> lock_sizes_ok l \<Longrightarrow> store_ok (put_lock k l st)"
  "store_ok st \<Longrightarrow> store_ok (del_lock k st)"
  "store_ok st \<Longrightarrow> write_sizes_ok w \<Longrightarrow> write_StartTS w \<le> c \<Longrightarrow> lc_TS (write_LastChange w) = 0 \<Longrightarrow>
     store_ok (put_write k c w st)"
  "store_ok st \<Longrightarrow> store_ok (del_write k c st)"
  "store_ok st \<Longrightarrow> store_ok (put_value k c v st)"
  "store_ok st \<Longrightarrow> store_ok (del_value k c st)"
  by (auto simp: store_ok_def mvcc_view plain_filter normWrite_def normLastChange_def LastChange_zero_def intro!: plain_ver_put)

text \<open>An accumulator whose modifications keep a well-formed store well-formed.\<close>

definition txn_ok :: "MvccTxn \<Rightarrow> bool" where
  "txn_ok txn \<longleftrightarrow> txn_known txn \<and> (\<forall>st. store_ok st \<longrightarrow> store_ok (txn_apply txn st))"

lemma txn_ok_ops [simp, intro]:
  "txn_ok (NewMvccTxn s)"
  "txn_ok txn \<Longrightarrow> lock_sizes_ok l \<Longrightarrow> txn_ok (PutLock k l txn)"
  "txn_ok txn \<Longrightarrow> txn_ok (snd (UnlockKey k p txn))"
  "txn_ok txn \<Longrightarrow> txn_ok (PutValue k ts v txn)"
  "txn_ok txn \<Longrightarrow> txn_ok (DeleteValue k ts txn)"
  "txn_ok txn \<Longrightarrow> write_sizes_ok w \<Longrightarrow> write_StartTS w \<le> ts \<Longrightarrow> lc_TS (write_LastChange w) = 0 \<Longrightarrow>
     txn_ok (PutWrite k ts w txn)"
  by (simp_all add: txn_ok_def store_ok_effects)

lemma txn_ok_putLarge [simp]: "txn_ok txn \<Longrightarrow> txn_ok (putLarge s mut txn)"
  by (simp add: putLarge_def split: option.splits)

lemma txn_ok_dropLock [simp]: "txn_ok txn \<Longrightarrow> txn_ok (dropLock k s l txn)"
  by (simp add: dropLock_def Let_def)

lemma txn_ok_rollback [simp]: "txn_ok txn \<Longrightarrow> txn_ok (PutWrite k s (rollbackWrite s) txn)"
  by simp

lemma Prewrite_ok:
  assumes "mvcc_ok snap" "Prewrite txn snap props mut = Inr txn'" "txn_ok txn" "length (pp_Primary props) < 2 ^ 64"
  shows "txn_ok txn'"
  using assms by (auto simp: Prewrite_st prewriteLock_sizes split: option.splits if_splits)

lemma Commit_ok:
  assumes "mvcc_ok snap" "Commit txn snap key s c = Inr txn'" "txn_ok txn" "s \<le> c"
  shows "txn_ok txn'"
proof -
  have "write_sizes_ok (commit_write l)" if "st_lock snap key = Some l" for l
    using that by (simp add: commit_write_sizes st_lock_sizes)
  then show ?thesis
    using assms
    by (auto simp: Commit_st commit_write_def Write_zero_def LastChange_zero_def split: option.splits if_splits)
qed

lemma Rollback_ok:
  assumes "mvcc_ok snap" "Rollback txn snap key s = Inr txn'" "txn_ok txn"
  shows "txn_ok txn'"
  using assms by (auto simp: Rollback_st split: option.splits if_splits)

lemma ResolveLock_ok:
  assumes "mvcc_ok snap" "ResolveLock txn snap key s c = Inr txn'" "txn_ok txn" "c = 0 \<or> s \<le> c"
  shows "txn_ok txn'"
  using assms Commit_ok [OF assms(1)] Rollback_ok [OF assms(1)]
  by (auto simp: ResolveLock_st split: option.splits if_splits)

lemma TxnHeartBeat_ok:
  assumes "mvcc_ok snap" "TxnHeartBeat txn snap key s ttl = Inr (t, txn')" "txn_ok txn"
  shows "txn_ok txn'"
proof -
  have "lock_sizes_ok (l\<lparr>lock_TTL := ttl\<rparr>)" if "st_lock snap key = Some l" for l
    using st_lock_sizes [OF that] by (simp add: lock_sizes_ok_def)
  then show ?thesis
    using assms by (auto simp: TxnHeartBeat_def LoadLock_st_lock split: option.splits if_splits)
qed

lemma CheckTxnStatusWithCleanup_ok:
  assumes "mvcc_ok snap" "CheckTxnStatusWithCleanup txn snap key s c b = Inr (r, txn')" "txn_ok txn"
  shows "txn_ok txn'"
  using assms
  by (auto simp: CheckTxnStatusWithCleanup_def LoadLock_st_lock GetTxnCommitRecord_st Let_def split: option.splits if_splits)

lemma AcquirePessimisticLock_ok:
  assumes "mvcc_ok snap" "AcquirePessimisticLock txn snap props key = Inr txn'" "txn_ok txn"
    and "length (pl_Primary props) < 2 ^ 64"
  shows "txn_ok txn'"
proof -
  have "lock_sizes_ok (l\<lparr>lock_ForUpdateTS := f\<rparr>)" if "st_lock snap key = Some l" for l f
    using st_lock_sizes [OF that] by (simp add: lock_sizes_ok_def)
  then show ?thesis
    using assms
    by (auto simp: AcquirePessimisticLock_def LoadLock_st_lock newestConflict_st lock_sizes_ok_def Lock_zero_def maxAlloc_def
        split: option.splits if_splits)
qed

lemma PrewriteAsyncCommit_ok:
  assumes "mvcc_ok snap" "PrewriteAsyncCommit txn snap props mut = Inr txn'" "txn_ok txn" "async_sizes_ok props"
  shows "txn_ok txn'"
  using assms
  by (auto simp: PrewriteAsyncCommit_def LoadLock_st_lock conflict_loop_st asyncCommitLock_sizes Let_def split: option.splits if_splits)

lemma write1PC_ok: "op_StartTS props \<le> op_CommitTS props \<Longrightarrow> txn_ok txn \<Longrightarrow> txn_ok (write1PC props mut txn)"
  by (auto simp: write1PC_def Let_def Write_zero_def LastChange_zero_def write_sizes_ok_def split: option.splits)

lemma PrewriteAndCommit1PC_ok:
  assumes "op_StartTS props \<le> op_CommitTS props" "txn_ok txn"
  shows "txn_ok (snd (PrewriteAndCommit1PC txn snap props muts))"
proof -
  have "txn_ok (fold (write1PC props) ms t)" if "txn_ok t" for ms t
    using that by (induction ms arbitrary: t) (simp_all add: write1PC_ok assms(1))
  with assms(2) show ?thesis by (simp add: PrewriteAndCommit1PC_def Let_def)
qed

lemma PessimisticRollback_ok: "txn_ok txn \<Longrightarrow> txn_ok (snd (PessimisticRollback txn snap keys s f))"
proof -
  have step: "txn_ok (snd (pessimisticRollback1 snap s f key acc))" if "txn_ok (snd acc)" for key acc
    using that by (auto simp: pessimisticRollback1_def split: prod.splits sum.splits option.splits)
  have "txn_ok (snd (fold (pessimisticRollback1 snap s f) ks acc))" if "txn_ok (snd acc)" for ks acc
    using that by (induction ks arbitrary: acc) (simp_all add: step)
  then show "txn_ok txn \<Longrightarrow> ?thesis" by (simp add: PessimisticRollback_def)
qed

lemma each_ok:
  assumes "\<And>txn i txn'. i \<in> set is \<Longrightarrow> act txn i = Inr txn' \<Longrightarrow> txn_ok txn \<Longrightarrow> txn_ok txn'"
  shows "txn_ok txn \<Longrightarrow> txn_ok (snd (each act is txn))"
  using assms
proof (induction "is" arbitrary: txn)
  case (Cons i "is")
  then show ?case by (fastforce split: sum.splits prod.splits)
qed simp

lemma every_ok:
  assumes "\<And>txn i txn'. i \<in> set is \<Longrightarrow> act txn i = Inr txn' \<Longrightarrow> txn_ok txn \<Longrightarrow> txn_ok txn'"
    and "every act is txn = Inr txn'"
  shows "txn_ok txn \<Longrightarrow> txn_ok txn'"
  using assms
proof (induction "is" arbitrary: txn)
  case (Cons i "is")
  then show ?case by (auto simp: res_bind_eq_Inr)
qed simp

subsection \<open>Sequences of commands\<close>

text \<open>The commands that change the store, with their arguments; the status check with
  cleanup exists in the cluster form only.\<close>

datatype storage_cmd =
    CmdPrewrite "TxnMutation list" bytes TimeStamp u64
  | CmdCommit "bytes list" TimeStamp TimeStamp
  | CmdBatchRollback "bytes list" TimeStamp
  | CmdCleanup bytes TimeStamp
  | CmdCheckTxnStatus bytes TimeStamp TimeStamp bool
  | CmdPessimisticLock "bytes list" bytes TimeStamp TimeStamp u64
  | CmdPessimisticRollback "bytes list" TimeStamp TimeStamp
  | CmdTxnHeartBeat bytes TimeStamp u64
  | CmdResolveLock TimeStamp TimeStamp "bytes list"
  | CmdPrewriteAsyncCommit "TxnMutation list" bytes TimeStamp u64 "bytes list" TimeStamp
  | CmdPrewrite1PC "TxnMutation list" bytes TimeStamp TimeStamp u64

fun run_cmd :: "storage_cmd \<Rightarrow> Storage \<Rightarrow> Storage option" where
  "run_cmd (CmdPrewrite muts primary s ttl) \<sigma> = map_option snd (Storage_Prewrite muts primary s ttl \<sigma>)"
| "run_cmd (CmdCommit keys s c) \<sigma> = map_option snd (Storage_Commit keys s c \<sigma>)"
| "run_cmd (CmdBatchRollback keys s) \<sigma> = map_option snd (Storage_BatchRollback keys s \<sigma>)"
| "run_cmd (CmdCleanup key s) \<sigma> = map_option snd (Storage_Cleanup key s \<sigma>)"
| "run_cmd (CmdCheckTxnStatus key s caller b) \<sigma> =
     map_option snd (cluster (\<lambda>r. case r of Inl _ \<Rightarrow> [] | Inr (_, ms) \<Rightarrow> ms) (\<lambda>e r. r) (\<lambda>r. r)
       (Storage_CheckTxnStatusWithCleanup key s caller b \<sigma>))"
| "run_cmd (CmdPessimisticLock keys primary s f ttl) \<sigma> = map_option snd (Storage_PessimisticLock keys primary s f ttl \<sigma>)"
| "run_cmd (CmdPessimisticRollback keys s f) \<sigma> = map_option snd (Storage_PessimisticRollbackKeys keys s f \<sigma>)"
| "run_cmd (CmdTxnHeartBeat key s ttl) \<sigma> = map_option snd (Storage_TxnHeartBeat key s ttl \<sigma>)"
| "run_cmd (CmdResolveLock s c keys) \<sigma> = map_option snd (Storage_ResolveLock s c keys \<sigma>)"
| "run_cmd (CmdPrewriteAsyncCommit muts primary s ttl secs m) \<sigma> =
     map_option snd (Storage_PrewriteAsyncCommit muts primary s ttl secs m \<sigma>)"
| "run_cmd (CmdPrewrite1PC muts primary s c ttl) \<sigma> = map_option snd (Storage_Prewrite1PC muts primary s c ttl \<sigma>)"

text \<open>What a client keeps to: a commit timestamp is not below its start timestamp, and
  keys fit in memory.\<close>

fun cmd_valid :: "storage_cmd \<Rightarrow> bool" where
  "cmd_valid (CmdPrewrite muts primary s ttl) \<longleftrightarrow> length primary < 2 ^ 64"
| "cmd_valid (CmdCommit keys s c) \<longleftrightarrow> s \<le> c"
| "cmd_valid (CmdPessimisticLock keys primary s f ttl) \<longleftrightarrow> length primary < 2 ^ 64"
| "cmd_valid (CmdResolveLock s c keys) \<longleftrightarrow> c = 0 \<or> s \<le> c"
| "cmd_valid (CmdPrewriteAsyncCommit muts primary s ttl secs m) \<longleftrightarrow>
     length primary < 2 ^ 64 \<and> length secs * 24 \<le> maxAlloc \<and> list_all (\<lambda>k. length k < 2 ^ 64) secs"
| "cmd_valid (CmdPrewrite1PC muts primary s c ttl) \<longleftrightarrow> s \<le> c"
| "cmd_valid _ \<longleftrightarrow> True"

fun run_cmds :: "storage_cmd list \<Rightarrow> Storage \<Rightarrow> Storage option" where
  "run_cmds [] \<sigma> = Some \<sigma>"
| "run_cmds (c # cs) \<sigma> = (case run_cmd c \<sigma> of None \<Rightarrow> None | Some \<sigma>' \<Rightarrow> run_cmds cs \<sigma>')"

definition storage_ok :: "Storage \<Rightarrow> bool" where
  "storage_ok \<sigma> \<longleftrightarrow> store_ok (sto_engine \<sigma>) \<and> latches_idle (sto_latches \<sigma>)"

lemma standalone_ok:
  assumes "storage_ok \<sigma>" "keeps_latches body" "store_ok (sto_engine (snd (body \<sigma>)))"
  shows "\<exists>r \<sigma>'. standalone keys body \<sigma> = Some (r, \<sigma>') \<and> storage_ok \<sigma>'"
  using assms standalone_idle [of \<sigma> body keys] by (auto simp: storage_ok_def)

lemma applyEach_ok:
  "store_ok (sto_engine \<sigma>) \<Longrightarrow> txn_ok (snd r) \<Longrightarrow> store_ok (sto_engine (snd (applyEach r \<sigma>)))"
  by (auto simp: applyEach_def Storage_ApplyModifies_txn txn_ok_def split: prod.splits)

lemma applyEvery_ok:
  "store_ok (sto_engine \<sigma>) \<Longrightarrow> (\<And>txn. r = Inr txn \<Longrightarrow> txn_ok txn) \<Longrightarrow> store_ok (sto_engine (snd (applyEvery r \<sigma>)))"
  by (auto simp: applyEvery_def Storage_ApplyModifies_txn txn_ok_def split: sum.splits)

lemma prewriteAll_ok:
  "mvcc_ok st \<Longrightarrow> length primary < 2 ^ 64 \<Longrightarrow> txn_ok (snd (prewriteAll muts primary s ttl st))"
  unfolding prewriteAll_def by (rule each_ok) (auto simp: prewriteProps_def dest: Prewrite_ok)

lemma commitAll_ok: "mvcc_ok st \<Longrightarrow> s \<le> c \<Longrightarrow> commitAll keys s c st = Inr txn \<Longrightarrow> txn_ok txn"
  unfolding commitAll_def by (rule every_ok [rotated]) (auto dest: Commit_ok)

lemma rollbackAll_ok: "mvcc_ok st \<Longrightarrow> rollbackAll keys s st = Inr txn \<Longrightarrow> txn_ok txn"
  unfolding rollbackAll_def by (rule every_ok [rotated]) (auto dest: Rollback_ok)

lemma resolveAll_ok: "mvcc_ok st \<Longrightarrow> c = 0 \<or> s \<le> c \<Longrightarrow> resolveAll keys s c st = Inr txn \<Longrightarrow> txn_ok txn"
  unfolding resolveAll_def by (rule every_ok [rotated]) (auto dest: ResolveLock_ok)

lemma pessimisticAll_ok:
  "mvcc_ok st \<Longrightarrow> length primary < 2 ^ 64 \<Longrightarrow> txn_ok (snd (pessimisticAll keys primary s f ttl st))"
  unfolding pessimisticAll_def Let_def by (rule each_ok) (auto dest: AcquirePessimisticLock_ok)

lemma asyncAll_ok:
  "mvcc_ok st \<Longrightarrow> cmd_valid (CmdPrewriteAsyncCommit muts primary s ttl secs m) \<Longrightarrow>
     txn_ok (snd (asyncAll muts primary s ttl secs m st))"
  unfolding asyncAll_def
  by (rule each_ok) (auto simp: asyncProps_def async_sizes_ok_def dest: PrewriteAsyncCommit_ok)

lemma onePCAll_ok: "s \<le> c \<Longrightarrow> txn_ok (snd (onePCAll muts primary s c ttl st))"
  by (simp add: onePCAll_def PrewriteAndCommit1PC_ok)

text \<open>The commit timestamp a status check reports is not below the start timestamp.\<close>

lemma CheckTxnStatus_CommitTS:
  assumes "store_ok st" "CheckTxnStatus st key s = Inr status" "ts_CommitTS status \<noteq> 0"
  shows "s \<le> ts_CommitTS status"
proof -
  let ?vs = "st_versions st key"
  have "statusOfWrite (commit_record s ?vs) = Some status"
    using assms
    by (auto simp: CheckTxnStatus_st store_ok_def TxnStatus_zero_def split: option.splits if_splits)
  then obtain w where w: "commit_record s ?vs = (Some w, ts_CommitTS status)"
    using assms(3) by (auto simp: statusOfWrite_def TxnStatus_zero_def split: option.splits if_splits prod.splits)
      (metis prod.collapse)
  have "commit_record s ?vs = (case find (\<lambda>v. write_StartTS (snd v) = s) ?vs of None \<Rightarrow> (None, 0) | Some (c, w) \<Rightarrow> (Some w, c))"
    using assms(1) by (intro plain_commit_record) (simp_all add: store_ok_def st_versions_newest_first)
  with w obtain c where "find (\<lambda>v. write_StartTS (snd v) = s) ?vs = Some (c, w)" and c: "c = ts_CommitTS status"
    by (auto split: option.splits)
  then obtain i where i: "i < length ?vs" "write_StartTS (snd (?vs ! i)) = s" "(c, w) = ?vs ! i"
    unfolding find_Some_iff by blast
  have "(c, w) \<in> set ?vs" unfolding i(3) by (rule nth_mem [OF i(1)])
  moreover have "write_StartTS w = s" using i(2) by (simp flip: i(3))
  ultimately show ?thesis
    using store_okD(2) [OF assms(1), of key] c by (auto simp: plain_versions_def list_all_iff)
qed

lemma applyEvery_latches:
  "applyEvery r (s\<lparr>sto_cmdID := n, sto_latches := l\<rparr>) =
     (fst (applyEvery r s), (snd (applyEvery r s))\<lparr>sto_cmdID := n, sto_latches := l\<rparr>)"
  by (auto simp: applyEvery_def Storage_ApplyModifies_latches split: sum.splits prod.splits)

lemma cleanupBody_keeps: "keeps_latches (cleanupBody key s)"
  by (auto simp: keeps_latches_def cleanupBody_def Let_def applyEvery_latches split: sum.splits option.splits prod.splits)

lemma cleanupBody_ok:
  assumes "store_ok (sto_engine \<sigma>)"
  shows "store_ok (sto_engine (snd (cleanupBody key s \<sigma>)))"
proof -
  have mv: "mvcc_ok (sto_engine \<sigma>)" using assms by (rule store_okD)
  have rb: "store_ok (sto_engine (snd (applyEvery (Rollback (NewMvccTxn s) (sto_engine \<sigma>) key s) \<sigma>)))"
    by (rule applyEvery_ok [OF assms]) (simp add: Rollback_ok [OF mv])
  have rl: "store_ok (sto_engine (snd (applyEvery (ResolveLock (NewMvccTxn s) (sto_engine \<sigma>) key s c) \<sigma>)))"
    if "s \<le> c" for c
    by (rule applyEvery_ok [OF assms]) (simp add: ResolveLock_ok [OF mv] that)
  have ct: "s \<le> ts_CommitTS status" if "CheckTxnStatus (sto_engine \<sigma>) k s = Inr status" "ts_CommitTS status \<noteq> 0" for k status
    by (rule CheckTxnStatus_CommitTS [OF assms that])
  have rb': "store_ok (sto_engine t)" if "applyEvery (Rollback (NewMvccTxn s) (sto_engine \<sigma>) key s) \<sigma> = (e, t)" for e t
    using rb that by simp
  have rl': "store_ok (sto_engine t)"
    if "applyEvery (ResolveLock (NewMvccTxn s) (sto_engine \<sigma>) key s (ts_CommitTS status)) \<sigma> = (e, t)"
      "CheckTxnStatus (sto_engine \<sigma>) k s = Inr status" "ts_CommitTS status \<noteq> 0" for e t k status
    using rl [OF ct [OF that(2,3)]] that(1) by simp
  show ?thesis
    using assms
    by (auto simp: cleanupBody_def Let_def intro: rb' rl' split: sum.splits option.splits prod.splits)
qed
lemma run_standalone_ok:
  assumes "storage_ok \<sigma>" "keeps_latches body" "store_ok (sto_engine (snd (body \<sigma>)))"
  shows "\<exists>\<sigma>'. map_option snd (standalone keys body \<sigma>) = Some \<sigma>' \<and> storage_ok \<sigma>'"
  using standalone_ok [OF assms, of keys] by auto

lemma run_cmd_ok:
  assumes "storage_ok \<sigma>" "cmd_valid cmd"
  shows "\<exists>\<sigma>'. run_cmd cmd \<sigma> = Some \<sigma>' \<and> storage_ok \<sigma>'"
proof -
  have ok: "store_ok (sto_engine \<sigma>)" and mv: "mvcc_ok (sto_engine \<sigma>)"
    using assms(1) by (simp_all add: storage_ok_def store_ok_def)
  note run = run_standalone_ok [OF assms(1)]
  show ?thesis
  proof (cases cmd)
    case (CmdPrewrite muts primary s ttl)
    show ?thesis
      unfolding CmdPrewrite run_cmd.simps Storage_Prewrite_def
      by (intro run keeps_latches_bodies applyEach_ok [OF ok] prewriteAll_ok [OF mv])
         (use assms(2) CmdPrewrite in simp_all)
  next
    case (CmdCommit keys s c)
    show ?thesis
      unfolding CmdCommit run_cmd.simps Storage_Commit_def
      by (intro run keeps_latches_bodies applyEvery_ok [OF ok] commitAll_ok [OF mv, of s c keys])
         (use assms(2) CmdCommit in simp_all)
  next
    case (CmdBatchRollback keys s)
    show ?thesis
      unfolding CmdBatchRollback run_cmd.simps Storage_BatchRollback_def
      by (intro run keeps_latches_bodies applyEvery_ok [OF ok] rollbackAll_ok [OF mv, of keys s])
         (use assms(2) CmdBatchRollback in simp_all)
  next
    case (CmdPessimisticLock keys primary s f ttl)
    show ?thesis
      unfolding CmdPessimisticLock run_cmd.simps Storage_PessimisticLock_def
      by (intro run keeps_latches_bodies applyEach_ok [OF ok] pessimisticAll_ok [OF mv])
         (use assms(2) CmdPessimisticLock in simp_all)
  next
    case (CmdResolveLock s c keys)
    have "\<exists>\<sigma>'. map_option snd (standalone ks (\<lambda>s'. applyEvery (resolveAll ks s c (sto_engine s')) s') \<sigma>) = Some \<sigma>' \<and>
        storage_ok \<sigma>'" for ks
      by (intro run keeps_latches_bodies applyEvery_ok [OF ok] resolveAll_ok [OF mv, of c s ks])
         (use assms(2) CmdResolveLock in simp_all)
    then show ?thesis
      using assms(1) unfolding CmdResolveLock run_cmd.simps Storage_ResolveLock_def Let_def by (auto split: if_splits)
  next
    case (CmdPrewriteAsyncCommit muts primary s ttl secs m)
    have "txn_ok (snd (asyncAll muts primary s ttl secs m (sto_engine \<sigma>)))"
      using asyncAll_ok [OF mv] assms(2) CmdPrewriteAsyncCommit by blast
    then show ?thesis
      unfolding CmdPrewriteAsyncCommit run_cmd.simps Storage_PrewriteAsyncCommit_def
      by (intro run)
         (auto simp: keeps_latches_def Storage_ApplyModifies_latches Let_def ok Storage_ApplyModifies_txn txn_ok_def
           split: prod.splits option.splits)
  next
    case (CmdPrewrite1PC muts primary s c ttl)
    have "txn_ok (snd (onePCAll muts primary s c ttl (sto_engine \<sigma>)))"
      using onePCAll_ok assms(2) CmdPrewrite1PC by simp
    then show ?thesis
      unfolding CmdPrewrite1PC run_cmd.simps Storage_Prewrite1PC_def
      by (intro run)
         (auto simp: keeps_latches_def Storage_ApplyModifies_latches Let_def ok Storage_ApplyModifies_txn txn_ok_def
           split: prod.splits option.splits)
  next
    case (CmdTxnHeartBeat key s ttl)
    have "txn_ok txn" if "heartBeat1 key s ttl (sto_engine \<sigma>) = Inr (t, txn)" for t txn
      using TxnHeartBeat_ok [OF mv] that by (simp add: heartBeat1_def)
    then show ?thesis
      unfolding CmdTxnHeartBeat run_cmd.simps Storage_TxnHeartBeat_def
      by (intro run)
         (auto simp: keeps_latches_def Storage_ApplyModifies_latches Let_def ok Storage_ApplyModifies_txn txn_ok_def
           split: prod.splits option.splits sum.splits)
  next
    case (CmdPessimisticRollback keys s f)
    have "txn_ok (snd (PessimisticRollback (NewMvccTxn s) (sto_engine \<sigma>) keys s f))"
      by (simp add: PessimisticRollback_ok)
    then show ?thesis
      unfolding CmdPessimisticRollback run_cmd.simps Storage_PessimisticRollbackKeys_def
      by (intro run)
         (auto simp: keeps_latches_def applyEach_def Storage_ApplyModifies_latches Let_def ok Storage_ApplyModifies_txn txn_ok_def
           split: prod.splits option.splits)
  next
    case (CmdCheckTxnStatus key s caller b)
    let ?f = "\<lambda>snap. res_bind (CheckTxnStatusWithCleanup (NewMvccTxn s) snap key s caller b)
         (\<lambda>(status, txn). Inr (status, txn_Modifies txn))"
    let ?mods = "\<lambda>r. case r of Inl _ \<Rightarrow> [] | Inr (_, ms) \<Rightarrow> ms"
    let ?body = "\<lambda>\<sigma>. case Storage_ApplyModifies (?mods (?f (sto_engine \<sigma>))) \<sigma> of
        (Some e, \<sigma>') \<Rightarrow> (?f (sto_engine \<sigma>), \<sigma>') | (None, \<sigma>') \<Rightarrow> (?f (sto_engine \<sigma>), \<sigma>')"
    have eq: "cluster ?mods (\<lambda>e r. r) (\<lambda>r. r) (Storage_CheckTxnStatusWithCleanup key s caller b \<sigma>) = standalone [key] ?body \<sigma>"
      unfolding Storage_CheckTxnStatusWithCleanup_def by (intro cluster_guarded) (rule refl)
    have "txn_ok txn" if "CheckTxnStatusWithCleanup (NewMvccTxn s) (sto_engine \<sigma>) key s caller b = Inr (t, txn)" for t txn
      using CheckTxnStatusWithCleanup_ok [OF mv that] by simp
    then have "store_ok (sto_engine (snd (?body \<sigma>)))"
      by (auto simp: ok Storage_ApplyModifies_txn txn_ok_def res_bind_def split: prod.splits option.splits sum.splits)
    then show ?thesis
      unfolding CmdCheckTxnStatus run_cmd.simps eq
      by (intro run) (auto simp: keeps_latches_def Storage_ApplyModifies_latches split: prod.splits option.splits)
  next
    case (CmdCleanup key s)
    show ?thesis
      unfolding CmdCleanup run_cmd.simps Storage_Cleanup_def by (intro run cleanupBody_keeps cleanupBody_ok ok)
  qed
qed

lemma run_cmds_ok:
  assumes "storage_ok \<sigma>" "list_all cmd_valid cmds"
  shows "\<exists>\<sigma>'. run_cmds cmds \<sigma> = Some \<sigma>' \<and> storage_ok \<sigma>'"
  using assms
proof (induction cmds arbitrary: \<sigma>)
  case (Cons c cs)
  then obtain \<sigma>1 where "run_cmd c \<sigma> = Some \<sigma>1" "storage_ok \<sigma>1" using run_cmd_ok [of \<sigma> c] by auto
  with Cons show ?case by auto
qed simp

lemma storage_ok_New: "store_ok engine \<Longrightarrow> storage_ok (NewStorage engine)"
  by (simp add: storage_ok_def NewStorage_def)

lemma Storage_Get_st:
  assumes "storage_ok \<sigma>"
  shows "Storage_Get k ts \<sigma> =
    Some (case blocking_lock (NewPointGetter (sto_engine \<sigma>) ts IsolationLevelSI) k of
        Some l \<Rightarrow> Inl (LockError k l) | None \<Rightarrow> Inr (read_at (sto_engine \<sigma>) k ts))"
  unfolding Storage_Get_def Storage_GetWithIsolation_def
  by (rule NewPointGetter_Get) (use assms in \<open>simp_all add: storage_ok_def store_ok_def plain_last_change_ok\<close>)

text \<open>C5: The storage keeps its invariant under every sequence of commands. Started on a
  well-formed engine, any sequence of the eleven state-changing commands runs to its end
  without waiting; afterwards the three column families decode, every write record has a
  commit timestamp not below its start timestamp, all latches are free, and every point read
  of every key at every timestamp returns: an error exactly on a blocking lock, and otherwise
  the newest version.\<close>

theorem storage_invariant:
  assumes "store_ok engine" "list_all cmd_valid cmds"
  shows "\<exists>\<sigma>. run_cmds cmds (NewStorage engine) = Some \<sigma> \<and> mvcc_ok (sto_engine \<sigma>) \<and>
     (\<forall>k. plain_versions (st_versions (sto_engine \<sigma>) k)) \<and> latches_idle (sto_latches \<sigma>) \<and>
     (\<forall>k ts. Storage_Get k ts \<sigma> =
        Some (case blocking_lock (NewPointGetter (sto_engine \<sigma>) ts IsolationLevelSI) k of
            Some l \<Rightarrow> Inl (LockError k l) | None \<Rightarrow> Inr (read_at (sto_engine \<sigma>) k ts)))"
proof -
  obtain \<sigma> where run: "run_cmds cmds (NewStorage engine) = Some \<sigma>" and ok: "storage_ok \<sigma>"
    using run_cmds_ok [OF storage_ok_New [OF assms(1)] assms(2)] by blast
  have "mvcc_ok (sto_engine \<sigma>)" "\<forall>k. plain_versions (st_versions (sto_engine \<sigma>) k)" "latches_idle (sto_latches \<sigma>)"
    using ok by (simp_all add: storage_ok_def store_ok_def)
  with run Storage_Get_st [OF ok] show ?thesis by blast
qed

theorem storage_invariant_witness:
  "\<exists>\<sigma>. run_cmds [CmdPrewrite [sampleMut] [1] 15 3000, CmdCommit [[1]] 15 20, CmdBatchRollback [[1]] 30]
        (NewStorage empty_store) = Some \<sigma> \<and> latches_idle (sto_latches \<sigma>)"
  using storage_invariant [OF store_ok_empty,
      of "[CmdPrewrite [sampleMut] [1] 15 3000, CmdCommit [[1]] 15 20, CmdBatchRollback [[1]] 30]"] by auto

subsection \<open>Two-phase commit over several keys\<close>

lemma each_all:
  assumes "\<And>txn i. i \<in> set is \<Longrightarrow> act txn i = Inr (g i txn)"
  shows "each act is txn = (replicate (length is) None, fold g is txn)"
  using assms by (induction "is" arbitrary: txn) simp_all

lemma every_all:
  assumes "\<And>txn i. i \<in> set is \<Longrightarrow> act txn i = Inr (g i txn)"
  shows "every act is txn = Inr (fold g is txn)"
  using assms by (induction "is" arbitrary: txn) simp_all

lemma hasError_replicate [simp]: "\<not> hasError (replicate n None)"
  by (simp add: hasError_def list_ex_iff)

text \<open>The store after the locks of all mutations are written.\<close>

definition prepared :: "(TxnMutation \<Rightarrow> Lock) \<Rightarrow> TimeStamp \<Rightarrow> TxnMutation list \<Rightarrow> store \<Rightarrow> store" where
  "prepared L s muts st = fold (\<lambda>m. put_prewrite (L m) s m) muts st"

lemma prepared_ok:
  assumes "store_ok st" "\<And>m. lock_sizes_ok (L m)"
  shows "store_ok (prepared L s muts st)"
proof -
  have "store_ok (put_prewrite (L m) s m st)" if "store_ok st" for m st
    using that assms(2) by (auto simp: put_prewrite_def store_ok_effects split: option.splits)
  then show ?thesis using assms(1) unfolding prepared_def by (induction muts arbitrary: st) simp_all
qed

lemma prepared_other:
  assumes "mvcc_ok st" "\<And>m. lock_sizes_ok (L m)"
  shows "st_versions (prepared L s muts st) k = st_versions st k"
    "k \<notin> tm_Key ` set muts \<Longrightarrow> st_lock (prepared L s muts st) k = st_lock st k"
    "k \<notin> tm_Key ` set muts \<or> c \<noteq> s \<Longrightarrow> st_value (prepared L s muts st) k c = st_value st k c"
  using assms(1) unfolding prepared_def
  by (induction muts arbitrary: st) (auto simp: mvcc_view assms(2))

definition large :: "TxnMutation \<Rightarrow> bool" where
  "large m \<longleftrightarrow> tm_Op m = MutationOpPut \<and> ShortValueMaxLen < length (slice_bytes (tm_Value m))"

lemma prepared_own:
  assumes "mvcc_ok st" "\<And>m. lock_sizes_ok (L m)" "distinct (map tm_Key muts)" "m \<in> set muts"
  shows "st_lock (prepared L s muts st) (tm_Key m) = Some (normLock (L m)) \<and>
    st_value (prepared L s muts st) (tm_Key m) s = (if large m then tm_Value m else st_value st (tm_Key m) s)"
  using assms
proof (induction muts arbitrary: st)
  case (Cons m' muts)
  let ?st = "put_prewrite (L m') s m' st"
  have mv: "mvcc_ok ?st" using Cons.prems by (simp add: mvcc_view)
  have unfold: "prepared L s (m' # muts) st = prepared L s muts ?st" by (simp add: prepared_def)
  show ?case
  proof (cases "m = m'")
    case True
    with Cons.prems have "tm_Key m \<notin> tm_Key ` set muts" by auto
    then show ?thesis
      using Cons.prems True by (simp add: unfold prepared_other [OF mv] mvcc_view large_def)
  next
    case False
    with Cons.prems have "tm_Key m \<in> tm_Key ` set muts" "tm_Key m' \<notin> tm_Key ` set muts" by simp_all
    then have "tm_Key m \<noteq> tm_Key m'" by metis
    with False Cons.prems mv Cons.IH [of ?st] show ?thesis by (simp add: unfold mvcc_view)
  qed
qed simp

text \<open>The store after the locks of all keys are turned into write records.\<close>

definition committed :: "(bytes \<Rightarrow> Write) \<Rightarrow> TimeStamp \<Rightarrow> bytes list \<Rightarrow> store \<Rightarrow> store" where
  "committed W c keys st = fold (\<lambda>k st. put_write k c (W k) (del_lock k st)) keys st"

lemma committed_view:
  assumes "mvcc_ok st" "\<And>k. k \<in> set keys \<Longrightarrow> write_sizes_ok (W k)" "distinct keys"
  shows "mvcc_ok (committed W c keys st)"
    "st_lock (committed W c keys st) k = (if k \<in> set keys then None else st_lock st k)"
    "st_versions (committed W c keys st) k =
       (if k \<in> set keys then ver_put c (normWrite (W k)) (st_versions st k) else st_versions st k)"
    "st_value (committed W c keys st) k ts = st_value st k ts"
  using assms unfolding committed_def
  by (induction keys arbitrary: st) (auto simp: mvcc_view)

subsection \<open>What a new version does to reads\<close>

lemma data_version_append: "list_all (\<lambda>v. no_data (snd v)) xs \<Longrightarrow> data_version (xs @ ys) = data_version ys"
  by (induction xs) auto

lemma read_before_commit: "ts < c \<Longrightarrow> filter (\<lambda>v. fst v \<le> ts) (ver_put c w vs) = filter (\<lambda>v. fst v \<le> ts) vs"
proof -
  assume "ts < c"
  then have lt: "\<not> c \<le> ts" "\<And>x. x \<le> ts \<Longrightarrow> x < c" by (auto intro: le_less_trans)
  have "filter (\<lambda>v. c < fst v \<and> fst v \<le> ts) vs = []" using lt(2) by (auto simp: filter_empty_conv dest: less_asym)
  moreover have "filter (\<lambda>v. fst v < c \<and> fst v \<le> ts) vs = filter (\<lambda>v. fst v \<le> ts) vs"
    using lt(2) by (intro filter_cong) auto
  ultimately show ?thesis using lt(1) by (simp add: ver_put_def)
qed

lemma read_after_commit:
  assumes "\<not> has_data (newer_than s vs)" "s < c" "c \<le> ts"
  shows "data_version (filter (\<lambda>v. fst v \<le> ts) (ver_put c w vs)) =
    (if no_data w then data_version (filter (\<lambda>v. fst v \<le> ts) vs)
     else if write_WriteType w = WriteTypePut then (Some w, c) else (None, 0))"
proof -
  have nd: "no_data (snd v)" if "v \<in> set vs" "s < fst v" for v
    using assms(1) that by (auto simp: has_data_def newer_than_def list_ex_iff)
  have low: "fst v < c \<Longrightarrow> fst v \<le> ts" for v :: version using assms(3) by simp
  have lowf: "filter (\<lambda>v. fst v < c \<and> fst v \<le> ts) vs = filter (\<lambda>v. fst v < c) vs"
    using low by (intro filter_cong) auto
  have "filter (\<lambda>v. fst v \<le> ts) (ver_put c w vs) =
      filter (\<lambda>v. fst v \<le> ts) (filter (\<lambda>v. c < fst v) vs) @ (c, w) # filter (\<lambda>v. fst v < c) vs"
    using assms(3) lowf by (simp add: ver_put_def)
  then have eq: "data_version (filter (\<lambda>v. fst v \<le> ts) (ver_put c w vs)) = data_version ((c, w) # filter (\<lambda>v. fst v < c) vs)"
    using nd assms(2) by (simp only:) (rule data_version_append, auto simp: list_all_iff intro: order.strict_trans)
  have "data_version (filter (\<lambda>v. fst v < c) (filter (\<lambda>v. fst v \<le> ts) vs)) = data_version (filter (\<lambda>v. fst v \<le> ts) vs)"
    using nd assms(2) by (intro data_version_skip) (auto simp: not_less intro: less_le_trans)
  moreover have "filter (\<lambda>v. fst v < c) (filter (\<lambda>v. fst v \<le> ts) vs) = filter (\<lambda>v. fst v < c) vs"
    using lowf by (simp add: conj_commute)
  ultimately show ?thesis unfolding eq by simp
qed

subsection \<open>Prewrite and commit through the storage\<close>

text \<open>A transaction that has not touched the keys yet and that no newer write conflicts with.\<close>

definition fresh_txn :: "store \<Rightarrow> TimeStamp \<Rightarrow> bytes set \<Rightarrow> bool" where
  "fresh_txn st s keys \<longleftrightarrow>
     (\<forall>k \<in> keys. st_lock st k = None \<and> \<not> has_data (newer_than s (st_versions st k)) \<and>
        (\<forall>v \<in> set (st_versions st k). write_StartTS (snd v) \<noteq> s))"

lemma fresh_no_conflict: "\<not> has_data (newer_than s vs) \<Longrightarrow> \<not> conflicts s vs"
  by (auto simp: conflicts_def has_data_def list_ex_iff dest: in_set_takeD)

lemma txn_apply_fold:
  assumes "\<And>i txn st. txn_apply (g i txn) st = e i (txn_apply txn st)" "\<And>i txn. txn_known (g i txn) \<longleftrightarrow> txn_known txn"
  shows "txn_apply (fold g is txn) st = fold e is (txn_apply txn st) \<and> (txn_known (fold g is txn) \<longleftrightarrow> txn_known txn)"
  by (induction "is" arbitrary: txn) (simp_all add: assms)

lemma prewriteProps_fields [simp]:
  "pp_StartTS (prewriteProps primary s ttl m) = s" "pp_Primary (prewriteProps primary s ttl m) = primary"
  by (simp_all add: prewriteProps_def)

lemma Storage_Prewrite_fresh:
  assumes "storage_ok \<sigma>" "fresh_txn (sto_engine \<sigma>) s (tm_Key ` set muts)"
  shows "Storage_Prewrite muts primary s ttl \<sigma> =
    Some (replicate (length muts) None,
      \<sigma>\<lparr>sto_engine := prepared (\<lambda>m. prewriteLock (prewriteProps primary s ttl m) m) s muts (sto_engine \<sigma>),
        sto_cmdID := sto_cmdID \<sigma> + 1\<rparr>)"
proof -
  let ?L = "\<lambda>m. prewriteLock (prewriteProps primary s ttl m) m"
  let ?g = "\<lambda>m txn. putLarge s m (PutLock (tm_Key m) (?L m) txn)"
  have mv: "mvcc_ok (sto_engine \<sigma>)" using assms(1) by (simp add: storage_ok_def store_ok_def)
  have act: "Prewrite txn (sto_engine \<sigma>) (prewriteProps primary s ttl m) m = Inr (?g m txn)" if "m \<in> set muts" for txn m
    using assms(2) that fresh_no_conflict [of s "st_versions (sto_engine \<sigma>) (tm_Key m)"]
    by (auto simp: Prewrite_st [OF mv] fresh_txn_def prewriteProps_def)
  have all: "prewriteAll muts primary s ttl (sto_engine \<sigma>) = (replicate (length muts) None, fold ?g muts (NewMvccTxn s))"
    unfolding prewriteAll_def by (rule each_all [OF act])
  have fold: "txn_apply (fold ?g muts (NewMvccTxn s)) st = prepared ?L s muts st" "txn_known (fold ?g muts (NewMvccTxn s))" for st
    using txn_apply_fold [of ?g "\<lambda>m. put_prewrite (?L m) s m" muts "NewMvccTxn s" st] by (simp_all add: prepared_def)
  have body: "applyEach (prewriteAll muts primary s ttl (sto_engine \<sigma>)) \<sigma> =
      (replicate (length muts) None, \<sigma>\<lparr>sto_engine := prepared ?L s muts (sto_engine \<sigma>)\<rparr>)"
    by (simp add: applyEach_def all Storage_ApplyModifies_txn fold)
  have idle: "latches_idle (sto_latches \<sigma>)" using assms(1) by (simp add: storage_ok_def)
  show ?thesis
    unfolding Storage_Prewrite_def standalone_idle [OF idle keeps_latches_bodies(1)] body by simp
qed

lemma Storage_Commit_locked:
  assumes "storage_ok \<sigma>"
    and locked: "\<And>k. k \<in> set keys \<Longrightarrow> \<exists>l. st_lock (sto_engine \<sigma>) k = Some l \<and> lock_StartTS l = s \<and> lock_MinCommitTS l \<le> c \<and>
      lock_LockType l \<noteq> LockTypePessimistic"
  shows "Storage_Commit keys s c \<sigma> =
    Some (None, \<sigma>\<lparr>sto_engine := committed (\<lambda>k. commit_write (the (st_lock (sto_engine \<sigma>) k))) c keys (sto_engine \<sigma>),
        sto_cmdID := sto_cmdID \<sigma> + 1\<rparr>)"
proof -
  let ?W = "\<lambda>k. commit_write (the (st_lock (sto_engine \<sigma>) k))"
  let ?g = "\<lambda>k txn. PutWrite k c (?W k) (snd (UnlockKey k False txn))"
  have mv: "mvcc_ok (sto_engine \<sigma>)" using assms(1) by (simp add: storage_ok_def store_ok_def)
  have act: "Commit txn (sto_engine \<sigma>) k s c = Inr (?g k txn)" if "k \<in> set keys" for txn k
    using locked [OF that] by (auto simp: Commit_st [OF mv] commit_write_def)
  have all: "commitAll keys s c (sto_engine \<sigma>) = Inr (fold ?g keys (NewMvccTxn s))"
    unfolding commitAll_def by (rule every_all [OF act])
  have fold: "txn_apply (fold ?g keys (NewMvccTxn s)) st = committed ?W c keys st" "txn_known (fold ?g keys (NewMvccTxn s))" for st
    using txn_apply_fold [of ?g "\<lambda>k st. put_write k c (?W k) (del_lock k st)" keys "NewMvccTxn s" st]
    by (simp_all add: committed_def)
  have body: "applyEvery (commitAll keys s c (sto_engine \<sigma>)) \<sigma> = (None, \<sigma>\<lparr>sto_engine := committed ?W c keys (sto_engine \<sigma>)\<rparr>)"
    by (simp add: applyEvery_def all Storage_ApplyModifies_txn fold)
  have idle: "latches_idle (sto_latches \<sigma>)" using assms(1) by (simp add: storage_ok_def)
  show ?thesis
    unfolding Storage_Commit_def standalone_idle [OF idle keeps_latches_bodies(2)] body by simp
qed

lemma data_version_mem: "data_version vs = (Some w, c) \<Longrightarrow> (c, w) \<in> set vs"
  by (induction vs rule: data_version.induct) (auto split: if_splits)

lemma read_at_mono:
  assumes "data_version (filter (\<lambda>v. fst v \<le> ts) (st_versions st' k)) = data_version (filter (\<lambda>v. fst v \<le> ts) (st_versions st k))"
    and "\<And>x. x \<noteq> s \<Longrightarrow> st_value st' k x = st_value st k x" "\<forall>v \<in> set (st_versions st k). write_StartTS (snd v) \<noteq> s"
  shows "read_at st' k ts = read_at st k ts"
proof (cases "data_version (filter (\<lambda>v. fst v \<le> ts) (st_versions st k))")
  case (Pair wo c)
  show ?thesis
  proof (cases wo)
    case (Some w)
    then have "(c, w) \<in> set (st_versions st k)" using data_version_mem Pair by fastforce
    then have "write_StartTS w \<noteq> s" using assms(3) by auto
    then show ?thesis using assms(1,2) Pair Some by (simp add: read_at_def split: option.splits)
  qed (use assms(1) Pair in \<open>simp add: read_at_def\<close>)
qed

text \<open>What a reader after the commit sees of a mutation.\<close>

definition mut_read :: "TxnMutation \<Rightarrow> bytes option \<Rightarrow> bytes option" where
  "mut_read m old = (case tm_Op m of MutationOpPut \<Rightarrow> tm_Value m | MutationOpDelete \<Rightarrow> None | MutationOpLock \<Rightarrow> old)"

lemma commit_write_plain [simp]:
  "write_StartTS (commit_write l) = lock_StartTS l" "lc_TS (write_LastChange (commit_write l)) = 0"
  by (simp_all add: commit_write_def Write_zero_def LastChange_zero_def)

lemma committed_ok:
  assumes "store_ok st" "\<And>k. k \<in> set keys \<Longrightarrow> write_sizes_ok (W k) \<and> write_StartTS (W k) \<le> c \<and> lc_TS (write_LastChange (W k)) = 0"
  shows "store_ok (committed W c keys st)"
  using assms unfolding committed_def
  by (induction keys arbitrary: st) (simp_all add: store_ok_effects)

text \<open>The two stores of a two-phase commit.\<close>

definition txn_lock :: "bytes \<Rightarrow> TimeStamp \<Rightarrow> u64 \<Rightarrow> TxnMutation \<Rightarrow> Lock" where
  "txn_lock primary s ttl m = prewriteLock (prewriteProps primary s ttl m) m"

definition txn_prepared :: "bytes \<Rightarrow> TimeStamp \<Rightarrow> u64 \<Rightarrow> TxnMutation list \<Rightarrow> store \<Rightarrow> store" where
  "txn_prepared primary s ttl muts st = prepared (txn_lock primary s ttl) s muts st"

definition txn_committed :: "bytes \<Rightarrow> TimeStamp \<Rightarrow> TimeStamp \<Rightarrow> u64 \<Rightarrow> TxnMutation list \<Rightarrow> store \<Rightarrow> store" where
  "txn_committed primary s c ttl muts st =
     (let st1 = txn_prepared primary s ttl muts st in
      committed (\<lambda>k. commit_write (the (st_lock st1 k))) c (map tm_Key muts) st1)"

lemma txn_lock_fields [simp]:
  "lock_StartTS (txn_lock primary s ttl m) = s" "lock_MinCommitTS (txn_lock primary s ttl m) = 0"
  "lock_LockType (txn_lock primary s ttl m) = mutationOpToLockType (tm_Op m)"
  by (simp_all add: txn_lock_def)

lemma txn_lock_sizes: "length primary < 2 ^ 64 \<Longrightarrow> lock_sizes_ok (txn_lock primary s ttl m)"
  by (simp add: txn_lock_def prewriteLock_sizes)

lemma txn_prepared_view:
  assumes "store_ok st" "length primary < 2 ^ 64"
  shows "store_ok (txn_prepared primary s ttl muts st)"
    "st_versions (txn_prepared primary s ttl muts st) k = st_versions st k"
    "k \<notin> tm_Key ` set muts \<Longrightarrow> st_lock (txn_prepared primary s ttl muts st) k = st_lock st k"
    "k \<notin> tm_Key ` set muts \<or> x \<noteq> s \<Longrightarrow> st_value (txn_prepared primary s ttl muts st) k x = st_value st k x"
    "distinct (map tm_Key muts) \<Longrightarrow> m \<in> set muts \<Longrightarrow>
       st_lock (txn_prepared primary s ttl muts st) (tm_Key m) = Some (normLock (txn_lock primary s ttl m))"
    "distinct (map tm_Key muts) \<Longrightarrow> m \<in> set muts \<Longrightarrow>
       st_value (txn_prepared primary s ttl muts st) (tm_Key m) s = (if large m then tm_Value m else st_value st (tm_Key m) s)"
proof -
  have sizes: "lock_sizes_ok (txn_lock primary s ttl m)" for m by (rule txn_lock_sizes [OF assms(2)])
  have mv: "mvcc_ok st" using assms(1) by (rule store_okD)
  show "store_ok (txn_prepared primary s ttl muts st)" unfolding txn_prepared_def by (rule prepared_ok [OF assms(1) sizes])
  show "st_versions (txn_prepared primary s ttl muts st) k = st_versions st k"
    "k \<notin> tm_Key ` set muts \<Longrightarrow> st_lock (txn_prepared primary s ttl muts st) k = st_lock st k"
    "k \<notin> tm_Key ` set muts \<or> x \<noteq> s \<Longrightarrow> st_value (txn_prepared primary s ttl muts st) k x = st_value st k x"
    unfolding txn_prepared_def by (simp_all add: prepared_other [where L = "txn_lock primary s ttl", OF mv sizes])
  show "distinct (map tm_Key muts) \<Longrightarrow> m \<in> set muts \<Longrightarrow>
       st_lock (txn_prepared primary s ttl muts st) (tm_Key m) = Some (normLock (txn_lock primary s ttl m))"
    "distinct (map tm_Key muts) \<Longrightarrow> m \<in> set muts \<Longrightarrow>
       st_value (txn_prepared primary s ttl muts st) (tm_Key m) s = (if large m then tm_Value m else st_value st (tm_Key m) s)"
    unfolding txn_prepared_def using prepared_own [where L = "txn_lock primary s ttl", OF mv sizes] by blast+
qed

lemma txn_committed_view:
  assumes "store_ok st" "length primary < 2 ^ 64" "distinct (map tm_Key muts)" "s < c"
  shows "store_ok (txn_committed primary s c ttl muts st)"
    "k \<notin> tm_Key ` set muts \<Longrightarrow> st_lock (txn_committed primary s c ttl muts st) k = st_lock st k"
    "k \<notin> tm_Key ` set muts \<Longrightarrow> st_versions (txn_committed primary s c ttl muts st) k = st_versions st k"
    "st_value (txn_committed primary s c ttl muts st) k x = st_value (txn_prepared primary s ttl muts st) k x"
    "m \<in> set muts \<Longrightarrow> st_lock (txn_committed primary s c ttl muts st) (tm_Key m) = None"
    "m \<in> set muts \<Longrightarrow> st_versions (txn_committed primary s c ttl muts st) (tm_Key m) =
       ver_put c (normWrite (commit_write (normLock (txn_lock primary s ttl m)))) (st_versions st (tm_Key m))"
proof -
  let ?st1 = "txn_prepared primary s ttl muts st" and ?keys = "map tm_Key muts"
  let ?W = "\<lambda>k. commit_write (the (st_lock ?st1 k))"
  note view1 = txn_prepared_view [OF assms(1,2)]
  have W: "write_sizes_ok (?W k) \<and> write_StartTS (?W k) \<le> c \<and> lc_TS (write_LastChange (?W k)) = 0"
    if k: "k \<in> set ?keys" for k
  proof -
    obtain m where m: "m \<in> set muts" "k = tm_Key m" using k by auto
    note own = view1(5) [OF assms(3) m(1), of s ttl]
    show ?thesis
      using commit_write_sizes [OF st_lock_sizes [OF own]] own m(2) assms(4) by simp
  qed
  have eq: "txn_committed primary s c ttl muts st = committed ?W c ?keys ?st1" by (simp add: txn_committed_def Let_def)
  have view2: "st_lock (committed ?W c ?keys ?st1) k = (if k \<in> set ?keys then None else st_lock ?st1 k)"
      "st_versions (committed ?W c ?keys ?st1) k =
         (if k \<in> set ?keys then ver_put c (normWrite (?W k)) (st_versions ?st1 k) else st_versions ?st1 k)"
      "st_value (committed ?W c ?keys ?st1) k x = st_value ?st1 k x" for k x
    by (rule committed_view [OF store_okD(1) [OF view1(1)] _ assms(3)], use W in blast)+
  show "store_ok (txn_committed primary s c ttl muts st)"
    unfolding eq by (rule committed_ok [OF view1(1) W])
  show "st_value (txn_committed primary s c ttl muts st) k x = st_value ?st1 k x"
    unfolding eq by (rule view2(3))
  show "st_lock (txn_committed primary s c ttl muts st) k = st_lock st k"
    "st_versions (txn_committed primary s c ttl muts st) k = st_versions st k" if "k \<notin> tm_Key ` set muts"
    using that unfolding eq view2(1,2) by (simp_all add: view1(2,3))
  show "st_lock (txn_committed primary s c ttl muts st) (tm_Key m) = None"
    "st_versions (txn_committed primary s c ttl muts st) (tm_Key m) =
       ver_put c (normWrite (commit_write (normLock (txn_lock primary s ttl m)))) (st_versions st (tm_Key m))" if "m \<in> set muts"
    using that unfolding eq view2(1,2) by (simp_all add: view1(2,5) assms(3))
qed

lemma mut_data_version:
  assumes "\<not> has_data (newer_than s vs)" "s < c" "c \<le> ts"
  shows "data_version (filter (\<lambda>v. fst v \<le> ts)
      (ver_put c (normWrite (commit_write (normLock (txn_lock primary s ttl m)))) vs)) =
    (case tm_Op m of
       MutationOpPut \<Rightarrow> (Some (normWrite (commit_write (normLock (txn_lock primary s ttl m)))), c)
     | MutationOpDelete \<Rightarrow> (None, 0)
     | MutationOpLock \<Rightarrow> data_version (filter (\<lambda>v. fst v \<le> ts) vs))"
  unfolding read_after_commit [OF assms] no_data_def
  by (cases "tm_Op m") (simp_all add: lockTypeToWriteType_def mutationOpToLockType_def lock_types write_types)

lemma txn_committed_reads:
  assumes st: "store_ok st" and p: "length primary < 2 ^ 64" and d: "distinct (map tm_Key muts)" and c: "s < c"
    and fresh: "fresh_txn st s (tm_Key ` set muts)" and m: "m \<in> set muts"
    and v: "tm_Op m = MutationOpPut \<longrightarrow> slice_bytes (tm_Value m) \<noteq> []"
  shows "read_at (txn_committed primary s c ttl muts st) (tm_Key m) ts =
    (if ts < c then read_at st (tm_Key m) ts else mut_read m (read_at st (tm_Key m) ts))"
proof -
  let ?k = "tm_Key m" and ?vs = "st_versions st (tm_Key m)" and ?st2 = "txn_committed primary s c ttl muts st"
  note view1 = txn_prepared_view [OF st p] and view2 = txn_committed_view [OF st p d c]
  have f: "\<not> has_data (newer_than s ?vs)" "\<forall>v \<in> set ?vs. write_StartTS (snd v) \<noteq> s"
    using fresh m by (auto simp: fresh_txn_def)
  have same: "read_at ?st2 ?k ts = read_at st ?k ts"
    if "data_version (filter (\<lambda>v. fst v \<le> ts) (st_versions ?st2 ?k)) = data_version (filter (\<lambda>v. fst v \<le> ts) ?vs)"
    by (rule read_at_mono [OF that _ f(2)]) (simp add: view2(4) view1(4))
  show ?thesis
  proof (cases "ts < c")
    case True
    then show ?thesis using same by (simp add: view2(6) [OF m] read_before_commit)
  next
    case False
    then have "c \<le> ts" by simp
    note after = mut_data_version [OF f(1) c this, of primary ttl m, folded view2(6) [OF m]]
    show ?thesis
    proof (cases "tm_Op m")
      case MutationOpPut
      with v after have "read_at ?st2 ?k ts = tm_Value m"
        by (auto simp: read_at_def view2(4) view1(6) [OF d m] txn_lock_def prewriteLock_ShortValue large_def normSlice_def
            slice_bytes_def split: option.splits if_splits)
      with False MutationOpPut show ?thesis by (simp add: mut_read_def)
    next
      case MutationOpDelete
      with after have "read_at ?st2 ?k ts = None" by (simp add: read_at_def)
      with False MutationOpDelete show ?thesis by (simp add: mut_read_def)
    next
      case MutationOpLock
      with False same after show ?thesis by (simp add: mut_read_def)
    qed
  qed
qed

lemma storage_ok_engine: "storage_ok \<sigma> \<Longrightarrow> store_ok st \<Longrightarrow> storage_ok (\<sigma>\<lparr>sto_engine := st, sto_cmdID := n\<rparr>)"
  by (simp add: storage_ok_def)

lemma Storage_Get_unlocked:
  "storage_ok \<sigma> \<Longrightarrow> st_lock (sto_engine \<sigma>) k = None \<Longrightarrow> Storage_Get k ts \<sigma> = Some (Inr (read_at (sto_engine \<sigma>) k ts))"
  by (simp add: Storage_Get_st blocking_lock_def)

lemma Storage_Get_cong:
  assumes "storage_ok \<sigma>" "storage_ok \<sigma>'" "st_lock (sto_engine \<sigma>') k = st_lock (sto_engine \<sigma>) k"
    and "st_versions (sto_engine \<sigma>') k = st_versions (sto_engine \<sigma>) k"
    and "\<And>x. st_value (sto_engine \<sigma>') k x = st_value (sto_engine \<sigma>) k x"
  shows "Storage_Get k ts \<sigma>' = Storage_Get k ts \<sigma>"
  using assms read_at_cong [OF assms(4,5)] by (simp add: Storage_Get_st blocking_lock_def split: option.splits)

lemma Storage_Prewrite_txn:
  assumes "storage_ok \<sigma>" "fresh_txn (sto_engine \<sigma>) s (tm_Key ` set muts)"
  shows "Storage_Prewrite muts primary s ttl \<sigma> = Some (replicate (length muts) None,
    \<sigma>\<lparr>sto_engine := txn_prepared primary s ttl muts (sto_engine \<sigma>), sto_cmdID := sto_cmdID \<sigma> + 1\<rparr>)"
  unfolding Storage_Prewrite_fresh [OF assms] txn_prepared_def txn_lock_def ..

lemma Storage_Commit_txn:
  assumes "storage_ok \<sigma>" "sto_engine \<sigma> = txn_prepared primary s ttl muts st"
    and "\<And>m. m \<in> set muts \<Longrightarrow> st_lock (sto_engine \<sigma>) (tm_Key m) = Some (normLock (txn_lock primary s ttl m))"
  shows "Storage_Commit (map tm_Key muts) s c \<sigma> =
    Some (None, \<sigma>\<lparr>sto_engine := txn_committed primary s c ttl muts st, sto_cmdID := sto_cmdID \<sigma> + 1\<rparr>)"
proof -
  have "\<exists>l. st_lock (sto_engine \<sigma>) k = Some l \<and> lock_StartTS l = s \<and> lock_MinCommitTS l \<le> c \<and>
      lock_LockType l \<noteq> LockTypePessimistic" if "k \<in> set (map tm_Key muts)" for k
    using that assms(3) by auto
  from Storage_Commit_locked [where keys = "map tm_Key muts", OF assms(1) this]
  show ?thesis by (simp add: assms(2) txn_committed_def Let_def)
qed



end
