(* ===== verification/Gc.thy ===== *)
theory Gc
  imports StorageProperties
begin

section \<open>Package gc: garbage collection of old versions\<close>

text \<open>
  Models \<^verbatim>\<open>internal/storage/gc/gc.go\<close>: the state machine \<^verbatim>\<open>GC\<close> over the versions of one key,
  the task that runs it over a key range, the latched application of its batch, and the task
  queue of the worker. \<^verbatim>\<open>GC\<close> adds its deletions to a batch its caller owns, so the batch is
  part of the result also when a read fails. The worker has the engine, the latches and the
  command counter of the storage it is created with.

  The loop of \<^verbatim>\<open>GC\<close> continues at \<^verbatim>\<open>commitTS - 1\<close>, which wraps at 0; it is a partial function
  and its termination is a theorem for keys without a record at timestamp 0. The lemmas
  give the versions that survive a collection and show that no read at or above the safe
  point changes.
\<close>

subsection \<open>Collecting one key\<close>

datatype gcState = gcStateRewind | gcStateRemoveIdempotent | gcStateRemoveAll

record GCInfo =
  gi_FoundVersions :: nat
  gi_DeletedVersions :: nat
  gi_IsCompleted :: bool

text \<open>The label \<^verbatim>\<open>done\<close>: remove the delete marker whose older versions are gone.\<close>

definition GC_done :: "bytes \<Rightarrow> TimeStamp option \<Rightarrow> GCInfo \<Rightarrow> MvccTxn \<Rightarrow> GCInfo res \<times> MvccTxn" where
  "GC_done key deleteMarkerTS info txn =
     (case deleteMarkerTS of
        None \<Rightarrow> (Inr info, txn)
      | Some ts \<Rightarrow> (Inr (info\<lparr>gi_DeletedVersions := gi_DeletedVersions info + 1\<rparr>), DeleteWrite key ts txn))"

partial_function (option) GC_loop ::
  "store \<Rightarrow> bytes \<Rightarrow> TimeStamp \<Rightarrow> gcState \<Rightarrow> TimeStamp \<Rightarrow> TimeStamp option \<Rightarrow> GCInfo \<Rightarrow> MvccTxn \<Rightarrow>
     (GCInfo res \<times> MvccTxn) option"
where
  "GC_loop snap key safePoint state ts deleteMarkerTS info txn =
     (case SeekWrite snap key ts of
        Inl e \<Rightarrow> Some (Inl e, txn)
      | Inr (None, _) \<Rightarrow> Some (GC_done key deleteMarkerTS info txn)
      | Inr (Some w, commitTS) \<Rightarrow>
          let info = info\<lparr>gi_FoundVersions := gi_FoundVersions info + 1\<rparr>;
              deleted = info\<lparr>gi_DeletedVersions := gi_DeletedVersions info + 1\<rparr> in
          if state = gcStateRewind \<and> safePoint < commitTS
          then GC_loop snap key safePoint gcStateRewind (commitTS - 1) deleteMarkerTS info txn
          else if state = gcStateRemoveAll
          then
            let txn = DeleteWrite key commitTS txn;
                txn = (if write_WriteType w = WriteTypePut \<and> write_ShortValue w = None
                       then DeleteValue key (write_StartTS w) txn else txn) in
            GC_loop snap key safePoint gcStateRemoveAll (commitTS - 1) deleteMarkerTS deleted txn
          else if write_WriteType w = WriteTypePut
          then GC_loop snap key safePoint gcStateRemoveAll (commitTS - 1) deleteMarkerTS info txn
          else if write_WriteType w = WriteTypeDelete
          then
            (case SeekWrite snap key (commitTS - 1) of
               Inl e \<Rightarrow> Some (Inl e, txn)
             | Inr (None, _) \<Rightarrow> Some (GC_done key deleteMarkerTS deleted (DeleteWrite key commitTS txn))
             | Inr (Some _, _) \<Rightarrow>
                 GC_loop snap key safePoint gcStateRemoveAll (commitTS - 1) (Some commitTS) info txn)
          else if write_WriteType w = WriteTypeLock \<or> write_WriteType w = WriteTypeRollback
          then GC_loop snap key safePoint gcStateRemoveIdempotent (commitTS - 1) deleteMarkerTS deleted
                 (DeleteWrite key commitTS txn)
          else GC_loop snap key safePoint gcStateRemoveIdempotent (commitTS - 1) deleteMarkerTS info txn)"

definition GC :: "MvccTxn \<Rightarrow> store \<Rightarrow> bytes \<Rightarrow> TimeStamp \<Rightarrow> (GCInfo res \<times> MvccTxn) option" where
  "GC txn snap key safePoint =
     GC_loop snap key safePoint gcStateRewind TSMax None
       \<lparr>gi_FoundVersions = 0, gi_DeletedVersions = 0, gi_IsCompleted = True\<rparr> txn"

subsection \<open>The worker\<close>

record GCConfig =
  gc_PollSafePointInterval :: int
  gc_MaxWriteBytesPerSec :: int
  gc_MaxTxnWriteSize :: int
  gc_BatchKeys :: int

definition DefaultGCConfig :: GCConfig where
  "DefaultGCConfig = \<lparr>gc_PollSafePointInterval = 10000000000, gc_MaxWriteBytesPerSec = 0,
     gc_MaxTxnWriteSize = 32 * 1024, gc_BatchKeys = 512\<rparr>"

record GCTask =
  gt_SafePoint :: TimeStamp
  gt_StartKey :: bytes
  gt_EndKey :: bytes

record GCWorker =
  gw_engine :: store
  gw_latches :: Latches
  gw_cmdIDCounter :: u64
  gw_taskCh :: "GCTask list"
  gw_config :: GCConfig
  gw_keysScanned :: nat
  gw_versionsDeleted :: nat

datatype gc_error =
    GcErr go_error
  | GcLatchTimeout
  | ErrGCTaskQueueFull

definition NewGCWorker :: "store \<Rightarrow> Latches option \<Rightarrow> u64 option \<Rightarrow> GCConfig option \<Rightarrow> GCWorker" where
  "NewGCWorker engine latches cmdIDCounter config =
     \<lparr>gw_engine = engine,
      gw_latches = (case latches of None \<Rightarrow> NewLatches 2048 | Some l \<Rightarrow> l),
      gw_cmdIDCounter = (case cmdIDCounter of None \<Rightarrow> 0 | Some n \<Rightarrow> n),
      gw_taskCh = [], gw_config = (case config of None \<Rightarrow> DefaultGCConfig | Some c \<Rightarrow> c),
      gw_keysScanned = 0, gw_versionsDeleted = 0\<rparr>"

text \<open>\<^verbatim>\<open>taskCh\<close> is a channel of capacity 64; a full channel refuses the task.\<close>

definition Schedule :: "GCTask \<Rightarrow> GCWorker \<Rightarrow> gc_error option \<times> GCWorker" where
  "Schedule task w =
     (if length (gw_taskCh w) < 64 then (None, w\<lparr>gw_taskCh := gw_taskCh w @ [task]\<rparr>)
      else (Some ErrGCTaskQueueFull, w))"

definition Stats :: "GCWorker \<Rightarrow> nat \<times> nat" where
  "Stats w = (gw_keysScanned w, gw_versionsDeleted w)"

text \<open>\<^verbatim>\<open>AcquireBlocking\<close> with a context that ends, as long as nobody else moves: when a slot is
  held, the partly taken latches are released and the channel is dropped (the entry in the
  wait queue of that slot stays).\<close>

definition AcquireTimeout :: "LatchLock \<Rightarrow> u64 \<Rightarrow> Latches \<Rightarrow> LatchLock option \<times> Latches" where
  "AcquireTimeout lock commandID l =
     (case Acquire lock commandID (l\<lparr>la_waiters := (la_waiters l)(commandID := Some False)\<rparr>) of
        (True, lock, l) \<Rightarrow> (Some lock, l\<lparr>la_waiters := (la_waiters l)(commandID := None)\<rparr>)
      | (False, lock, l) \<Rightarrow>
          let l = snd (snd (Release lock commandID l)) in
          (None, l\<lparr>la_waiters := (la_waiters l)(commandID := None)\<rparr>))"

text \<open>\<^verbatim>\<open>applyModifies\<close> is the switch of \<^verbatim>\<open>Storage.ApplyModifies\<close> without the range deletion.\<close>

fun gcApply_loop :: "Modify list \<Rightarrow> wb_op list \<Rightarrow> wb_op list res" where
  "gcApply_loop [] batch = Inr batch"
| "gcApply_loop (m # ms) batch =
     res_bind
       (case mod_Type m of
          ModifyTypePut \<Rightarrow> wb_add (WbPut (mod_CF m) (mod_Key m) (mod_Value m)) (mod_CF m) batch
        | ModifyTypeDelete \<Rightarrow> wb_add (WbDelete (mod_CF m) (mod_Key m)) (mod_CF m) batch
        | ModifyTypeDeleteRange \<Rightarrow> Inr batch)
       (gcApply_loop ms)"

definition gcApplyModifies :: "MvccTxn \<Rightarrow> store \<Rightarrow> store res" where
  "gcApplyModifies txn st =
     (if length (txn_Modifies txn) = 0 then Inr st
      else res_bind (gcApply_loop (txn_Modifies txn) []) (\<lambda>batch. Inr (wb_commit batch st)))"

definition applyModifiesWithLatches :: "MvccTxn \<Rightarrow> bytes list \<Rightarrow> GCWorker \<Rightarrow> gc_error option \<times> GCWorker" where
  "applyModifiesWithLatches txn keys w =
     (if length (txn_Modifies txn) = 0 then (None, w)
      else
        let cmdID = gw_cmdIDCounter w + 1;
            w = w\<lparr>gw_cmdIDCounter := cmdID\<rparr>;
            lock = GenLock (gw_latches w) keys in
        case AcquireTimeout lock cmdID (gw_latches w) of
          (None, l) \<Rightarrow> (Some GcLatchTimeout, w\<lparr>gw_latches := l\<rparr>)
        | (Some lock, l) \<Rightarrow>
            let l' = snd (snd (Release lock cmdID l)) in
            (case gcApplyModifies txn (gw_engine w) of
               Inl e \<Rightarrow> (Some (GcErr e), w\<lparr>gw_latches := l'\<rparr>)
             | Inr st \<Rightarrow> (None, w\<lparr>gw_engine := st, gw_latches := l'\<rparr>)))"

text \<open>The loop over the write records of the range. \<^verbatim>\<open>GC\<close> reads the snapshot taken at the
  start of the task.\<close>

fun processTask_loop ::
  "store \<Rightarrow> TimeStamp \<Rightarrow> cf \<Rightarrow> bytes \<Rightarrow> bytes list \<Rightarrow> MvccTxn \<Rightarrow> GCWorker \<Rightarrow> (gc_error option \<times> GCWorker) option"
where
  "processTask_loop snap safePoint [] lastUserKey batchKeys txn w =
     (if 0 < length (txn_Modifies txn)
      then Some (applyModifiesWithLatches txn batchKeys w)
      else Some (None, w))"
| "processTask_loop snap safePoint (e # es) lastUserKey batchKeys txn w =
     (case DecodeKey (fst e) of
        Inl _ \<Rightarrow> processTask_loop snap safePoint es lastUserKey batchKeys txn w
      | Inr (userKey, _) \<Rightarrow>
          if userKey = lastUserKey then processTask_loop snap safePoint es lastUserKey batchKeys txn w
          else
            let w = w\<lparr>gw_keysScanned := gw_keysScanned w + 1\<rparr> in
            case GC txn snap userKey safePoint of
              None \<Rightarrow> None
            | Some (Inl _, txn) \<Rightarrow> processTask_loop snap safePoint es userKey batchKeys txn w
            | Some (Inr info, txn) \<Rightarrow>
                let w = w\<lparr>gw_versionsDeleted := gw_versionsDeleted w + gi_DeletedVersions info\<rparr>;
                    batchKeys = batchKeys @ [userKey] in
                if gc_MaxTxnWriteSize (gw_config w) \<le> txn_WriteSize txn
                then (case applyModifiesWithLatches txn batchKeys w of
                        (Some err, w) \<Rightarrow> Some (Some err, w)
                      | (None, w) \<Rightarrow> processTask_loop snap safePoint es userKey [] (NewMvccTxn 0) w)
                else processTask_loop snap safePoint es userKey batchKeys txn w)"

definition processTask :: "GCTask \<Rightarrow> GCWorker \<Rightarrow> (gc_error option \<times> GCWorker) option" where
  "processTask task w =
     (let snap = gw_engine w;
          opts = \<lparr>opt_LowerBound = (if 0 < length (gt_StartKey task) then Some (EncodeKey (gt_StartKey task) TSMax) else None),
                  opt_UpperBound = (if 0 < length (gt_EndKey task) then Some (EncodeKey (gt_EndKey task) 0) else None)\<rparr> in
      processTask_loop snap (gt_SafePoint task) (it_rest (SeekToFirst (NewIterator (snap CFWrite) opts))) [] []
        (NewMvccTxn 0) w)"

text \<open>One turn of \<^verbatim>\<open>run\<close>: take the next task from the channel and process it.\<close>

definition run_gc :: "GCWorker \<Rightarrow> (gc_error option \<times> GCWorker) option" where
  "run_gc w =
     (case gw_taskCh w of
        [] \<Rightarrow> Some (None, w)
      | task # rest \<Rightarrow> processTask task (w\<lparr>gw_taskCh := rest\<rparr>))"

subsection \<open>What a collection deletes and keeps\<close>

text \<open>The records deleted among those not above the safe point, in the order of the deletions,
  and the ones that stay.\<close>

fun gc_deleted :: "version list \<Rightarrow> version list" where
  "gc_deleted [] = []"
| "gc_deleted ((c, w) # vs) =
     (if write_WriteType w = WriteTypePut then vs
      else if write_WriteType w = WriteTypeDelete then vs @ [(c, w)]
      else if no_data w then (c, w) # gc_deleted vs
      else gc_deleted vs)"

fun gc_kept :: "version list \<Rightarrow> version list" where
  "gc_kept [] = []"
| "gc_kept ((c, w) # vs) =
     (if write_WriteType w = WriteTypePut then [(c, w)]
      else if write_WriteType w = WriteTypeDelete then []
      else if no_data w then gc_kept vs
      else (c, w) # gc_kept vs)"

abbreviation at_most :: "TimeStamp \<Rightarrow> version list \<Rightarrow> version list" where
  "at_most ts vs \<equiv> filter (\<lambda>v. fst v \<le> ts) vs"

definition large_put :: "Write \<Rightarrow> bool" where
  "large_put w \<longleftrightarrow> write_WriteType w = WriteTypePut \<and> write_ShortValue w = None"

definition gcDel :: "bytes \<Rightarrow> version \<Rightarrow> MvccTxn \<Rightarrow> MvccTxn" where
  "gcDel key v txn =
     (let txn = DeleteWrite key (fst v) txn in
      if large_put (snd v) then DeleteValue key (write_StartTS (snd v)) txn else txn)"

lemma large_put_cases [simp]: "write_WriteType w \<noteq> WriteTypePut \<Longrightarrow> \<not> large_put w"
  by (simp add: large_put_def)

lemma write_types_PD [simp]: "WriteTypePut \<noteq> WriteTypeDelete" "WriteTypeDelete \<noteq> WriteTypePut"
  by (simp_all add: write_types)

text \<open>The loop on the versions that are left: the next seek starts below the current record.\<close>

lemma at_most_pred:
  assumes "sorted_wrt newer vs" "at_most t vs = (c, w) # rest" "c \<noteq> 0"
  shows "at_most (c - 1) vs = rest"
  using filter_below_head [OF assms] assms(3) by (simp add: Prev_ts_def TSZero_def)

definition gc_ready :: "store \<Rightarrow> bytes \<Rightarrow> bool" where
  "gc_ready st key \<longleftrightarrow> mvcc_ok st \<and> list_all (\<lambda>v. fst v \<noteq> 0) (st_versions st key)"

lemma GC_step:
  assumes "gc_ready st key" "at_most ts (st_versions st key) = (c, w) # rest"
  shows "SeekWrite st key ts = Inr (Some w, c)" "at_most (c - 1) (st_versions st key) = rest"
    "SeekWrite st key (c - 1) = Inr (newest rest)"
proof -
  have ok: "mvcc_ok st" using assms(1) by (simp add: gc_ready_def)
  have "(c, w) \<in> set (at_most ts (st_versions st key))" by (simp only: assms(2) list.set_intros)
  then have "c \<noteq> 0" using assms(1) by (auto simp: gc_ready_def list_all_iff)
  then show r: "at_most (c - 1) (st_versions st key) = rest"
    using at_most_pred [OF st_versions_newest_first [OF ok] assms(2)] by simp
  show "SeekWrite st key ts = Inr (Some w, c)" using assms by (simp add: SeekWrite_st [OF ok] newest_def)
  show "SeekWrite st key (c - 1) = Inr (newest rest)" by (simp add: SeekWrite_st [OF ok] r)
qed

lemma GC_end:
  assumes "gc_ready st key" "at_most ts (st_versions st key) = []"
  shows "GC_loop st key sp state ts m info txn = Some (GC_done key m info txn)"
  using assms by (subst GC_loop.simps) (simp add: SeekWrite_st gc_ready_def newest_def)

text \<open>The counters after \<open>n\<close> more records, \<open>d\<close> of them deleted.\<close>

definition counted :: "nat \<Rightarrow> nat \<Rightarrow> GCInfo \<Rightarrow> GCInfo" where
  "counted n d info = info\<lparr>gi_FoundVersions := gi_FoundVersions info + n,
     gi_DeletedVersions := gi_DeletedVersions info + d\<rparr>"

lemma counted_simps [simp]:
  "counted 0 0 info = info" "counted n d (counted n' d' info) = counted (n' + n) (d' + d) info"
  by (simp_all add: counted_def)

lemma GC_done_simps [simp]:
  "GC_done key None info txn = (Inr info, txn)"
  "GC_done key (Some ts) (counted n d info) txn = (Inr (counted n (d + 1) info), DeleteWrite key ts txn)"
  by (simp_all add: GC_done_def counted_def)

lemma GC_next_Rewind:
  assumes "gc_ready st key" "at_most ts (st_versions st key) = (c, w) # rest" "sp < c"
  shows "GC_loop st key sp gcStateRewind ts m info txn = GC_loop st key sp gcStateRewind (c - 1) m (counted 1 0 info) txn"
  unfolding GC_loop.simps [of st key sp gcStateRewind ts] GC_step(1) [OF assms(1,2)]
  by (simp only: sum.case prod.case option.case Let_def assms(3) simp_thms if_True) (simp add: counted_def)

lemma GC_next_RemoveAll:
  assumes "gc_ready st key" "at_most ts (st_versions st key) = (c, w) # rest"
  shows "GC_loop st key sp gcStateRemoveAll ts m info txn =
    GC_loop st key sp gcStateRemoveAll (c - 1) m (counted 1 1 info) (gcDel key (c, w) txn)"
  unfolding GC_loop.simps [of st key sp gcStateRemoveAll ts] GC_step(1) [OF assms]
  by (simp only: sum.case prod.case option.case Let_def gcState.distinct simp_thms if_True if_False) (simp add: counted_def gcDel_def large_put_def Let_def)

lemma GC_next_Idempotent:
  assumes "gc_ready st key" "at_most ts (st_versions st key) = (c, w) # rest" "state \<noteq> gcStateRemoveAll" "c \<le> sp"
  shows "GC_loop st key sp state ts m info txn =
     (if write_WriteType w = WriteTypePut then GC_loop st key sp gcStateRemoveAll (c - 1) m (counted 1 0 info) txn
      else if write_WriteType w = WriteTypeDelete then
        (if rest = [] then Some (GC_done key m (counted 1 1 info) (DeleteWrite key c txn))
         else GC_loop st key sp gcStateRemoveAll (c - 1) (Some c) (counted 1 0 info) txn)
      else if no_data w then
        GC_loop st key sp gcStateRemoveIdempotent (c - 1) m (counted 1 1 info) (DeleteWrite key c txn)
      else GC_loop st key sp gcStateRemoveIdempotent (c - 1) m (counted 1 0 info) txn)"
proof -
  have "\<not> sp < c" using assms(4) by simp
  moreover have "SeekWrite st key (c - 1) = (if rest = [] then Inr (None, 0) else Inr (Some (snd (hd rest)), fst (hd rest)))"
    using GC_step(3) [OF assms(1,2)] by (cases rest) (simp_all add: newest_def case_prod_unfold)
  ultimately show ?thesis
    unfolding GC_loop.simps [of st key sp state ts] GC_step(1) [OF assms(1,2)]
    by (simp only: sum.case prod.case option.case Let_def assms(3) simp_thms if_False no_data_def) (simp add: counted_def)
qed
lemma GC_RemoveAll:
  assumes "gc_ready st key"
  shows "GC_loop st key sp gcStateRemoveAll ts m info txn =
    (let vs = at_most ts (st_versions st key) in
     Some (GC_done key m (counted (length vs) (length vs) info) (fold (gcDel key) vs txn)))"
proof (induction "at_most ts (st_versions st key)" arbitrary: ts info txn)
  case Nil
  show ?case unfolding GC_end [OF assms Nil.hyps [symmetric]] by (simp add: Nil.hyps [symmetric])
next
  case (Cons v rest)
  obtain c w where v: "v = (c, w)" by (cases v)
  have vs: "at_most ts (st_versions st key) = (c, w) # rest" using Cons.hyps(2) v by simp
  show ?case
    unfolding GC_next_RemoveAll [OF assms vs]
    by (simp add: Cons.hyps(1) [OF GC_step(2) [OF assms vs, symmetric]] GC_step(2) [OF assms vs] vs Let_def)
qed

text \<open>The remaining phase, for the records \<open>us\<close> not above the safe point: the record on top
  is counted, and the deletions are those of \<open>gc_deleted\<close>.\<close>

lemma GC_Idempotent:
  assumes "gc_ready st key" "state \<noteq> gcStateRemoveAll" "\<And>v. v \<in> set (at_most ts (st_versions st key)) \<Longrightarrow> fst v \<le> sp"
  shows "GC_loop st key sp state ts None info txn =
    (let us = at_most ts (st_versions st key) in
     Some (Inr (counted (length us) (length (gc_deleted us)) info), fold (gcDel key) (gc_deleted us) txn))"
  using assms(2,3)
proof (induction "at_most ts (st_versions st key)" arbitrary: state ts info txn)
  case Nil
  show ?case unfolding GC_end [OF assms(1) Nil.hyps(1) [symmetric]] by (simp add: Nil.hyps(1) [symmetric])
next
  case (Cons v rest)
  obtain c w where v: "v = (c, w)" by (cases v)
  have vs: "at_most ts (st_versions st key) = (c, w) # rest" using Cons.hyps(2) v by simp
  have c: "c \<le> sp" using Cons.prems(2) [of "(c, w)"] vs by simp
  note below = GC_step(2) [OF assms(1) vs]
  have IH: "GC_loop st key sp gcStateRemoveIdempotent (c - 1) None info' txn' =
      Some (Inr (counted (length rest) (length (gc_deleted rest)) info'), fold (gcDel key) (gc_deleted rest) txn')" for info' txn'
    using Cons.prems(2) by (subst Cons.hyps(1) [OF below [symmetric]]) (simp_all add: below vs)
  have "gcDel key (c, w) txn' = DeleteWrite key c txn'" if "\<not> large_put w" for txn'
    using that by (simp add: gcDel_def)
  then show ?case
    unfolding GC_next_Idempotent [OF assms(1) vs Cons.prems(1) c] IH GC_RemoveAll [OF assms(1)] below vs Let_def
    by simp
qed

lemma GC_Rewind:
  assumes "gc_ready st key"
  shows "GC_loop st key sp gcStateRewind ts None info txn =
    (let vs = at_most ts (st_versions st key); us = at_most sp vs in
     Some (Inr (counted (length vs) (length (gc_deleted us)) info), fold (gcDel key) (gc_deleted us) txn))"
proof (induction "at_most ts (st_versions st key)" arbitrary: ts info txn)
  case Nil
  show ?case unfolding GC_end [OF assms Nil.hyps [symmetric]] by (simp add: Nil.hyps [symmetric] del: filter_filter)
next
  case (Cons v rest)
  obtain c w where v: "v = (c, w)" by (cases v)
  have vs: "at_most ts (st_versions st key) = (c, w) # rest" using Cons.hyps(2) v by simp
  note below = GC_step(2) [OF assms vs]
  show ?case
  proof (cases "sp < c")
    case True
    then have "\<not> c \<le> sp" by simp
    then show ?thesis
      unfolding GC_next_Rewind [OF assms vs True]
      by (simp add: Cons.hyps(1) [OF below [symmetric]] below vs Let_def del: filter_filter)
  next
    case False
    have "sorted_wrt newer ((c, w) # rest)"
      using sorted_wrt_filter [OF st_versions_newest_first, of st "\<lambda>v. fst v \<le> ts" key] assms vs
      by (simp add: gc_ready_def)
    then have le: "fst v \<le> sp" if "v \<in> set ((c, w) # rest)" for v using that False by fastforce
    have "at_most sp ((c, w) # rest) = (c, w) # rest" using le by (intro filter_True ballI)
    then show ?thesis
      using GC_Idempotent [OF assms, of gcStateRewind ts sp info txn] le
      by (simp add: vs Let_def del: filter_filter filter.simps)
  qed
qed

lemma GC_versions:
  assumes "gc_ready st key"
  shows "GC txn st key sp =
    (let vs = st_versions st key; ds = gc_deleted (at_most sp vs) in
     Some (Inr \<lparr>gi_FoundVersions = length vs, gi_DeletedVersions = length ds, gi_IsCompleted = True\<rparr>,
           fold (gcDel key) ds txn))"
  by (simp add: GC_def GC_Rewind [OF assms] TSMax_def Let_def counted_def)

text \<open>A record at timestamp 0 is found by every seek, so the loop never ends.\<close>

lemma GC_loop_diverges:
  assumes "mvcc_ok st" "0 \<in> fst ` set (st_versions st key)"
  shows "GC_loop st key sp state ts m info txn = None"
proof -
  have "\<exists>w c. SeekWrite st key t = Inr (Some w, c)" for t
  proof -
    have "at_most t (st_versions st key) \<noteq> []" using assms(2) by (force simp: filter_empty_conv)
    then show ?thesis using assms(1) by (cases "at_most t (st_versions st key)") (auto simp: SeekWrite_st newest_def)
  qed
  then have seek: "SeekWrite st key t \<noteq> Inl e" "SeekWrite st key t \<noteq> Inr (None, c)" for t e c
    by (metis sum.distinct(1), metis Inr_inject option.distinct(1) prod.inject)
  have "snap = st \<longrightarrow> k = key \<longrightarrow> False" if "GC_loop snap k sp' state ts m info txn = Some r"
    for snap k sp' state ts m info txn r
  proof (rule GC_loop.raw_induct [where P = "\<lambda>snap k sp' state ts m info txn r. snap = st \<longrightarrow> k = key \<longrightarrow> False",
        OF _ that], goal_cases)
    case (1 loop snap k sp' state ts m info txn r)
    then have IH: "loop st key sp state ts m info txn = None" for sp state ts m info txn
      by (cases "loop st key sp state ts m info txn") blast+
    from 1(2) IH seek show ?case by (auto simp: Let_def split: sum.splits prod.splits option.splits if_splits)
  qed
  then show ?thesis by (cases "GC_loop st key sp state ts m info txn") blast+
qed

text \<open>The effect of the deletions on a store.\<close>

definition gcEffect :: "bytes \<Rightarrow> version \<Rightarrow> store \<Rightarrow> store" where
  "gcEffect key v st =
     (let st = del_write key (fst v) st in
      if large_put (snd v) then del_value key (write_StartTS (snd v)) st else st)"

lemma txn_apply_gcDel:
  "txn_apply (fold (gcDel key) ds txn) st = fold (gcEffect key) ds (txn_apply txn st)"
  by (induction ds arbitrary: txn) (simp_all add: gcDel_def gcEffect_def Let_def)

lemma txn_known_gcDel [simp]: "txn_known (fold (gcDel key) ds txn) = txn_known txn"
  by (induction ds arbitrary: txn) (simp_all add: gcDel_def Let_def)

lemma WriteSize_gcDel [simp]: "txn_WriteSize (fold (gcDel key) ds txn) = txn_WriteSize txn"
  by (induction ds arbitrary: txn) (simp_all add: gcDel_def DeleteWrite_def DeleteValue_def Let_def)

definition large_starts :: "version list \<Rightarrow> TimeStamp list" where
  "large_starts vs = map (write_StartTS \<circ> snd) (filter (large_put \<circ> snd) vs)"

lemma gcEffects_view [mvcc_view]:
  "st_lock (fold (gcEffect key) ds st) k = st_lock st k"
  "mvcc_ok st \<Longrightarrow> mvcc_ok (fold (gcEffect key) ds st)"
  "mvcc_ok st \<Longrightarrow> st_versions (fold (gcEffect key) ds st) k =
     (if k = key then filter (\<lambda>v. fst v \<notin> fst ` set ds) (st_versions st key) else st_versions st k)"
  "st_value (fold (gcEffect key) ds st) k t =
     (if k = key \<and> t \<in> set (large_starts ds) then None else st_value st k t)"
proof -
  have one: "mvcc_ok (gcEffect key v st)" if "mvcc_ok st" for v st
    using that by (simp add: gcEffect_def Let_def mvcc_view)
  show "st_lock (fold (gcEffect key) ds st) k = st_lock st k"
    by (induction ds arbitrary: st) (simp_all add: gcEffect_def Let_def mvcc_view)
  show "mvcc_ok st \<Longrightarrow> mvcc_ok (fold (gcEffect key) ds st)"
    by (induction ds arbitrary: st) (simp_all add: one)
  show "mvcc_ok st \<Longrightarrow> st_versions (fold (gcEffect key) ds st) k =
     (if k = key then filter (\<lambda>v. fst v \<notin> fst ` set ds) (st_versions st key) else st_versions st k)"
  proof (induction ds arbitrary: st)
    case (Cons v ds)
    from Cons.IH [OF one [OF Cons.prems, of v]] Cons.prems show ?case
      by (auto simp: gcEffect_def Let_def mvcc_view intro!: filter_cong)
  qed simp
  show "st_value (fold (gcEffect key) ds st) k t =
     (if k = key \<and> t \<in> set (large_starts ds) then None else st_value st k t)"
    by (induction ds arbitrary: st) (auto simp: gcEffect_def Let_def mvcc_view large_starts_def)
qed

lemma set_gc_deleted: "set (gc_deleted us) \<subseteq> set us"
  by (induction us rule: gc_deleted.induct) auto

lemma gc_kept_filter:
  "sorted_wrt newer us \<Longrightarrow> filter (\<lambda>v. fst v \<notin> fst ` set (gc_deleted us)) us = gc_kept us"
proof (induction us rule: gc_deleted.induct)
  case (2 c w vs)
  have c: "c \<notin> fst ` set vs" using 2(3) by auto
  then have c': "c \<notin> fst ` set (gc_deleted vs)" using set_gc_deleted [of vs] by blast
  have none: "filter (\<lambda>v. fst v \<notin> fst ` set vs) vs = []" by (auto simp: filter_empty_conv)
  have skip: "filter (\<lambda>v. fst v \<noteq> c \<and> P v) vs = filter P vs" for P
    using c by (intro filter_cong) auto
  show ?case using 2 c c' none skip [of "\<lambda>v. fst v \<notin> fst ` set vs"] by (simp add: skip)
qed simp

lemma split_at:
  "sorted_wrt newer vs \<Longrightarrow> vs = newer_than sp vs @ at_most sp vs"
proof (induction vs)
  case (Cons v vs)
  show ?case
  proof (cases "sp < fst v")
    case False
    then have "at_most sp vs = vs" "newer_than sp vs = []"
      using Cons.prems by (auto simp: newer_than_def filter_id_conv filter_empty_conv)
    with False show ?thesis by (simp add: newer_than_def)
  next
    case True
    then have "\<not> fst v \<le> sp" by simp
    with True Cons show ?thesis by (simp add: newer_than_def)
  qed
qed (simp add: newer_than_def)

lemma gc_survivors:
  assumes "sorted_wrt newer vs"
  shows "filter (\<lambda>v. fst v \<notin> fst ` set (gc_deleted (at_most sp vs))) vs = newer_than sp vs @ gc_kept (at_most sp vs)"
proof -
  let ?P = "\<lambda>v. fst v \<notin> fst ` set (gc_deleted (at_most sp vs))"
  have "?P v" if "v \<in> set (newer_than sp vs)" for v
    using that set_gc_deleted [of "at_most sp vs"] by (fastforce simp: newer_than_def)
  then have "filter ?P (newer_than sp vs) = newer_than sp vs" by (intro filter_True ballI)
  moreover have "filter ?P (at_most sp vs) = gc_kept (at_most sp vs)"
    using assms by (intro gc_kept_filter sorted_wrt_filter)
  ultimately show ?thesis using split_at [OF assms, of sp] by (metis filter_append)
qed

lemma data_version_kept: "data_version (xs @ gc_kept us) = data_version (xs @ us)"
proof -
  have "data_version (gc_kept us) = data_version us" by (induction us rule: gc_kept.induct) auto
  then show ?thesis by (induction xs) auto
qed

subsection \<open>Collecting a set of keys\<close>

definition gcKey :: "TimeStamp \<Rightarrow> store \<Rightarrow> bytes \<Rightarrow> version list" where
  "gcKey sp st key = gc_deleted (at_most sp (st_versions st key))"

definition collect :: "TimeStamp \<Rightarrow> store \<Rightarrow> bytes list \<Rightarrow> store \<Rightarrow> store" where
  "collect sp snap keys st = fold (\<lambda>k. fold (gcEffect k) (gcKey sp snap k)) keys st"

lemma collect_simps [simp]:
  "collect sp snap [] st = st"
  "collect sp snap (k # ks) st = collect sp snap ks (fold (gcEffect k) (gcKey sp snap k) st)"
  "collect sp snap (ks @ ks') st = collect sp snap ks' (collect sp snap ks st)"
  by (simp_all add: collect_def)

lemma collect_view [mvcc_view]:
  "st_lock (collect sp snap keys st) k = st_lock st k"
  "mvcc_ok st \<Longrightarrow> mvcc_ok (collect sp snap keys st)"
  "mvcc_ok st \<Longrightarrow> st_versions (collect sp snap keys st) k =
     (if k \<in> set keys then filter (\<lambda>v. fst v \<notin> fst ` set (gcKey sp snap k)) (st_versions st k) else st_versions st k)"
  "st_value (collect sp snap keys st) k t =
     (if k \<in> set keys \<and> t \<in> set (large_starts (gcKey sp snap k)) then None else st_value st k t)"
proof -
  show "st_lock (collect sp snap keys st) k = st_lock st k"
    by (induction keys arbitrary: st) (simp_all add: mvcc_view)
  show "mvcc_ok st \<Longrightarrow> mvcc_ok (collect sp snap keys st)"
    by (induction keys arbitrary: st) (simp_all add: mvcc_view)
  show "mvcc_ok st \<Longrightarrow> st_versions (collect sp snap keys st) k =
     (if k \<in> set keys then filter (\<lambda>v. fst v \<notin> fst ` set (gcKey sp snap k)) (st_versions st k) else st_versions st k)"
    by (induction keys arbitrary: st) (simp_all add: mvcc_view)
  show "st_value (collect sp snap keys st) k t =
     (if k \<in> set keys \<and> t \<in> set (large_starts (gcKey sp snap k)) then None else st_value st k t)"
    by (induction keys arbitrary: st) (auto simp: mvcc_view)
qed

text \<open>What a collection relies on: no record at timestamp 0, only the four record types, and
  no two large values written by one transaction to the key.\<close>

definition gc_regular :: "version list \<Rightarrow> bool" where
  "gc_regular vs \<longleftrightarrow> list_all (\<lambda>v. fst v \<noteq> 0 \<and> (no_data (snd v) \<or> IsDataChanged (snd v))) vs \<and> distinct (large_starts vs)"

definition visible :: "version list \<Rightarrow> version list" where
  "visible us = (case data_version us of (None, _) \<Rightarrow> [] | (Some w, c) \<Rightarrow> [(c, w)])"

lemma gc_kept_visible:
  "list_all (\<lambda>v. no_data (snd v) \<or> IsDataChanged (snd v)) us \<Longrightarrow> gc_kept us = visible us"
  by (induction us rule: gc_kept.induct) (auto simp: visible_def IsDataChanged_def)

lemma gc_regularD:
  assumes "gc_regular (st_versions st k)" "mvcc_ok st"
  shows "gc_ready st k" "gc_kept (at_most sp (st_versions st k)) = visible (at_most sp (st_versions st k))"
  using assms gc_kept_visible [of "at_most sp (st_versions st k)"]
  by (auto simp: gc_regular_def gc_ready_def list_all_iff)

lemma collect_versions:
  assumes "gc_regular (st_versions st k)" "mvcc_ok st" "k \<in> set keys"
  shows "st_versions (collect sp st keys st) k =
    newer_than sp (st_versions st k) @ visible (at_most sp (st_versions st k))"
  using assms gc_survivors [OF st_versions_newest_first [OF assms(2)], of sp k] gc_regularD [OF assms(1,2)]
  by (simp add: collect_view gcKey_def)

lemma data_version_in: "data_version vs = (Some w, c) \<Longrightarrow> (c, w) \<in> set vs \<and> write_WriteType w = WriteTypePut"
  by (induction vs rule: data_version.induct) (auto split: if_splits)

lemma large_starts_unique:
  "distinct (large_starts vs) \<Longrightarrow> v \<in> set vs \<Longrightarrow> v' \<in> set vs \<Longrightarrow> large_put (snd v) \<Longrightarrow> large_put (snd v') \<Longrightarrow>
     write_StartTS (snd v) = write_StartTS (snd v') \<Longrightarrow> v = v'"
  unfolding large_starts_def distinct_map by (elim conjE inj_onD) simp_all

text \<open>The value of a surviving version survives.\<close>

lemma collect_value:
  assumes "gc_regular (st_versions st k)" "mvcc_ok st" "(c, w) \<in> set (st_versions st k)" "large_put w"
    "c \<notin> fst ` set (gcKey sp st k)"
  shows "st_value (collect sp st keys st) k (write_StartTS w) = st_value st k (write_StartTS w)"
proof -
  have sub: "set (gcKey sp st k) \<subseteq> set (st_versions st k)"
    using set_gc_deleted [of "at_most sp (st_versions st k)"] by (auto simp: gcKey_def)
  have "write_StartTS w \<notin> set (large_starts (gcKey sp st k))"
  proof
    assume "write_StartTS w \<in> set (large_starts (gcKey sp st k))"
    then obtain v where v: "v \<in> set (gcKey sp st k)" "large_put (snd v)" "write_StartTS (snd v) = write_StartTS w"
      by (auto simp: large_starts_def)
    then have "v = (c, w)"
      using large_starts_unique [of "st_versions st k" v "(c, w)"] assms sub by (auto simp: gc_regular_def)
    with v assms(5) show False by force
  qed
  then show ?thesis by (simp add: collect_view)
qed

lemma collect_read_at:
  assumes "gc_regular (st_versions st k)" "mvcc_ok st" "sp \<le> ts"
  shows "read_at (collect sp st keys st) k ts = read_at st k ts"
proof (cases "k \<in> set keys")
  case True
  let ?vs = "st_versions st k" and ?st = "collect sp st keys st"
  have v': "st_versions ?st k = filter (\<lambda>v. fst v \<notin> fst ` set (gcKey sp st k)) ?vs"
    using True assms(2) by (simp add: collect_view)
  have "at_most ts (gc_kept (at_most sp ?vs)) = gc_kept (at_most sp ?vs)" "at_most ts (at_most sp ?vs) = at_most sp ?vs"
  proof -
    have le: "fst v \<le> ts" if "v \<in> set (at_most sp ?vs)" for v
      using that assms(3) order_trans [of "fst v" sp ts] by simp
    have "set (gc_kept us) \<subseteq> set us" for us by (induction us rule: gc_kept.induct) auto
    with le show "at_most ts (gc_kept (at_most sp ?vs)) = gc_kept (at_most sp ?vs)"
      by (intro filter_True ballI) blast
    from le show "at_most ts (at_most sp ?vs) = at_most sp ?vs" by (intro filter_True ballI)
  qed
  moreover have "st_versions ?st k = newer_than sp ?vs @ gc_kept (at_most sp ?vs)"
    unfolding v' gcKey_def by (rule gc_survivors [OF st_versions_newest_first [OF assms(2)]])
  moreover have "at_most ts ?vs = at_most ts (newer_than sp ?vs) @ at_most ts (at_most sp ?vs)"
    using split_at [OF st_versions_newest_first [OF assms(2)], of k sp] by (metis filter_append)
  ultimately have dv: "data_version (at_most ts (st_versions ?st k)) = data_version (at_most ts ?vs)"
    by (simp add: data_version_kept del: filter_filter)
  show ?thesis
  proof (cases "data_version (at_most ts (st_versions ?st k))")
    case (Pair r c)
    show ?thesis
    proof (cases r)
      case None
      with Pair dv show ?thesis by (simp add: read_at_def)
    next
      case (Some w)
      with Pair data_version_in [of "at_most ts (st_versions ?st k)" w c]
      have "(c, w) \<in> set (st_versions ?st k)" "write_WriteType w = WriteTypePut" by auto
      then have "st_value ?st k (write_StartTS w) = st_value st k (write_StartTS w)" if "write_ShortValue w = None"
        using collect_value [OF assms(1,2), of c w sp keys] that unfolding v' by (auto simp: large_put_def)
      with Pair Some dv show ?thesis by (simp add: read_at_def split: option.splits)
    qed
  qed
next
  case False
  with assms(2) show ?thesis by (intro read_at_cong) (simp_all add: collect_view)
qed

subsection \<open>A task over a key range\<close>

text \<open>The batch of a task holds deletions in known column families, and is applied as a whole
  when the latches are free.\<close>

definition gc_txn :: "MvccTxn \<Rightarrow> bool" where
  "gc_txn txn \<longleftrightarrow> list_all (\<lambda>m. mod_Type m = ModifyTypeDelete \<and> known_cf (mod_CF m)) (txn_Modifies txn)"

lemma gc_txn_simps [simp]:
  "gc_txn (NewMvccTxn s)" "gc_txn (fold (gcDel key) ds txn) \<longleftrightarrow> gc_txn txn"
proof -
  show "gc_txn (NewMvccTxn s)" by (simp add: gc_txn_def NewMvccTxn_def)
  show "gc_txn (fold (gcDel key) ds txn) \<longleftrightarrow> gc_txn txn"
    by (induction ds arbitrary: txn)
      (auto simp: gc_txn_def gcDel_def DeleteWrite_def DeleteValue_def mkDelete_def Let_def)
qed

lemma gcApplyModifies_txn:
  assumes "gc_txn txn"
  shows "gcApplyModifies txn st = Inr (txn_apply txn st)"
proof -
  have "gcApply_loop ms batch = Inr (batch @ map modify_op ms)"
    if "list_all (\<lambda>m. mod_Type m = ModifyTypeDelete \<and> known_cf (mod_CF m)) ms" for ms batch
    using that by (induction ms arbitrary: batch) (simp_all add: wb_add_def modify_op_def)
  with assms show ?thesis
    by (simp add: gcApplyModifies_def gc_txn_def txn_apply_def apply_mods_def wb_commit_def)
qed

lemma AcquireTimeout_idle:
  assumes "latches_idle l"
  shows "\<exists>lock l'. AcquireTimeout (GenLock l keys) c l = (Some lock, l') \<and> snd (snd (Release lock c l')) = l"
proof -
  let ?l = "l\<lparr>la_waiters := (la_waiters l)(c := Some False)\<rparr>"
  have free: "all_free ?l" and none: "la_waiters l = (\<lambda>_. None)"
    using assms by (simp_all add: latches_idle_def all_free_def)
  obtain lock l' where a: "Acquire (GenLock ?l keys) c ?l = (True, lock, l')" "la_waiters l' = la_waiters ?l"
      "Release lock c l' = ([], lock\<lparr>ll_OwnedCount := 0\<rparr>, ?l)"
    using Acquire_Release_free [OF free, of keys c] by blast
  have "GenLock ?l keys = GenLock l keys" by (simp add: GenLock_def)
  then show ?thesis
    using a Release_waiters [OF a(3), of "(la_waiters l')(c := None)"] none
    by (simp add: AcquireTimeout_def fun_upd_idem)
qed

lemma applyModifiesWithLatches_idle:
  assumes "latches_idle (gw_latches w)" "gc_txn txn"
  shows "\<exists>n. applyModifiesWithLatches txn keys w =
    (None, w\<lparr>gw_engine := txn_apply txn (gw_engine w), gw_cmdIDCounter := n\<rparr>)"
proof (cases "txn_Modifies txn = []")
  case True
  then have "applyModifiesWithLatches txn keys w = (None, w\<lparr>gw_engine := txn_apply txn (gw_engine w),
      gw_cmdIDCounter := gw_cmdIDCounter w\<rparr>)"
    by (simp add: applyModifiesWithLatches_def txn_apply_def)
  then show ?thesis ..
next
  case False
  obtain lock l' where "AcquireTimeout (GenLock (gw_latches w) keys) (gw_cmdIDCounter w + 1) (gw_latches w) = (Some lock, l')"
      "snd (snd (Release lock (gw_cmdIDCounter w + 1) l')) = gw_latches w"
    using AcquireTimeout_idle [OF assms(1)] by blast
  then have "applyModifiesWithLatches txn keys w = (None, w\<lparr>gw_engine := txn_apply txn (gw_engine w),
      gw_cmdIDCounter := gw_cmdIDCounter w + 1\<rparr>)"
    using False by (simp add: applyModifiesWithLatches_def gcApplyModifies_txn [OF assms(2)] Let_def)
  then show ?thesis ..
qed

text \<open>The user keys a task visits: each run of equal keys once, and never the key it starts
  with as the last one seen.\<close>

fun task_keys :: "cf \<Rightarrow> bytes \<Rightarrow> bytes list" where
  "task_keys [] lastKey = []"
| "task_keys (e # es) lastKey =
     (case DecodeKey (fst e) of
        Inl _ \<Rightarrow> task_keys es lastKey
      | Inr (k, _) \<Rightarrow> if k = lastKey then task_keys es lastKey else k # task_keys es k)"

lemma processTask_loop_collects:
  assumes "mvcc_ok snap" "\<And>k. gc_regular (st_versions snap k)" "latches_idle (gw_latches w)" "gc_txn txn"
  shows "\<exists>n. processTask_loop snap sp es lastKey batch txn w =
    Some (None, w\<lparr>gw_engine := collect sp snap (task_keys es lastKey) (txn_apply txn (gw_engine w)), gw_cmdIDCounter := n,
      gw_keysScanned := gw_keysScanned w + length (task_keys es lastKey),
      gw_versionsDeleted := gw_versionsDeleted w + sum_list (map (length \<circ> gcKey sp snap) (task_keys es lastKey))\<rparr>)"
  using assms(3,4)
proof (induction es arbitrary: lastKey batch txn w)
  case Nil
  show ?case
  proof (cases "txn_Modifies txn = []")
    case True
    then have "processTask_loop snap sp [] lastKey batch txn w = Some (None, w\<lparr>gw_engine := txn_apply txn (gw_engine w),
        gw_cmdIDCounter := gw_cmdIDCounter w\<rparr>)"
      by (simp add: txn_apply_def)
    then show ?thesis by (intro exI [of _ "gw_cmdIDCounter w"]) simp
  next
    case False
    then show ?thesis using applyModifiesWithLatches_idle [OF Nil, of batch] by auto
  qed
next
  case (Cons e es)
  show ?case
  proof (cases "DecodeKey (fst e)")
    case (Inl x)
    then show ?thesis using Cons by simp
  next
    case (Inr r)
    obtain k t where r: "r = (k, t)" by (cases r)
    show ?thesis
    proof (cases "k = lastKey")
      case True
      then show ?thesis using Cons Inr r by simp
    next
      case False
      let ?txn = "fold (gcDel k) (gcKey sp snap k) txn"
      let ?w = "w\<lparr>gw_keysScanned := gw_keysScanned w + 1, gw_versionsDeleted := gw_versionsDeleted w + length (gcKey sp snap k)\<rparr>"
      have gc: "GC txn snap k sp = Some (Inr \<lparr>gi_FoundVersions = length (st_versions snap k),
          gi_DeletedVersions = length (gcKey sp snap k), gi_IsCompleted = True\<rparr>, ?txn)"
        using GC_versions [OF gc_regularD(1) [OF assms(2,1)]] by (simp add: gcKey_def Let_def)
      have idle: "latches_idle (gw_latches ?w)" "gc_txn ?txn" using Cons.prems by simp_all
      show ?thesis
      proof (cases "gc_MaxTxnWriteSize (gw_config w) \<le> txn_WriteSize ?txn")
        case big: True
        obtain n where n: "applyModifiesWithLatches ?txn (batch @ [k]) ?w =
            (None, ?w\<lparr>gw_engine := txn_apply ?txn (gw_engine ?w), gw_cmdIDCounter := n\<rparr>)"
          using applyModifiesWithLatches_idle [OF idle] by blast
        show ?thesis
          using Cons.IH [of "?w\<lparr>gw_engine := txn_apply ?txn (gw_engine ?w), gw_cmdIDCounter := n\<rparr>" "NewMvccTxn 0" k "[]"]
            Cons.prems False big n
          by (auto simp: Inr r gc Let_def txn_apply_gcDel add.assoc)
      next
        case small: False
        show ?thesis
          using Cons.IH [of ?w ?txn k "batch @ [k]"] idle False small
          by (auto simp: Inr r gc Let_def txn_apply_gcDel add.assoc)
      qed
    qed
  qed
qed

definition entry_keys :: "cf \<Rightarrow> bytes set" where
  "entry_keys es = {k. \<exists>e \<in> set es. \<exists>t. fst e = EncodeKey k t}"

lemma set_task_keys:
  assumes "sorted_wrt (\<lambda>x y. fst x < fst y) es" "list_all write_entry_ok es" "\<And>k. k \<in> entry_keys es \<Longrightarrow> lastKey \<le> k"
  shows "set (task_keys es lastKey) = entry_keys es - {lastKey}"
  using assms
proof (induction es arbitrary: lastKey)
  case (Cons e es)
  obtain k t where e: "fst e = EncodeKey k t" using Cons.prems(2) by (auto elim: write_entry_okE)
  have K: "entry_keys (e # es) = insert k (entry_keys es)" by (auto simp: entry_keys_def e)
  have k: "k \<le> k'" if "k' \<in> entry_keys es" for k'
  proof -
    from that obtain e' t' where e': "e' \<in> set es" "fst e' = EncodeKey k' t'" by (auto simp: entry_keys_def)
    with Cons.prems(1) e have "EncodeKey k t < EncodeKey k' t'" by fastforce
    then show ?thesis by (auto simp: EncodeKey_less)
  qed
  have IH: "set (task_keys es l) = entry_keys es - {l}" if "\<And>k. k \<in> entry_keys es \<Longrightarrow> l \<le> k" for l
    using Cons.IH [of l] Cons.prems that by simp
  have l: "lastKey \<le> k" using Cons.prems(3) K by blast
  show ?case
  proof (cases "k = lastKey")
    case True
    then show ?thesis using IH [OF k] K by (auto simp: e)
  next
    case False
    with l k have "lastKey \<notin> entry_keys es" by (meson antisym)
    with False show ?thesis using IH [OF k] K by (auto simp: e)
  qed
qed (simp add: entry_keys_def)

definition in_task :: "GCTask \<Rightarrow> bytes \<Rightarrow> bool" where
  "in_task task k \<longleftrightarrow> k \<noteq> [] \<and> gt_StartKey task \<le> k \<and> (gt_EndKey task = [] \<or> k \<le> gt_EndKey task)"

definition task_opts :: "GCTask \<Rightarrow> IterOptions" where
  "task_opts task =
     \<lparr>opt_LowerBound = (if 0 < length (gt_StartKey task) then Some (EncodeKey (gt_StartKey task) TSMax) else None),
      opt_UpperBound = (if 0 < length (gt_EndKey task) then Some (EncodeKey (gt_EndKey task) 0) else None)\<rparr>"

text \<open>The encoded bounds select the records of the keys from the start key up to and including
  the end key.\<close>

lemma in_bounds_task:
  assumes "c \<noteq> 0" "k \<noteq> []"
  shows "in_bounds (task_opts task) (EncodeKey k c) \<longleftrightarrow> in_task task k"
proof -
  have max: "c \<le> TSMax" by (simp add: TSMax_def)
  have "0 < c" using assms(1) by (simp add: word_gt_0)
  moreover have "[] < x" if "x \<noteq> []" for x :: bytes using that by (cases x) simp_all
  ultimately show ?thesis
    using max assms(2)
    by (auto simp: in_bounds_def task_opts_def in_task_def EncodeKey_le EncodeKey_less le_less)
qed

lemma task_entries:
  assumes "mvcc_ok st" "\<And>k. gc_regular (st_versions st k)" "st_versions st k \<noteq> []"
  shows "k \<in> set (task_keys (it_rest (SeekToFirst (NewIterator (st CFWrite) (task_opts task)))) []) \<longleftrightarrow> in_task task k"
proof -
  let ?es = "filter (\<lambda>e. in_bounds (task_opts task) (fst e)) (st CFWrite)"
  have ok: "write_cf_ok (st CFWrite)" using assms(1) by (simp add: mvcc_ok_def)
  then have s: "sorted_wrt (\<lambda>x y. fst x < fst y) ?es" "list_all write_entry_ok ?es"
    by (auto simp: write_cf_ok_def sorted_wrt_cf list_all_iff intro: sorted_wrt_filter)
  have "it_rest (SeekToFirst (NewIterator (st CFWrite) (task_opts task))) = ?es" by (simp add: SeekToFirst_def)
  then have "set (task_keys (it_rest (SeekToFirst (NewIterator (st CFWrite) (task_opts task)))) []) = entry_keys ?es - {[]}"
    using set_task_keys [OF s, of "[]"] by simp
  moreover have "k \<in> entry_keys ?es \<longleftrightarrow> in_task task k" if k: "k \<noteq> []"
  proof -
    have mem: "fst e \<noteq> EncodeKey k 0" if "e \<in> set (st CFWrite)" for e
    proof
      assume e: "fst e = EncodeKey k 0"
      with ok that obtain w where "UnmarshalWrite (snd e) = Inr w"
        by (metis (no_types, lifting) list_all_iff write_cf_ok_def write_entry_okE)
      with that e ok have "(0, w) \<in> set (st_versions st k)"
        unfolding st_versions_def in_versions [OF ok] by (metis cf_get_iff prod.collapse write_cf_ok_def)
      with assms(2) [of k] show False by (auto simp: gc_regular_def list_all_iff)
    qed
    obtain c w where "(c, w) \<in> set (st_versions st k)" using assms(3) by (metis list.set_intros(1) neq_Nil_conv surj_pair)
    then obtain d where d: "(EncodeKey k c, d) \<in> set (st CFWrite)"
      using ok unfolding st_versions_def in_versions [OF ok] by (auto simp: cf_get_iff write_cf_ok_def)
    then have c: "c \<noteq> 0" using mem by force
    show ?thesis
    proof
      assume "k \<in> entry_keys ?es"
      then obtain e t where "e \<in> set (st CFWrite)" "fst e = EncodeKey k t" "in_bounds (task_opts task) (EncodeKey k t)"
        by (auto simp: entry_keys_def)
      moreover from this mem have "t \<noteq> 0" by metis
      ultimately show "in_task task k" using in_bounds_task k by blast
    next
      assume "in_task task k"
      then have "in_bounds (task_opts task) (EncodeKey k c)" using in_bounds_task [OF c k] by simp
      with d show "k \<in> entry_keys ?es" by (force simp: entry_keys_def)
    qed
  qed
  ultimately show ?thesis by (auto simp: in_task_def)
qed

lemma processTask_collects:
  assumes "mvcc_ok (gw_engine w)" "\<And>k. gc_regular (st_versions (gw_engine w) k)" "latches_idle (gw_latches w)"
  shows "\<exists>keys w'. processTask task w = Some (None, w') \<and> gw_latches w' = gw_latches w \<and>
    gw_engine w' = collect (gt_SafePoint task) (gw_engine w) keys (gw_engine w) \<and>
    (\<forall>k. st_versions (gw_engine w) k \<noteq> [] \<longrightarrow> k \<in> set keys \<longleftrightarrow> in_task task k) \<and>
    gw_versionsDeleted w' = gw_versionsDeleted w + sum_list (map (length \<circ> gcKey (gt_SafePoint task) (gw_engine w)) keys)"
proof -
  let ?es = "it_rest (SeekToFirst (NewIterator (gw_engine w CFWrite) (task_opts task)))"
  have "processTask task w = processTask_loop (gw_engine w) (gt_SafePoint task) ?es [] [] (NewMvccTxn 0) w"
    by (simp add: processTask_def task_opts_def Let_def)
  with processTask_loop_collects [OF assms(1,2,3), of "NewMvccTxn 0" "gt_SafePoint task" ?es "[]" "[]"]
    task_entries [OF assms(1,2), of _ task]
  show ?thesis by (intro exI [of _ "task_keys ?es []"]) auto
qed

subsection \<open>Properties\<close>

lemma length_gc_deleted: "length (gc_deleted us) + length (gc_kept us) = length us"
  by (induction us rule: gc_deleted.induct) auto

lemma store_ok_collect: "store_ok st \<Longrightarrow> store_ok (collect sp snap keys st)"
  by (auto simp: store_ok_def mvcc_view plain_filter)

lemma collect_Get:
  assumes "store_ok st" "gc_regular (st_versions st k)" "sp \<le> ts"
  shows "PointGetter_Get (NewPointGetter (collect sp st keys st) ts level) k = PointGetter_Get (NewPointGetter st ts level) k"
proof -
  note ok = assms(1) store_ok_collect [OF assms(1), of sp st keys]
  have "blocking_lock (NewPointGetter (collect sp st keys st) ts level) k = blocking_lock (NewPointGetter st ts level) k"
    unfolding blocking_lock_def NewPointGetter_fields by (simp add: mvcc_view)
  with ok collect_read_at [OF assms(2) store_okD(1) [OF assms(1)] assms(3), of keys] show ?thesis
    by (simp add: NewPointGetter_Get store_okD plain_last_change_ok split: option.split)
qed

definition gcLarge :: Write where
  "gcLarge = Write_zero\<lparr>write_WriteType := WriteTypePut, write_StartTS := 3\<rparr>"

text \<open>One key with a large value at 7, a short one at 10 and a rollback record at 30.\<close>

definition gcStore :: store where
  "gcStore = put_value [1] 3 [7] (put_write [1] 30 (rollbackWrite 30)
     (put_write [1] 10 samplePut (put_write [1] 7 gcLarge empty_store)))"

lemma gc_sizes [simp]: "write_sizes_ok gcLarge" "write_sizes_ok (rollbackWrite 30)"
  "normWrite gcLarge = gcLarge" "normWrite (rollbackWrite 30) = rollbackWrite 30"
  by (simp_all add: write_sizes_ok_def gcLarge_def rollbackWrite_def sample_defs ShortValueMaxLen_def normWrite_fixed)

lemma gcStore_view [simp]:
  "mvcc_ok gcStore"
  "st_versions gcStore k = (if k = [1] then [(30, rollbackWrite 30), (10, samplePut), (7, gcLarge)] else [])"
  by (simp_all add: gcStore_def mvcc_view ver_put_def)

lemma gc_fields [simp]:
  "large_put gcLarge" "\<not> large_put samplePut" "\<not> no_data gcLarge" "no_data (rollbackWrite 30)"
  "write_WriteType gcLarge = WriteTypePut" "\<not> large_put (rollbackWrite 30)"
  by (simp_all add: large_put_def gcLarge_def no_data_def rollbackWrite_def write_types sample_defs)

lemma gcStore_ok [simp]: "store_ok gcStore" "gc_regular (st_versions gcStore k)"
  by (simp_all add: store_ok_def plain_versions_def gc_regular_def large_starts_def IsDataChanged_def)
    (simp_all add: gcLarge_def rollbackWrite_def sample_defs)

text \<open>C17: Garbage collection of one key. It returns exactly when the key has no record at
  timestamp 0 (the loop continues at \<^verbatim>\<open>commitTS - 1\<close>, which wraps). On a key whose records are
  regular it counts all versions and keeps those above the safe point and, below, only the
  value visible at the safe point: a delete, its older versions, the lock and rollback
  records and the large values of the deleted versions are gone. No read at or above the safe point
  changes, other keys and all locks stay, and the size that bounds a batch does not grow.\<close>

theorem GC_key_outcome:
  assumes "mvcc_ok st"
  shows "((\<exists>r. GC txn st key sp = Some r) \<longleftrightarrow> 0 \<notin> fst ` set (st_versions st key)) \<and>
    (gc_regular (st_versions st key) \<longrightarrow>
      (let vs = st_versions st key; vs' = newer_than sp vs @ visible (at_most sp vs) in
       \<exists>txn'. GC (NewMvccTxn s) st key sp =
           Some (Inr \<lparr>gi_FoundVersions = length vs, gi_DeletedVersions = length vs - length vs', gi_IsCompleted = True\<rparr>, txn') \<and>
         txn_WriteSize txn' = 0 \<and>
         (\<exists>st'. ApplyModifies (txn_Modifies txn') st = Inr st' \<and> mvcc_ok st' \<and>
           (\<forall>k. st_versions st' k = (if k = key then vs' else st_versions st k)) \<and>
           (\<forall>k. st_lock st' k = st_lock st k) \<and>
           (\<forall>k t. k \<noteq> key \<longrightarrow> st_value st' k t = st_value st k t) \<and>
           (\<forall>ts. sp \<le> ts \<longrightarrow> read_at st' key ts = read_at st key ts))))"
proof -
  have returns: "(\<exists>r. GC txn st key sp = Some r) \<longleftrightarrow> 0 \<notin> fst ` set (st_versions st key)"
  proof (cases "0 \<in> fst ` set (st_versions st key)")
    case True
    then show ?thesis using GC_loop_diverges [OF assms True] by (simp add: GC_def)
  next
    case False
    with assms have "gc_ready st key" by (force simp: gc_ready_def list_all_iff)
    with False show ?thesis by (simp add: GC_versions Let_def)
  qed
  let ?vs = "st_versions st key" and ?txn = "fold (gcDel key) (gcKey sp st key) (NewMvccTxn s)"
  have "\<exists>txn'. GC (NewMvccTxn s) st key sp =
           Some (Inr \<lparr>gi_FoundVersions = length ?vs,
             gi_DeletedVersions = length ?vs - length (newer_than sp ?vs @ visible (at_most sp ?vs)), gi_IsCompleted = True\<rparr>, txn') \<and>
         txn_WriteSize txn' = 0 \<and>
         (\<exists>st'. ApplyModifies (txn_Modifies txn') st = Inr st' \<and> mvcc_ok st' \<and>
           (\<forall>k. st_versions st' k = (if k = key then newer_than sp ?vs @ visible (at_most sp ?vs) else st_versions st k)) \<and>
           (\<forall>k. st_lock st' k = st_lock st k) \<and>
           (\<forall>k t. k \<noteq> key \<longrightarrow> st_value st' k t = st_value st k t) \<and>
           (\<forall>ts. sp \<le> ts \<longrightarrow> read_at st' key ts = read_at st key ts))" if reg: "gc_regular ?vs"
  proof (intro exI [of _ ?txn] conjI exI [of _ "collect sp st [key] st"])
    have "length ?vs = length (newer_than sp ?vs) + length (at_most sp ?vs)"
      using split_at [OF st_versions_newest_first [OF assms], of key sp] by (metis length_append)
    then have "length (gcKey sp st key) = length ?vs - length (newer_than sp ?vs @ visible (at_most sp ?vs))"
      using length_gc_deleted [of "at_most sp ?vs"] gc_regularD(2) [OF reg assms, of sp] by (simp add: gcKey_def)
    then show "GC (NewMvccTxn s) st key sp =
           Some (Inr \<lparr>gi_FoundVersions = length ?vs,
             gi_DeletedVersions = length ?vs - length (newer_than sp ?vs @ visible (at_most sp ?vs)), gi_IsCompleted = True\<rparr>, ?txn)"
      using GC_versions [OF gc_regularD(1) [OF reg assms]] by (simp add: gcKey_def Let_def)
    show "ApplyModifies (txn_Modifies ?txn) st = Inr (collect sp st [key] st)"
      using ApplyModifies_txn [of ?txn st] by (simp add: txn_apply_gcDel)
    show "\<forall>k. st_versions (collect sp st [key] st) k =
        (if k = key then newer_than sp ?vs @ visible (at_most sp ?vs) else st_versions st k)"
      using collect_versions [OF reg assms, of "[key]" sp] collect_view(3) [OF assms, of sp st "[key]"] by simp
  qed (use assms in \<open>simp_all add: collect_view collect_read_at [OF reg assms, of _ _ "[key]"] NewMvccTxn_def del: collect_simps\<close>)
  with returns show ?thesis by (simp add: Let_def)
qed

theorem GC_key_outcome_witness:
  "mvcc_ok gcStore \<and> gc_regular (st_versions gcStore [1]) \<and>
   (\<exists>txn st'. GC (NewMvccTxn 0) gcStore [1] 40 =
      Some (Inr \<lparr>gi_FoundVersions = 3, gi_DeletedVersions = 2, gi_IsCompleted = True\<rparr>, txn) \<and>
      ApplyModifies (txn_Modifies txn) gcStore = Inr st' \<and> st_versions st' [1] = [(10, samplePut)] \<and>
      read_at st' [1] 40 = read_at gcStore [1] 40)"
  using GC_key_outcome [of gcStore "NewMvccTxn 0" "[1]" 40 0] gcStore_ok(2) [of "[1]"]
  by (auto simp: newer_than_def visible_def Let_def)

text \<open>C16: A garbage collection task. With free latches it runs to its end over its key range
  (from the start key up to and including the end key, without the empty key), whatever the size at
  which it flushes its batch: it leaves the latches free and the store well formed, every
  key of the range keeps the versions above the safe point and the value visible at it, every
  other key is untouched, and every point read of every key at or above the safe point, at
  every isolation level, returns what it returned before.\<close>

theorem GC_task_correct:
  assumes "store_ok (gw_engine w)" "\<And>k. gc_regular (st_versions (gw_engine w) k)" "latches_idle (gw_latches w)"
  shows "\<exists>w'. processTask task w = Some (None, w') \<and> latches_idle (gw_latches w') \<and> store_ok (gw_engine w') \<and>
    (\<forall>k. let vs = st_versions (gw_engine w) k; sp = gt_SafePoint task in
       st_versions (gw_engine w') k =
         (if k \<noteq> [] \<and> gt_StartKey task \<le> k \<and> (gt_EndKey task = [] \<or> k \<le> gt_EndKey task)
          then newer_than sp vs @ visible (at_most sp vs) else vs)) \<and>
    (\<forall>k. st_lock (gw_engine w') k = st_lock (gw_engine w) k) \<and>
    (\<forall>k ts level. gt_SafePoint task \<le> ts \<longrightarrow>
       PointGetter_Get (NewPointGetter (gw_engine w') ts level) k = PointGetter_Get (NewPointGetter (gw_engine w) ts level) k)"
proof -
  note ok = store_okD(1) [OF assms(1)]
  let ?sp = "gt_SafePoint task" and ?st = "gw_engine w"
  obtain keys w' where w': "processTask task w = Some (None, w')" "gw_latches w' = gw_latches w"
      "gw_engine w' = collect ?sp ?st keys ?st" "\<And>k. st_versions ?st k \<noteq> [] \<Longrightarrow> k \<in> set keys \<longleftrightarrow> in_task task k"
    using processTask_collects [OF ok assms(2,3), of task] by blast
  have "st_versions (gw_engine w') k = (if in_task task k
      then newer_than ?sp (st_versions ?st k) @ visible (at_most ?sp (st_versions ?st k)) else st_versions ?st k)" for k
  proof (cases "st_versions ?st k = []")
    case True
    then show ?thesis by (simp add: w'(3) collect_view ok newer_than_def visible_def)
  next
    case False
    then show ?thesis using w'(4) [OF False] collect_versions [OF assms(2) ok, of k keys ?sp]
      by (simp add: w'(3)) (simp add: collect_view ok)
  qed
  then show ?thesis
    using w'(1,2) assms by (intro exI [of _ w'])
      (simp add: w'(3) store_ok_collect collect_Get collect_view Let_def in_task_def)
qed

theorem GC_task_correct_witness:
  "\<exists>w'. processTask \<lparr>gt_SafePoint = 40, gt_StartKey = [1], gt_EndKey = [2]\<rparr> (NewGCWorker gcStore None None None) = Some (None, w') \<and>
     st_versions (gw_engine w') [1] = [(10, samplePut)] \<and>
     PointGetter_Get (NewPointGetter (gw_engine w') 40 IsolationLevelSI) [1] =
     PointGetter_Get (NewPointGetter gcStore 40 IsolationLevelSI) [1]"
proof -
  let ?task = "\<lparr>gt_SafePoint = 40, gt_StartKey = [1], gt_EndKey = [2]\<rparr>" and ?w = "NewGCWorker gcStore None None None"
  have e: "gw_engine ?w = gcStore" "gw_latches ?w = NewLatches 2048" by (simp_all add: NewGCWorker_def)
  from GC_task_correct [of ?w ?task, unfolded e] gcStore_ok
  obtain w' where w': "processTask ?task ?w = Some (None, w')"
      "\<And>k. let vs = st_versions gcStore k in st_versions (gw_engine w') k =
         (if k \<noteq> [] \<and> [1] \<le> k \<and> ([2] = ([] :: bytes) \<or> k \<le> [2]) then newer_than 40 vs @ visible (at_most 40 vs) else vs)"
      "\<And>k ts level. 40 \<le> ts \<Longrightarrow> PointGetter_Get (NewPointGetter (gw_engine w') ts level) k =
        PointGetter_Get (NewPointGetter gcStore ts level) k"
    by (auto simp: Let_def)
  have "st_versions (gw_engine w') [1] = [(10, samplePut)]"
    using w'(2) [of "[1]"] by (simp add: newer_than_def visible_def Let_def)
  with w'(1,3) show ?thesis by blast
qed

end
