(* ===== verification/Rocks.thy ===== *)
theory Rocks
  imports Mvcc_Store
begin

section \<open>Package rocks: column families over Pebble\<close>

text \<open>
  Models \<^verbatim>\<open>internal/engine/rocks/engine.go\<close>, which keeps the four column families in one
  Pebble database by putting a prefix byte before every key. Pebble is not part of the
  repository: its operations are the fields of the record \<open>Pebble\<close>, an argument of every
  definition, and the locale \<open>pebble\<close> states the documented behaviour the code relies on: the database is an
  ordered map, a batch is applied in order, an iterator walks the keys between its bounds.
  I/O errors of Pebble have no place in the model.

  Inside the locale the lemmas show that every operation of the engine is the operation of the
  interface theory \<open>Engine\<close> on the abstract store, column family by column family, with the
  iterator of a column family a position in its entries. The locale is interpreted on the
  ordered entry lists of \<open>Engine\<close>.
\<close>

subsection \<open>The operations of Pebble the code calls\<close>

datatype batch_op =
    BSet bytes bytes
  | BDelete bytes
  | BDeleteRange bytes bytes

record ('db, 'iter) Pebble =
  pb_Get :: "'db \<Rightarrow> bytes \<Rightarrow> bytes option"
  pb_Set :: "bytes \<Rightarrow> bytes \<Rightarrow> 'db \<Rightarrow> 'db"
  pb_Delete :: "bytes \<Rightarrow> 'db \<Rightarrow> 'db"
  pb_DeleteRange :: "bytes \<Rightarrow> bytes \<Rightarrow> 'db \<Rightarrow> 'db"
  pb_Commit :: "batch_op list \<Rightarrow> 'db \<Rightarrow> 'db"
  pb_NewIter :: "bytes \<Rightarrow> bytes \<Rightarrow> 'db \<Rightarrow> 'iter"
  pb_First :: "'iter \<Rightarrow> 'iter"
  pb_Last :: "'iter \<Rightarrow> 'iter"
  pb_SeekGE :: "bytes \<Rightarrow> 'iter \<Rightarrow> 'iter"
  pb_SeekLT :: "bytes \<Rightarrow> 'iter \<Rightarrow> 'iter"
  pb_Next :: "'iter \<Rightarrow> 'iter"
  pb_Prev :: "'iter \<Rightarrow> 'iter"
  pb_Entry :: "'iter \<Rightarrow> entry option"

subsection \<open>Prefixes\<close>

definition cfPrefixMap :: "(string \<times> byte) list" where
  "cfPrefixMap = [(CFDefault, 0), (CFLock, 1), (CFWrite, 2), (CFRaft, 3)]"

definition cfPrefix :: "string \<Rightarrow> byte res" where
  "cfPrefix c = (case map_of cfPrefixMap c of None \<Rightarrow> Inl (ErrCFNotFound c) | Some p \<Rightarrow> Inr p)"

definition prefixKey :: "byte \<Rightarrow> bytes \<Rightarrow> bytes" where
  "prefixKey p key = p # key"

definition stripPrefix :: "bytes \<Rightarrow> bytes" where
  "stripPrefix key = (if length key \<le> 1 then [] else drop 1 key)"

definition cfUpperBound :: "byte \<Rightarrow> bytes" where
  "cfUpperBound p = [p + 1]"

subsection \<open>The engine\<close>

definition Engine_Get :: "('db, 'iter) Pebble \<Rightarrow> 'db \<Rightarrow> string \<Rightarrow> bytes \<Rightarrow> bytes res" where
  "Engine_Get P db c key =
     res_bind (cfPrefix c) (\<lambda>p.
       case pb_Get P db (prefixKey p key) of None \<Rightarrow> Inl ErrNotFound | Some v \<Rightarrow> Inr v)"

definition Engine_Put :: "('db, 'iter) Pebble \<Rightarrow> 'db \<Rightarrow> string \<Rightarrow> bytes \<Rightarrow> bytes \<Rightarrow> 'db res" where
  "Engine_Put P db c key v = res_bind (cfPrefix c) (\<lambda>p. Inr (pb_Set P (prefixKey p key) v db))"

definition Engine_Delete :: "('db, 'iter) Pebble \<Rightarrow> 'db \<Rightarrow> string \<Rightarrow> bytes \<Rightarrow> 'db res" where
  "Engine_Delete P db c key = res_bind (cfPrefix c) (\<lambda>p. Inr (pb_Delete P (prefixKey p key) db))"

definition Engine_DeleteRange :: "('db, 'iter) Pebble \<Rightarrow> 'db \<Rightarrow> string \<Rightarrow> bytes \<Rightarrow> bytes \<Rightarrow> 'db res" where
  "Engine_DeleteRange P db c startKey endKey =
     res_bind (cfPrefix c) (\<lambda>p. Inr (pb_DeleteRange P (prefixKey p startKey) (prefixKey p endKey) db))"

subsection \<open>Iterators\<close>

text \<open>\<^verbatim>\<open>iterator\<close> or, for an unknown column family, \<^verbatim>\<open>errorIterator\<close>, which is never valid.\<close>

datatype 'iter rocksIterator =
    RocksIterator 'iter byte
  | ErrorIterator go_error

definition Engine_NewIterator ::
  "('db, 'iter) Pebble \<Rightarrow> 'db \<Rightarrow> string \<Rightarrow> IterOptions \<Rightarrow> 'iter rocksIterator"
where
  "Engine_NewIterator P db c opts =
     (case cfPrefix c of
        Inl e \<Rightarrow> ErrorIterator e
      | Inr p \<Rightarrow>
          RocksIterator
            (pb_NewIter P
              (case opt_LowerBound opts of Some lo \<Rightarrow> prefixKey p lo | None \<Rightarrow> [p])
              (case opt_UpperBound opts of Some hi \<Rightarrow> prefixKey p hi | None \<Rightarrow> cfUpperBound p) db)
            p)"

fun onIter :: "('iter \<Rightarrow> byte \<Rightarrow> 'iter) \<Rightarrow> 'iter rocksIterator \<Rightarrow> 'iter rocksIterator" where
  "onIter f (RocksIterator i p) = RocksIterator (f i p) p"
| "onIter f (ErrorIterator e) = ErrorIterator e"

fun rit_Valid :: "('db, 'iter) Pebble \<Rightarrow> 'iter rocksIterator \<Rightarrow> bool" where
  "rit_Valid P (RocksIterator i p) = (pb_Entry P i \<noteq> None)"
| "rit_Valid P (ErrorIterator e) = False"

fun rit_Key :: "('db, 'iter) Pebble \<Rightarrow> 'iter rocksIterator \<Rightarrow> bytes" where
  "rit_Key P (RocksIterator i p) = (case pb_Entry P i of None \<Rightarrow> [] | Some e \<Rightarrow> stripPrefix (fst e))"
| "rit_Key P (ErrorIterator e) = []"

fun rit_Value :: "('db, 'iter) Pebble \<Rightarrow> 'iter rocksIterator \<Rightarrow> bytes" where
  "rit_Value P (RocksIterator i p) = (case pb_Entry P i of None \<Rightarrow> [] | Some e \<Rightarrow> snd e)"
| "rit_Value P (ErrorIterator e) = []"

fun rit_Error :: "'iter rocksIterator \<Rightarrow> go_error option" where
  "rit_Error (RocksIterator i p) = None"
| "rit_Error (ErrorIterator e) = Some e"

definition rit_SeekToFirst :: "('db, 'iter) Pebble \<Rightarrow> 'iter rocksIterator \<Rightarrow> 'iter rocksIterator" where
  "rit_SeekToFirst P = onIter (\<lambda>i p. pb_First P i)"

definition rit_SeekToLast :: "('db, 'iter) Pebble \<Rightarrow> 'iter rocksIterator \<Rightarrow> 'iter rocksIterator" where
  "rit_SeekToLast P = onIter (\<lambda>i p. pb_Last P i)"

definition rit_Seek :: "('db, 'iter) Pebble \<Rightarrow> bytes \<Rightarrow> 'iter rocksIterator \<Rightarrow> 'iter rocksIterator" where
  "rit_Seek P target = onIter (\<lambda>i p. pb_SeekGE P (prefixKey p target) i)"

definition rit_SeekForPrev :: "('db, 'iter) Pebble \<Rightarrow> bytes \<Rightarrow> 'iter rocksIterator \<Rightarrow> 'iter rocksIterator" where
  "rit_SeekForPrev P target =
     onIter (\<lambda>i p.
       let i = pb_SeekLT P (prefixKey p target) i;
           i = pb_SeekGE P (prefixKey p target) i in
       case pb_Entry P i of
         Some e \<Rightarrow> if stripPrefix (fst e) = target then i else pb_Prev P i
       | None \<Rightarrow> pb_Last P i)"

definition rit_Next :: "('db, 'iter) Pebble \<Rightarrow> 'iter rocksIterator \<Rightarrow> 'iter rocksIterator" where
  "rit_Next P = onIter (\<lambda>i p. pb_Next P i)"

definition rit_Prev :: "('db, 'iter) Pebble \<Rightarrow> 'iter rocksIterator \<Rightarrow> 'iter rocksIterator" where
  "rit_Prev P = onIter (\<lambda>i p. pb_Prev P i)"

subsection \<open>Snapshots\<close>

text \<open>A snapshot is the database at the time it was taken.\<close>

definition Engine_NewSnapshot :: "'db \<Rightarrow> 'db" where
  "Engine_NewSnapshot db = db"

definition snapshot_Get :: "('db, 'iter) Pebble \<Rightarrow> 'db \<Rightarrow> string \<Rightarrow> bytes \<Rightarrow> bytes res" where
  "snapshot_Get P snap c key =
     res_bind (cfPrefix c) (\<lambda>p.
       case pb_Get P snap (prefixKey p key) of None \<Rightarrow> Inl ErrNotFound | Some v \<Rightarrow> Inr v)"

definition snapshot_NewIterator ::
  "('db, 'iter) Pebble \<Rightarrow> 'db \<Rightarrow> string \<Rightarrow> IterOptions \<Rightarrow> 'iter rocksIterator"
where
  "snapshot_NewIterator P snap c opts =
     (case cfPrefix c of
        Inl e \<Rightarrow> ErrorIterator e
      | Inr p \<Rightarrow>
          RocksIterator
            (pb_NewIter P
              (case opt_LowerBound opts of Some lo \<Rightarrow> prefixKey p lo | None \<Rightarrow> [p])
              (case opt_UpperBound opts of Some hi \<Rightarrow> prefixKey p hi | None \<Rightarrow> cfUpperBound p) snap)
            p)"

subsection \<open>Write batches\<close>

record savePointState =
  sp_repr :: "batch_op list"
  sp_count :: int
  sp_dataSize :: int

record writeBatch =
  wb_batch :: "batch_op list"
  wb_count :: int
  wb_dataSize :: int
  wb_savePoints :: "savePointState list"

definition NewWriteBatch :: writeBatch where
  "NewWriteBatch = \<lparr>wb_batch = [], wb_count = 0, wb_dataSize = 0, wb_savePoints = []\<rparr>"

definition wb_append :: "batch_op \<Rightarrow> nat \<Rightarrow> writeBatch \<Rightarrow> writeBatch" where
  "wb_append op n wb =
     wb\<lparr>wb_batch := wb_batch wb @ [op], wb_count := wb_count wb + 1, wb_dataSize := wb_dataSize wb + int n\<rparr>"

definition writeBatch_Put :: "string \<Rightarrow> bytes \<Rightarrow> bytes \<Rightarrow> writeBatch \<Rightarrow> writeBatch res" where
  "writeBatch_Put c key v wb =
     res_bind (cfPrefix c) (\<lambda>p. Inr (wb_append (BSet (prefixKey p key) v) (length key + length v + 1) wb))"

definition writeBatch_Delete :: "string \<Rightarrow> bytes \<Rightarrow> writeBatch \<Rightarrow> writeBatch res" where
  "writeBatch_Delete c key wb =
     res_bind (cfPrefix c) (\<lambda>p. Inr (wb_append (BDelete (prefixKey p key)) (length key + 1) wb))"

definition writeBatch_DeleteRange :: "string \<Rightarrow> bytes \<Rightarrow> bytes \<Rightarrow> writeBatch \<Rightarrow> writeBatch res" where
  "writeBatch_DeleteRange c startKey endKey wb =
     res_bind (cfPrefix c) (\<lambda>p.
       Inr (wb_append (BDeleteRange (prefixKey p startKey) (prefixKey p endKey)) (length startKey + length endKey + 2) wb))"

definition writeBatch_Clear :: "writeBatch \<Rightarrow> writeBatch" where
  "writeBatch_Clear wb = wb\<lparr>wb_batch := [], wb_count := 0, wb_dataSize := 0, wb_savePoints := []\<rparr>"

definition SetSavePoint :: "writeBatch \<Rightarrow> writeBatch" where
  "SetSavePoint wb =
     wb\<lparr>wb_savePoints := wb_savePoints wb @
          [\<lparr>sp_repr = wb_batch wb, sp_count = wb_count wb, sp_dataSize = wb_dataSize wb\<rparr>]\<rparr>"

definition RollbackToSavePoint :: "writeBatch \<Rightarrow> writeBatch res" where
  "RollbackToSavePoint wb =
     (if length (wb_savePoints wb) = 0 then Inl (ErrEngine ''rocks: no save point set'')
      else
        let sp = wb_savePoints wb ! (length (wb_savePoints wb) - 1) in
        Inr (wb\<lparr>wb_savePoints := butlast (wb_savePoints wb), wb_batch := sp_repr sp,
               wb_count := sp_count sp, wb_dataSize := sp_dataSize sp\<rparr>))"

definition PopSavePoint :: "writeBatch \<Rightarrow> writeBatch res" where
  "PopSavePoint wb =
     (if length (wb_savePoints wb) = 0 then Inl (ErrEngine ''rocks: no save point set'')
      else Inr (wb\<lparr>wb_savePoints := butlast (wb_savePoints wb)\<rparr>))"

definition writeBatch_Commit :: "('db, 'iter) Pebble \<Rightarrow> writeBatch \<Rightarrow> 'db \<Rightarrow> 'db" where
  "writeBatch_Commit P wb db = pb_Commit P (wb_batch wb) db"

subsection \<open>The column families of a prefixed key space\<close>

definition strip1 :: "entry \<Rightarrow> entry" where
  "strip1 e = (stripPrefix (fst e), snd e)"

definition has_prefix :: "byte \<Rightarrow> entry \<Rightarrow> bool" where
  "has_prefix p e \<longleftrightarrow> (\<exists>k. fst e = p # k)"

definition strip_cf :: "byte \<Rightarrow> cf \<Rightarrow> cf" where
  "strip_cf p es = map strip1 (filter (has_prefix p) es)"

definition abs_store :: "cf \<Rightarrow> store" where
  "abs_store es c = (case cfPrefix c of Inl _ \<Rightarrow> [] | Inr p \<Rightarrow> strip_cf p es)"

lemma stripPrefix_Cons [simp]: "stripPrefix (p # k) = k"
  by (cases k) (simp_all add: stripPrefix_def)

lemma cfPrefix_known: "known_cf c \<Longrightarrow> \<exists>p. cfPrefix c = Inr p" "\<not> known_cf c \<Longrightarrow> cfPrefix c = Inl (ErrCFNotFound c)"
  by (auto simp: known_cf_def AllCFs_def cfPrefix_def cfPrefixMap_def)

lemma cfPrefix_inj: "cfPrefix c = Inr p \<Longrightarrow> cfPrefix c' = Inr p \<Longrightarrow> c = c'"
  by (auto simp: cfPrefix_def cfPrefixMap_def split: option.splits if_splits)

lemma cfPrefix_less: "cfPrefix c = Inr p \<Longrightarrow> p < p + 1"
  by (auto simp: cfPrefix_def cfPrefixMap_def split: option.splits if_splits)

lemma cf_sorted_strip: "cf_sorted es \<Longrightarrow> cf_sorted (strip_cf p es)"
proof (induction es)
  case (Cons e es)
  have "fst (strip1 e) < fst (strip1 e')" if "e' \<in> set es" "has_prefix p e" "has_prefix p e'" for e'
    using that Cons.prems by (auto simp: has_prefix_def strip1_def cf_sorted_def)
  then show ?case using Cons by (auto simp: strip_cf_def cf_sorted_def)
qed (simp add: strip_cf_def cf_sorted_def)

lemma cf_get_strip: "cf_get (strip_cf p es) k = cf_get es (p # k)"
proof (induction es)
  case (Cons e es)
  show ?case
  proof (cases "has_prefix p e")
    case True
    then obtain k' where "fst e = p # k'" by (auto simp: has_prefix_def)
    with True Cons show ?thesis by (cases e) (simp add: strip_cf_def cf_get_def strip1_def)
  next
    case False
    then have "fst e \<noteq> p # k" by (auto simp: has_prefix_def)
    with False Cons show ?thesis by (cases e) (simp add: strip_cf_def cf_get_def)
  qed
qed (simp add: strip_cf_def cf_get_def)

lemma strip_updates:
  assumes "cf_sorted es"
  shows "strip_cf p (cf_put (q # k) v es) = (if p = q then cf_put k v (strip_cf p es) else strip_cf p es)"
    "strip_cf p (cf_delete (q # k) es) = (if p = q then cf_delete k (strip_cf p es) else strip_cf p es)"
    "strip_cf p (cf_delete_range (q # k) (q # k') es) = (if p = q then cf_delete_range k k' (strip_cf p es) else strip_cf p es)"
proof -
  note s = cf_sorted_strip [OF assms, of p]
  show "strip_cf p (cf_put (q # k) v es) = (if p = q then cf_put k v (strip_cf p es) else strip_cf p es)"
    using s assms by (intro cf_eqI) (auto simp: cf_sorted_strip cf_simps cf_get_strip)
  show "strip_cf p (cf_delete (q # k) es) = (if p = q then cf_delete k (strip_cf p es) else strip_cf p es)"
    using s assms by (intro cf_eqI) (auto simp: cf_sorted_strip cf_simps cf_get_strip)
  show "strip_cf p (cf_delete_range (q # k) (q # k') es) = (if p = q then cf_delete_range k k' (strip_cf p es) else strip_cf p es)"
    using s assms by (intro cf_eqI) (auto simp: cf_sorted_strip cf_simps cf_get_strip)
qed

lemma abs_updates:
  assumes "cf_sorted es" "cfPrefix c = Inr q"
  shows "abs_store (cf_put (prefixKey q k) v es) = (abs_store es)(c := cf_put k v (abs_store es c))"
    "abs_store (cf_delete (prefixKey q k) es) = (abs_store es)(c := cf_delete k (abs_store es c))"
    "abs_store (cf_delete_range (prefixKey q k) (prefixKey q k') es) = (abs_store es)(c := cf_delete_range k k' (abs_store es c))"
proof -
  have other: "p \<noteq> q" if "cfPrefix c' = Inr p" "c' \<noteq> c" for c' p
    using that cfPrefix_inj [OF assms(2), of c'] by auto
  have "abs_store (f es) = (abs_store es)(c := g (abs_store es c))"
    if "\<And>p. strip_cf p (f es) = (if p = q then g (strip_cf p es) else strip_cf p es)" for f g
  proof (rule ext)
    fix c'
    show "abs_store (f es) c' = ((abs_store es)(c := g (abs_store es c))) c'"
      using that other [of c'] assms(2) by (cases "c' = c"; cases "cfPrefix c'") (simp_all add: abs_store_def)
  qed
  note upd = this
  show "abs_store (cf_put (prefixKey q k) v es) = (abs_store es)(c := cf_put k v (abs_store es c))"
    by (rule upd) (simp add: prefixKey_def strip_updates [OF assms(1)])
  show "abs_store (cf_delete (prefixKey q k) es) = (abs_store es)(c := cf_delete k (abs_store es c))"
    by (rule upd) (simp add: prefixKey_def strip_updates [OF assms(1)])
  show "abs_store (cf_delete_range (prefixKey q k) (prefixKey q k') es) = (abs_store es)(c := cf_delete_range k k' (abs_store es c))"
    by (rule upd) (simp add: prefixKey_def strip_updates [OF assms(1)])
qed

subsection \<open>Iterators of a column family\<close>

definition map_it :: "(entry \<Rightarrow> entry) \<Rightarrow> iterator \<Rightarrow> iterator" where
  "map_it f it = \<lparr>it_before = map f (it_before it), it_at = map_option f (it_at it), it_after = map f (it_after it)\<rparr>"

lemma map_it_all [simp]: "it_all (map_it f it) = map f (it_all it)"
  by (simp add: it_all_def map_it_def rev_map split: option.splits)

lemma map_it_head: "map_it f (it_at_head b r) = it_at_head (map f b) (map f r)"
  by (simp add: map_it_def it_at_head_def split: list.splits)

lemma map_it_moves [simp]:
  "map_it f (SeekToFirst it) = SeekToFirst (map_it f it)" "map_it f (SeekToLast it) = SeekToLast (map_it f it)"
  "map_it f (it_Next it) = it_Next (map_it f it)" "map_it f (it_Prev it) = it_Prev (map_it f it)"
proof -
  show "map_it f (SeekToFirst it) = SeekToFirst (map_it f it)"
    by (simp add: SeekToFirst_def map_it_head)
  show "map_it f (SeekToLast it) = SeekToLast (map_it f it)"
    by (cases "rev (it_all it)") (simp_all add: SeekToLast_def map_it_def [of f "\<lparr>it_before = _, it_at = _, it_after = _\<rparr>"] rev_map)
  show "map_it f (it_Next it) = it_Next (map_it f it)"
    by (cases "it_at it") (simp_all add: it_Next_def map_it_head, simp_all add: map_it_def)
  show "map_it f (it_Prev it) = it_Prev (map_it f it)"
    by (cases "it_at it"; cases "it_before it") (simp_all add: it_Prev_def map_it_def)
qed

lemma map_it_Seek:
  assumes "\<And>e. e \<in> set (it_all it) \<Longrightarrow> fst (f e) < t' \<longleftrightarrow> fst e < t"
  shows "map_it f (Seek t it) = Seek t' (map_it f it)"
proof -
  have "takeWhile (\<lambda>e. fst (f e) < t') (it_all it) = takeWhile (\<lambda>e. fst e < t) (it_all it)"
    "dropWhile (\<lambda>e. fst (f e) < t') (it_all it) = dropWhile (\<lambda>e. fst e < t) (it_all it)"
    using assms by (auto intro: takeWhile_cong dropWhile_cong)
  then show ?thesis
    by (simp add: Seek_def map_it_head rev_map takeWhile_map dropWhile_map comp_def)
qed

text \<open>Going to the first entry not before the target, and back unless it is the target itself,
  reaches the last entry not after it.\<close>

lemma SeekForPrev_by_Seek:
  assumes "cf_sorted (it_all it)"
  shows "SeekForPrev t it =
    (let it' = Seek t it in
     case it_at it' of
       Some e \<Rightarrow> if fst e = t then it' else it_Prev it'
     | None \<Rightarrow> SeekToLast it')"
proof -
  let ?lt = "takeWhile (\<lambda>e. fst e < t) (it_all it)" and ?ge = "dropWhile (\<lambda>e. fst e < t) (it_all it)"
  have all: "it_all it = ?lt @ ?ge" by simp
  have lt: "fst e < t" if "e \<in> set ?lt" for e using that by (blast dest: set_takeWhileD)
  show ?thesis
  proof (cases ?ge)
    case Nil
    then have le: "\<forall>e \<in> set (it_all it). fst e \<le> t" using lt all by (metis append_Nil2 less_imp_le)
    then have tw: "takeWhile (\<lambda>e. fst e \<le> t) (it_all it) = it_all it" "dropWhile (\<lambda>e. fst e \<le> t) (it_all it) = []"
      by (simp_all add: takeWhile_eq_all_conv dropWhile_eq_Nil_conv)
    have lt: "?lt = it_all it" using Nil all by (metis append_Nil2)
    show ?thesis
      unfolding SeekForPrev_def Seek_def Let_def tw lt Nil
      by (simp add: SeekToLast_def it_at_head_def [of _ "[]"])
        (simp add: it_all_def [of "\<lparr>it_before = _, it_at = _, it_after = _\<rparr>"])
  next
    case (Cons e es)
    have "t \<le> fst e" using Cons by (metis dropWhile_eq_Cons_conv not_less)
    have "sorted_wrt (\<lambda>x y. fst x < fst y) (?lt @ e # es)" using assms all Cons by (simp add: cf_sorted_def sorted_wrt_map)
    then have after: "\<forall>e' \<in> set es. \<not> fst e' \<le> t" using \<open>t \<le> fst e\<close> by (fastforce simp: sorted_wrt_append)
    have le: "\<forall>e \<in> set ?lt. fst e \<le> t" using lt less_imp_le by blast
    have all': "it_all it = ?lt @ e # es" using all Cons by simp
    have es: "takeWhile (\<lambda>e. fst e \<le> t) es = []" "dropWhile (\<lambda>e. fst e \<le> t) es = es"
      using after by (cases es; simp)+
    show ?thesis
    proof (cases "fst e = t")
      case True
      have "takeWhile (\<lambda>e. fst e \<le> t) (it_all it) = ?lt @ [e]" "dropWhile (\<lambda>e. fst e \<le> t) (it_all it) = es"
        by (subst all', use le True es in \<open>simp add: takeWhile_append2 dropWhile_append2\<close>)+
      with True Cons show ?thesis by (simp add: SeekForPrev_def Seek_def Let_def it_at_head_def)
    next
      case False
      then have "\<not> fst e \<le> t" using \<open>t \<le> fst e\<close> by simp
      then have "takeWhile (\<lambda>e. fst e \<le> t) (it_all it) = ?lt" "dropWhile (\<lambda>e. fst e \<le> t) (it_all it) = e # es"
        by (subst all', use le in \<open>simp add: takeWhile_append2 dropWhile_append2\<close>)+
      with False Cons show ?thesis
        by (simp add: SeekForPrev_def Seek_def Let_def it_at_head_def it_Prev_def split: list.split)
    qed
  qed
qed

subsection \<open>The contract of Pebble and the refinement\<close>

fun batch_apply :: "batch_op \<Rightarrow> cf \<Rightarrow> cf" where
  "batch_apply (BSet k v) es = cf_put k v es"
| "batch_apply (BDelete k) es = cf_delete k es"
| "batch_apply (BDeleteRange k k') es = cf_delete_range k k' es"

text \<open>The moves of an iterator, on the engine's iterators and on the interface's.\<close>

datatype it_move = MFirst | MLast | MSeek bytes | MSeekForPrev bytes | MNext | MPrev

fun rit_move :: "('db, 'iter) Pebble \<Rightarrow> it_move \<Rightarrow> 'iter rocksIterator \<Rightarrow> 'iter rocksIterator" where
  "rit_move P MFirst = rit_SeekToFirst P"
| "rit_move P MLast = rit_SeekToLast P"
| "rit_move P (MSeek t) = rit_Seek P t"
| "rit_move P (MSeekForPrev t) = rit_SeekForPrev P t"
| "rit_move P MNext = rit_Next P"
| "rit_move P MPrev = rit_Prev P"

fun move_it :: "it_move \<Rightarrow> iterator \<Rightarrow> iterator" where
  "move_it MFirst = SeekToFirst"
| "move_it MLast = SeekToLast"
| "move_it (MSeek t) = Seek t"
| "move_it (MSeekForPrev t) = SeekForPrev t"
| "move_it MNext = it_Next"
| "move_it MPrev = it_Prev"

fun batch_add :: "wb_op \<Rightarrow> writeBatch \<Rightarrow> writeBatch res" where
  "batch_add (WbPut c k v) wb = writeBatch_Put c k v wb"
| "batch_add (WbDelete c k) wb = writeBatch_Delete c k wb"
| "batch_add (WbDeleteRange c k k') wb = writeBatch_DeleteRange c k k' wb"

fun batch_adds :: "wb_op list \<Rightarrow> writeBatch \<Rightarrow> writeBatch res" where
  "batch_adds [] wb = Inr wb"
| "batch_adds (op # ops) wb = res_bind (batch_add op wb) (batch_adds ops)"

fun op_cf :: "wb_op \<Rightarrow> string" where
  "op_cf (WbPut c k v) = c"
| "op_cf (WbDelete c k) = c"
| "op_cf (WbDeleteRange c k k') = c"

locale pebble =
  fixes P :: "('db, 'iter) Pebble" and contents :: "'db \<Rightarrow> cf" and view :: "'iter \<Rightarrow> iterator"
  assumes sorted: "cf_sorted (contents db)"
    and get: "pb_Get P db k = cf_get (contents db) k"
    and set: "contents (pb_Set P k v db) = cf_put k v (contents db)"
    and delete: "contents (pb_Delete P k db) = cf_delete k (contents db)"
    and delete_range: "contents (pb_DeleteRange P k k' db) = cf_delete_range k k' (contents db)"
    and commit: "contents (pb_Commit P ops db) = fold batch_apply ops (contents db)"
    and new_iter: "view (pb_NewIter P lo hi db) = NewIterator (contents db) \<lparr>opt_LowerBound = Some lo, opt_UpperBound = Some hi\<rparr>"
    and first: "view (pb_First P i) = SeekToFirst (view i)"
    and last: "view (pb_Last P i) = SeekToLast (view i)"
    and seek_ge: "view (pb_SeekGE P k i) = Seek k (view i)"
    and seek_lt: "it_all (view (pb_SeekLT P k i)) = it_all (view i)"
    and next_law: "view (pb_Next P i) = it_Next (view i)"
    and prev_law: "view (pb_Prev P i) = it_Prev (view i)"
    and entry: "pb_Entry P i = it_at (view i)"
begin

lemma point_ops:
  shows "Engine_Get P db c k = eng_get (abs_store (contents db)) c k"
    and "map_sum id (abs_store \<circ> contents) (Engine_Put P db c k v) = eng_put (abs_store (contents db)) c k v"
    and "map_sum id (abs_store \<circ> contents) (Engine_Delete P db c k) = eng_delete (abs_store (contents db)) c k"
    and "map_sum id (abs_store \<circ> contents) (Engine_DeleteRange P db c k k') = eng_delete_range (abs_store (contents db)) c k k'"
proof -
  have "Engine_Get P db c k = eng_get (abs_store (contents db)) c k \<and>
    map_sum id (abs_store \<circ> contents) (Engine_Put P db c k v) = eng_put (abs_store (contents db)) c k v \<and>
    map_sum id (abs_store \<circ> contents) (Engine_Delete P db c k) = eng_delete (abs_store (contents db)) c k \<and>
    map_sum id (abs_store \<circ> contents) (Engine_DeleteRange P db c k k') = eng_delete_range (abs_store (contents db)) c k k'"
  proof (cases "known_cf c")
    case False
    then show ?thesis
      using cfPrefix_known(2) [OF False]
      by (simp add: Engine_Get_def Engine_Put_def Engine_Delete_def Engine_DeleteRange_def
          eng_get_def eng_put_def eng_delete_def eng_delete_range_def)
  next
    case True
    then obtain p where p: "cfPrefix c = Inr p" using cfPrefix_known(1) by blast
    have "cf_get (abs_store (contents db) c) k = cf_get (contents db) (prefixKey p k)"
      by (simp add: abs_store_def p cf_get_strip prefixKey_def)
    with True p show ?thesis
      by (simp add: Engine_Get_def Engine_Put_def Engine_Delete_def Engine_DeleteRange_def get set delete delete_range
          abs_updates [OF sorted p] eng_get_def eng_put_def eng_delete_def eng_delete_range_def)
  qed
  then show "Engine_Get P db c k = eng_get (abs_store (contents db)) c k"
    "map_sum id (abs_store \<circ> contents) (Engine_Put P db c k v) = eng_put (abs_store (contents db)) c k v"
    "map_sum id (abs_store \<circ> contents) (Engine_Delete P db c k) = eng_delete (abs_store (contents db)) c k"
    "map_sum id (abs_store \<circ> contents) (Engine_DeleteRange P db c k k') = eng_delete_range (abs_store (contents db)) c k k'"
    by blast+
qed

end

lemma batch_add_cases:
  "\<not> known_cf (op_cf op) \<Longrightarrow> batch_add op wb = Inl (ErrCFNotFound (op_cf op))"
  "known_cf (op_cf op) \<Longrightarrow> \<exists>b n. batch_add op wb = Inr (wb_append b n wb) \<and>
     (\<forall>es. cf_sorted es \<longrightarrow> cf_sorted (batch_apply b es) \<and> abs_store (batch_apply b es) = wb_apply1 op (abs_store es))"
proof -
  show "batch_add op wb = Inl (ErrCFNotFound (op_cf op))" if "\<not> known_cf (op_cf op)"
    using cfPrefix_known(2) [OF that]
    by (cases op) (simp_all add: writeBatch_Put_def writeBatch_Delete_def writeBatch_DeleteRange_def)
  show "\<exists>b n. batch_add op wb = Inr (wb_append b n wb) \<and>
     (\<forall>es. cf_sorted es \<longrightarrow> cf_sorted (batch_apply b es) \<and> abs_store (batch_apply b es) = wb_apply1 op (abs_store es))"
    if known: "known_cf (op_cf op)"
  proof -
    obtain p where p: "cfPrefix (op_cf op) = Inr p" using cfPrefix_known(1) [OF known] by blast
    let ?b = "case op of WbPut c k v \<Rightarrow> BSet (prefixKey p k) v | WbDelete c k \<Rightarrow> BDelete (prefixKey p k)
      | WbDeleteRange c k k' \<Rightarrow> BDeleteRange (prefixKey p k) (prefixKey p k')"
    have "\<exists>n. batch_add op wb = Inr (wb_append ?b n wb)"
      using p by (cases op) (auto simp: writeBatch_Put_def writeBatch_Delete_def writeBatch_DeleteRange_def)
    moreover have "\<forall>es. cf_sorted es \<longrightarrow> cf_sorted (batch_apply ?b es) \<and> abs_store (batch_apply ?b es) = wb_apply1 op (abs_store es)"
      using p by (cases op) (simp_all add: abs_updates cf_simps)
    ultimately show ?thesis by blast
  qed
qed

lemma batch_adds_known:
  assumes "list_all (known_cf \<circ> op_cf) ops"
  shows "\<exists>wb' bs. batch_adds ops wb = Inr wb' \<and> wb_batch wb' = wb_batch wb @ bs \<and> wb_savePoints wb' = wb_savePoints wb \<and>
     wb_count wb' = wb_count wb + int (length ops) \<and>
     (\<forall>es. cf_sorted es \<longrightarrow> abs_store (fold batch_apply bs es) = wb_commit ops (abs_store es))"
  using assms
proof (induction ops arbitrary: wb)
  case Nil
  then show ?case by (simp add: wb_commit_def)
next
  case (Cons op ops)
  obtain b n where b: "batch_add op wb = Inr (wb_append b n wb)"
      "\<And>es. cf_sorted es \<Longrightarrow> cf_sorted (batch_apply b es) \<and> abs_store (batch_apply b es) = wb_apply1 op (abs_store es)"
    using batch_add_cases(2) [of op wb] Cons.prems by auto
  obtain wb' bs where IH: "batch_adds ops (wb_append b n wb) = Inr wb'" "wb_batch wb' = wb_batch (wb_append b n wb) @ bs"
      "wb_savePoints wb' = wb_savePoints (wb_append b n wb)" "wb_count wb' = wb_count (wb_append b n wb) + int (length ops)"
      "\<And>es. cf_sorted es \<Longrightarrow> abs_store (fold batch_apply bs es) = wb_commit ops (abs_store es)"
    using Cons.IH [of "wb_append b n wb"] Cons.prems by auto
  show ?case
    using b IH by (intro exI [of _ wb'] exI [of _ "b # bs"]) (simp add: wb_append_def wb_commit_def)
qed

lemma batch_adds_unknown:
  "\<not> list_all (known_cf \<circ> op_cf) ops \<Longrightarrow>
     batch_adds ops wb = Inl (ErrCFNotFound (op_cf (hd (dropWhile (known_cf \<circ> op_cf) ops))))"
proof (induction ops arbitrary: wb)
  case (Cons op ops)
  show ?case
  proof (cases "known_cf (op_cf op)")
    case True
    then obtain b n where "batch_add op wb = Inr (wb_append b n wb)" using batch_add_cases(2) by blast
    with True Cons show ?thesis by simp
  qed (simp add: batch_add_cases(1))
qed simp

lemma save_point_restores:
  assumes "batch_adds ops (SetSavePoint wb) = Inr wb'"
  shows "RollbackToSavePoint wb' = Inr wb"
proof -
  have known: "list_all (known_cf \<circ> op_cf) ops"
    using assms batch_adds_unknown [of ops "SetSavePoint wb"] by (cases "list_all (known_cf \<circ> op_cf) ops") auto
  with batch_adds_known [OF known, of "SetSavePoint wb"] assms
  have "wb_savePoints wb' = wb_savePoints (SetSavePoint wb)" by auto
  then show ?thesis by (simp add: RollbackToSavePoint_def SetSavePoint_def nth_append)
qed

context pebble
begin

lemma batch_commit:
  assumes "list_all (known_cf \<circ> op_cf) ops" "batch_adds ops NewWriteBatch = Inr wb"
  shows "abs_store (contents (writeBatch_Commit P wb db)) = wb_commit ops (abs_store (contents db))"
  using batch_adds_known [OF assms(1), of NewWriteBatch] assms(2) sorted [of db]
  by (auto simp: writeBatch_Commit_def commit NewWriteBatch_def)

text \<open>An iterator of the engine stands for the position of its Pebble iterator in the entries
  of its column family, with the prefix removed.\<close>

fun rit_ok :: "'iter rocksIterator \<Rightarrow> bool" where
  "rit_ok (RocksIterator i p) \<longleftrightarrow> cf_sorted (it_all (view i)) \<and> list_all (has_prefix p) (it_all (view i))"
| "rit_ok (ErrorIterator e) \<longleftrightarrow> True"

fun rit_abs :: "'iter rocksIterator \<Rightarrow> iterator" where
  "rit_abs (RocksIterator i p) = map_it strip1 (view i)"
| "rit_abs (ErrorIterator e) = \<lparr>it_before = [], it_at = None, it_after = []\<rparr>"

lemma rit_reads:
  "rit_Valid P it = it_Valid (rit_abs it)" "rit_Key P it = it_Key (rit_abs it)" "rit_Value P it = it_Value (rit_abs it)"
  by (cases it; simp add: entry it_Valid_def it_Key_def it_Value_def map_it_def strip1_def split: option.split)+

lemma new_iterator:
  "rit_ok (Engine_NewIterator P db c opts) \<and>
   rit_abs (Engine_NewIterator P db c opts) = NewIterator (abs_store (contents db) c) opts"
proof (cases "cfPrefix c")
  case (Inl e)
  then show ?thesis by (simp add: Engine_NewIterator_def abs_store_def NewIterator_def)
next
  case (Inr p)
  let ?lo = "case opt_LowerBound opts of Some lo \<Rightarrow> prefixKey p lo | None \<Rightarrow> [p]"
  let ?hi = "case opt_UpperBound opts of Some hi \<Rightarrow> prefixKey p hi | None \<Rightarrow> cfUpperBound p"
  let ?b = "\<lparr>opt_LowerBound = Some ?lo, opt_UpperBound = Some ?hi\<rparr>"
  note less = cfPrefix_less [OF Inr]
  have b: "in_bounds ?b (fst e) \<longleftrightarrow> has_prefix p e \<and> in_bounds opts (stripPrefix (fst e))" for e
  proof (cases "fst e")
    case Nil
    then show ?thesis by (auto simp: in_bounds_def has_prefix_def prefixKey_def split: option.splits)
  next
    case (Cons q k)
    have "q < p + 1 \<Longrightarrow> p \<le> q \<Longrightarrow> q = p" using less by (metis antisym inc_le leD not_le)
    moreover from this have "q < p + 1 \<Longrightarrow> \<not> p < q" by (metis less_imp_le less_irrefl)
    ultimately show ?thesis using Cons less
      by (auto simp: in_bounds_def has_prefix_def prefixKey_def cfUpperBound_def split: option.splits)
  qed
  have "filter (\<lambda>e. in_bounds ?b (fst e)) es = filter (\<lambda>e. in_bounds opts (stripPrefix (fst e))) (filter (has_prefix p) es)" for es
    by (simp add: b conj_commute)
  moreover have "list_all (has_prefix p) (filter (\<lambda>e. in_bounds ?b (fst e)) (contents db))"
    by (simp add: b list_all_iff)
  ultimately show ?thesis
    by (simp add: Engine_NewIterator_def Inr new_iter cf_sorted_filter sorted)
      (simp add: NewIterator_def map_it_def abs_store_def Inr strip_cf_def filter_map comp_def strip1_def)
qed

lemma rit_moves:
  assumes "rit_ok it"
  shows "rit_ok (rit_move P m it) \<and> rit_abs (rit_move P m it) = move_it m (rit_abs it)"
proof (cases it)
  case (ErrorIterator e)
  then show ?thesis
    by (cases m) (simp_all add: rit_SeekToFirst_def rit_SeekToLast_def rit_Seek_def rit_SeekForPrev_def rit_Next_def
        rit_Prev_def SeekToFirst_def SeekToLast_def Seek_def SeekForPrev_def it_Next_def it_Prev_def it_all_def it_at_head_def)
next
  case (RocksIterator i p)
  have ok: "cf_sorted (it_all (view i))" "\<And>e. e \<in> set (it_all (view i)) \<Longrightarrow> has_prefix p e"
    using assms RocksIterator by (simp_all add: list_all_iff)
  have lt: "fst (strip1 e) < t \<longleftrightarrow> fst e < prefixKey p t" if "e \<in> set (it_all (view i))" for e t
    using ok(2) [OF that] by (auto simp: has_prefix_def strip1_def prefixKey_def)
  show ?thesis
  proof (cases m)
    case (MSeekForPrev t)
    let ?j = "pb_SeekGE P (prefixKey p t) (pb_SeekLT P (prefixKey p t) i)"
    have j: "view ?j = Seek (prefixKey p t) (view i)" by (simp add: seek_ge Seek_def seek_lt)
    have s: "map_it strip1 (view ?j) = Seek t (map_it strip1 (view i))" unfolding j by (rule map_it_Seek) (rule lt)
    have at: "it_at (Seek t (map_it strip1 (view i))) = map_option strip1 (it_at (view ?j))"
      unfolding s [symmetric] by (simp add: map_it_def)
    have "cf_sorted (it_all (map_it strip1 (view i)))"
    proof -
      have "filter (has_prefix p) (it_all (view i)) = it_all (view i)" using ok(2) by (intro filter_True) blast
      then show ?thesis using cf_sorted_strip [OF ok(1), of p] by (simp add: strip_cf_def)
    qed
    note prev = SeekForPrev_by_Seek [OF this, of t]
    show ?thesis
      using assms RocksIterator s at j
      by (auto simp: MSeekForPrev rit_SeekForPrev_def prev Let_def entry last prev_law strip1_def split: option.splits)
  qed (use assms RocksIterator lt in \<open>simp_all add: rit_SeekToFirst_def rit_SeekToLast_def rit_Seek_def rit_Next_def rit_Prev_def
        first last seek_ge next_law prev_law map_it_Seek\<close>)
qed

lemma rit_run:
  assumes "rit_ok it"
  shows "rit_abs (fold (rit_move P) ms it) = fold move_it ms (rit_abs it)"
  using assms
proof (induction ms arbitrary: it)
  case (Cons m ms)
  then show ?case using rit_moves [OF Cons.prems, of m] by simp
qed simp

end

subsection \<open>A log-structured instance\<close>

text \<open>The database as the log of its operations, replayed into the ordered entries: the
  contract of Pebble has a model.\<close>

definition replay :: "batch_op list \<Rightarrow> cf" where
  "replay log = fold batch_apply log []"

definition SeekLT :: "bytes \<Rightarrow> iterator \<Rightarrow> iterator" where
  "SeekLT target it =
     (let es = it_all it; rest = dropWhile (\<lambda>e. fst e < target) es in
      case rev (takeWhile (\<lambda>e. fst e < target) es) of
        [] \<Rightarrow> \<lparr>it_before = [], it_at = None, it_after = rest\<rparr>
      | e # before \<Rightarrow> \<lparr>it_before = before, it_at = Some e, it_after = rest\<rparr>)"

definition logPebble :: "(batch_op list, iterator) Pebble" where
  "logPebble =
     \<lparr>pb_Get = (\<lambda>log k. cf_get (replay log) k),
      pb_Set = (\<lambda>k v log. log @ [BSet k v]),
      pb_Delete = (\<lambda>k log. log @ [BDelete k]),
      pb_DeleteRange = (\<lambda>k k' log. log @ [BDeleteRange k k']),
      pb_Commit = (\<lambda>ops log. log @ ops),
      pb_NewIter = (\<lambda>lo hi log. NewIterator (replay log) \<lparr>opt_LowerBound = Some lo, opt_UpperBound = Some hi\<rparr>),
      pb_First = SeekToFirst, pb_Last = SeekToLast, pb_SeekGE = Seek, pb_SeekLT = SeekLT,
      pb_Next = it_Next, pb_Prev = it_Prev, pb_Entry = it_at\<rparr>"

lemma replay_sorted: "cf_sorted (replay log)"
proof -
  have "cf_sorted (batch_apply b es)" if "cf_sorted es" for b es
    using that by (cases b) (simp_all add: cf_simps)
  then have "cf_sorted (fold batch_apply log es)" if "cf_sorted es" for es
    using that by (induction log arbitrary: es) simp_all
  then show ?thesis by (simp add: replay_def cf_sorted_def)
qed

lemma it_all_SeekLT: "it_all (SeekLT t it) = it_all it"
  by (cases "rev (takeWhile (\<lambda>e. fst e < t) (it_all it))")
    (simp_all add: SeekLT_def it_all_def [of "\<lparr>it_before = _, it_at = _, it_after = _\<rparr>"] rev_swap Let_def,
     metis append_Nil takeWhile_dropWhile_id, metis append.assoc append_Cons append_Nil takeWhile_dropWhile_id)

interpretation log_pebble: pebble logPebble replay "\<lambda>it. it"
  by unfold_locales (simp_all add: logPebble_def replay_sorted it_all_SeekLT, simp_all add: replay_def)

subsection \<open>Properties\<close>

text \<open>C19: The engine over Pebble implements the column family interface. Under the documented
  behaviour of Pebble every read, write and range deletion of a column family, through the
  prefixed keys, is the operation of the interface on that column family and leaves the
  others alone; unknown names fail with the documented error; a write batch applies exactly
  its operations in order and fails at its first unknown column family; rolling back to a save
  point restores the batch.\<close>

theorem rocks_refines_engine:
  assumes "pebble P contents view"
  shows "Engine_Get P db c k = eng_get (abs_store (contents db)) c k \<and>
    snapshot_Get P (Engine_NewSnapshot db) c k = eng_get (abs_store (contents db)) c k \<and>
    map_sum id (abs_store \<circ> contents) (Engine_Put P db c k v) = eng_put (abs_store (contents db)) c k v \<and>
    map_sum id (abs_store \<circ> contents) (Engine_Delete P db c k) = eng_delete (abs_store (contents db)) c k \<and>
    map_sum id (abs_store \<circ> contents) (Engine_DeleteRange P db c k k') = eng_delete_range (abs_store (contents db)) c k k' \<and>
    (if list_all (known_cf \<circ> op_cf) ops
     then \<exists>wb. batch_adds ops NewWriteBatch = Inr wb \<and> wb_count wb = int (length ops) \<and>
       abs_store (contents (writeBatch_Commit P wb db)) = wb_commit ops (abs_store (contents db))
     else batch_adds ops NewWriteBatch = Inl (ErrCFNotFound (op_cf (hd (dropWhile (known_cf \<circ> op_cf) ops))))) \<and>
    (batch_adds ops (SetSavePoint wb0) = Inr wb1 \<longrightarrow> RollbackToSavePoint wb1 = Inr wb0)"
proof (intro conjI impI)
  note points = pebble.point_ops [OF assms]
  show "Engine_Get P db c k = eng_get (abs_store (contents db)) c k" by (rule points)
  show "snapshot_Get P (Engine_NewSnapshot db) c k = eng_get (abs_store (contents db)) c k"
    using points(1) [of db c k] by (simp add: snapshot_Get_def Engine_NewSnapshot_def Engine_Get_def)
  show "if list_all (known_cf \<circ> op_cf) ops
     then \<exists>wb. batch_adds ops NewWriteBatch = Inr wb \<and> wb_count wb = int (length ops) \<and>
       abs_store (contents (writeBatch_Commit P wb db)) = wb_commit ops (abs_store (contents db))
     else batch_adds ops NewWriteBatch = Inl (ErrCFNotFound (op_cf (hd (dropWhile (known_cf \<circ> op_cf) ops))))"
    using batch_adds_known [of ops NewWriteBatch] batch_adds_unknown [of ops NewWriteBatch]
      pebble.batch_commit [OF assms, of ops _ db]
    by (auto simp: NewWriteBatch_def)
qed (rule pebble.point_ops [OF assms] save_point_restores; assumption?)+

theorem rocks_refines_engine_witness:
  "pebble logPebble replay (\<lambda>it. it) \<and>
   Engine_Get logPebble [BSet [2, 7] [9], BDelete [1, 7]] CFWrite [7] = Inr [9] \<and>
   Engine_Get logPebble [BSet [2, 7] [9], BDelete [1, 7]] CFLock [7] = Inl ErrNotFound"
proof -
  have p: "pebble logPebble replay (\<lambda>it. it)" ..
  have r: "replay [BSet [2, 7] [9], BDelete [1, 7]] = [([2, 7], [9])]" by (simp add: replay_def cf_delete_def)
  show ?thesis
    using rocks_refines_engine [OF p, of "[BSet [2, 7] [9], BDelete [1, 7]]" CFWrite "[7]"]
      rocks_refines_engine [OF p, of "[BSet [2, 7] [9], BDelete [1, 7]]" CFLock "[7]"] p
    by (simp add: r eng_get_def abs_store_def cfPrefix_def cfPrefixMap_def cf_get_def strip_cf_def has_prefix_def strip1_def)
qed



end
