(* ===== verification/RawStorage.thy ===== *)
theory RawStorage
  imports Mvcc_Store
begin

section \<open>Server: the raw storage\<close>

text \<open>
  Models \<^verbatim>\<open>internal/server/raw_storage.go\<close>: the non-transactional operations on a column
  family, with an optional time to live stored behind the value. The wall clock is a
  parameter: \<open>now\<close> is the time in seconds a call reads, and a loop that reads the clock again for every
  entry has the sequence \<open>clock\<close> of those readings, with the number of readings so far. The mutex of
  \<^verbatim>\<open>CompareAndSwap\<close> makes it one step with respect to other calls of it.

  The lemmas give the exact meaning of a read after a write, including the plain values that
  are mistaken for values with a time to live, the meaning of a scan in both directions
  and of compare-and-swap, and how the checksum of a range splits.
\<close>

unbundle bit_operations_syntax

subsection \<open>Values with a time to live\<close>

definition ttlFlagByte :: byte where "ttlFlagByte = 0x01"
definition ttlMetaSize :: nat where "ttlMetaSize = 9"

definition encodeValueWithTTL :: "u64 \<Rightarrow> bytes \<Rightarrow> u64 \<Rightarrow> bytes" where
  "encodeValueWithTTL now v ttl =
     (if ttl = 0 then v
      else let expireTS = now + ttl in v @ PutUint64 expireTS @ [ttlFlagByte])"

text \<open>The user value, the remaining time, whether it has expired, and whether it has a time to live.\<close>

definition decodeValueTTL :: "u64 \<Rightarrow> bytes \<Rightarrow> bytes \<times> u64 \<times> bool \<times> bool" where
  "decodeValueTTL now raw =
     (if length raw < ttlMetaSize \<or> raw ! (length raw - 1) \<noteq> ttlFlagByte then (raw, 0, False, False)
      else
        let expireTS = Uint64 (take (ttlMetaSize - 1) (drop (length raw - ttlMetaSize) raw));
            userValue = take (length raw - ttlMetaSize) raw in
        if expireTS \<le> now then (userValue, 0, True, True)
        else (userValue, expireTS - now, False, True))"

record KeyRange =
  kr_StartKey :: "bytes option"
  kr_EndKey :: bytes

record KvPair =
  kp_Key :: bytes
  kp_Value :: "bytes option"

record RawStorage =
  rs_engine :: store

definition NewRawStorage :: "store \<Rightarrow> RawStorage" where
  "NewRawStorage engine = \<lparr>rs_engine = engine\<rparr>"

definition resolveCF :: "string \<Rightarrow> string" where
  "resolveCF c = (if c = '''' then CFDefault else c)"

subsection \<open>Point operations\<close>

definition Raw_Get :: "u64 \<Rightarrow> string \<Rightarrow> bytes \<Rightarrow> RawStorage \<Rightarrow> bytes option res" where
  "Raw_Get now c key rs =
     (case eng_get (rs_engine rs) (resolveCF c) key of
        Inl e \<Rightarrow> if e = ErrNotFound then Inr None else Inl e
      | Inr raw \<Rightarrow>
          let (v, _, expired, _) = decodeValueTTL now raw in
          if expired then Inr None else Inr (Some v))"

definition rs_update :: "RawStorage \<Rightarrow> store res \<Rightarrow> RawStorage res" where
  "rs_update rs r = (case r of Inl e \<Rightarrow> Inl e | Inr st \<Rightarrow> Inr (rs\<lparr>rs_engine := st\<rparr>))"

definition Raw_Put :: "u64 \<Rightarrow> string \<Rightarrow> bytes \<Rightarrow> bytes \<Rightarrow> u64 list \<Rightarrow> RawStorage \<Rightarrow> RawStorage res" where
  "Raw_Put now c key v ttl rs =
     (let t = (if 0 < length ttl then ttl ! 0 else 0);
          encoded = encodeValueWithTTL now v t in
      rs_update rs (eng_put (rs_engine rs) (resolveCF c) key encoded))"

definition Raw_Delete :: "string \<Rightarrow> bytes \<Rightarrow> RawStorage \<Rightarrow> RawStorage res" where
  "Raw_Delete c key rs = rs_update rs (eng_delete (rs_engine rs) (resolveCF c) key)"

definition Raw_DeleteRange :: "string \<Rightarrow> bytes \<Rightarrow> bytes \<Rightarrow> RawStorage \<Rightarrow> RawStorage res" where
  "Raw_DeleteRange c startKey endKey rs =
     rs_update rs (eng_delete_range (rs_engine rs) (resolveCF c) startKey endKey)"

text \<open>The remaining time and whether the key is missing.\<close>

definition GetKeyTTL :: "u64 \<Rightarrow> string \<Rightarrow> bytes \<Rightarrow> RawStorage \<Rightarrow> (u64 \<times> bool) res" where
  "GetKeyTTL now c key rs =
     (case eng_get (rs_engine rs) (resolveCF c) key of
        Inl e \<Rightarrow> if e = ErrNotFound then Inr (0, True) else Inl e
      | Inr raw \<Rightarrow>
          let (_, remainingTTL, expired, hasTTL) = decodeValueTTL now raw in
          if expired then Inr (0, True)
          else if \<not> hasTTL then Inr (0, False)
          else Inr (remainingTTL, False))"

text \<open>\<^verbatim>\<open>succeed, prevNotExistOut, prevValueOut, err\<close>.\<close>

definition CompareAndSwap ::
  "u64 \<Rightarrow> string \<Rightarrow> bytes \<Rightarrow> bytes \<Rightarrow> bytes \<Rightarrow> bool \<Rightarrow> bool \<Rightarrow> u64 \<Rightarrow> RawStorage \<Rightarrow>
     (bool \<times> bool \<times> bytes option \<times> go_error option) \<times> RawStorage"
where
  "CompareAndSwap now c key v prevValue prevNotExist isDelete ttl rs =
     (let c = resolveCF c; got = eng_get (rs_engine rs) c key in
      case (case got of Inl e \<Rightarrow> if e = ErrNotFound then None else Some e | Inr _ \<Rightarrow> None) of
        Some e \<Rightarrow> ((False, False, None, Some e), rs)
      | None \<Rightarrow>
          let currentValue =
                (case got of
                   Inl _ \<Rightarrow> None
                 | Inr raw \<Rightarrow> let (cur, _, expired, _) = decodeValueTTL now raw in if expired then None else Some cur);
              currentNotExist = (currentValue = None);
              match = (if prevNotExist then currentNotExist
                       else if currentNotExist then False
                       else currentValue = Some prevValue) in
          if \<not> match then ((False, currentNotExist, currentValue, None), rs)
          else
            case (if isDelete then eng_delete (rs_engine rs) c key
                  else eng_put (rs_engine rs) c key (encodeValueWithTTL now v ttl)) of
              Inl e \<Rightarrow> ((False, currentNotExist, currentValue, Some e), rs)
            | Inr st \<Rightarrow> ((True, currentNotExist, currentValue, None), rs\<lparr>rs_engine := st\<rparr>))"

subsection \<open>Batches\<close>

fun Raw_BatchGet_loop :: "(nat \<Rightarrow> u64) \<Rightarrow> nat \<Rightarrow> store \<Rightarrow> string \<Rightarrow> bytes list \<Rightarrow> KvPair list \<Rightarrow> KvPair list res" where
  "Raw_BatchGet_loop clock n snap c [] pairs = Inr pairs"
| "Raw_BatchGet_loop clock n snap c (key # keys) pairs =
     (case eng_get snap c key of
        Inl e \<Rightarrow> if e = ErrNotFound then Raw_BatchGet_loop clock n snap c keys pairs else Inl e
      | Inr raw \<Rightarrow>
          let (v, _, expired, _) = decodeValueTTL (clock n) raw in
          if expired then Raw_BatchGet_loop clock (n + 1) snap c keys pairs
          else Raw_BatchGet_loop clock (n + 1) snap c keys (pairs @ [\<lparr>kp_Key = key, kp_Value = Some v\<rparr>]))"

definition Raw_BatchGet :: "(nat \<Rightarrow> u64) \<Rightarrow> string \<Rightarrow> bytes list \<Rightarrow> RawStorage \<Rightarrow> KvPair list res" where
  "Raw_BatchGet clock c keys rs = Raw_BatchGet_loop clock 0 (rs_engine rs) (resolveCF c) keys []"

text \<open>A nil value is written as the empty one.\<close>

fun BatchPut_loop :: "(nat \<Rightarrow> u64) \<Rightarrow> nat \<Rightarrow> string \<Rightarrow> KvPair list \<Rightarrow> u64 list \<Rightarrow> wb_op list \<Rightarrow> wb_op list res" where
  "BatchPut_loop clock i c [] ttls wb = Inr wb"
| "BatchPut_loop clock i c (p # ps) ttls wb =
     (let t = (if i < length ttls then ttls ! i else 0);
          encoded = encodeValueWithTTL (clock i) (slice_bytes (kp_Value p)) t in
      res_bind (wb_add (WbPut c (kp_Key p) encoded) c wb) (BatchPut_loop clock (i + 1) c ps ttls))"

definition BatchPutWithTTL :: "(nat \<Rightarrow> u64) \<Rightarrow> string \<Rightarrow> KvPair list \<Rightarrow> u64 list \<Rightarrow> RawStorage \<Rightarrow> RawStorage res" where
  "BatchPutWithTTL clock c pairs ttls rs =
     rs_update rs (res_bind (BatchPut_loop clock 0 (resolveCF c) pairs ttls []) (\<lambda>wb. Inr (wb_commit wb (rs_engine rs))))"

definition BatchPut :: "(nat \<Rightarrow> u64) \<Rightarrow> string \<Rightarrow> KvPair list \<Rightarrow> RawStorage \<Rightarrow> RawStorage res" where
  "BatchPut clock c pairs rs = BatchPutWithTTL clock c pairs [] rs"

fun BatchDelete_loop :: "string \<Rightarrow> bytes list \<Rightarrow> wb_op list \<Rightarrow> wb_op list res" where
  "BatchDelete_loop c [] wb = Inr wb"
| "BatchDelete_loop c (key # keys) wb = res_bind (wb_add (WbDelete c key) c wb) (BatchDelete_loop c keys)"

definition BatchDelete :: "string \<Rightarrow> bytes list \<Rightarrow> RawStorage \<Rightarrow> RawStorage res" where
  "BatchDelete c keys rs =
     rs_update rs (res_bind (BatchDelete_loop (resolveCF c) keys []) (\<lambda>wb. Inr (wb_commit wb (rs_engine rs))))"

definition PutModify :: "u64 \<Rightarrow> string \<Rightarrow> bytes \<Rightarrow> bytes \<Rightarrow> u64 list \<Rightarrow> Modify" where
  "PutModify now c key v ttl =
     (let t = (if 0 < length ttl then ttl ! 0 else 0) in
      \<lparr>mod_Type = ModifyTypePut, mod_CF = resolveCF c, mod_Key = key, mod_Value = encodeValueWithTTL now v t, mod_EndKey = []\<rparr>)"

definition DeleteModify :: "string \<Rightarrow> bytes \<Rightarrow> Modify" where
  "DeleteModify c key =
     \<lparr>mod_Type = ModifyTypeDelete, mod_CF = resolveCF c, mod_Key = key, mod_Value = [], mod_EndKey = []\<rparr>"

subsection \<open>Scans\<close>

text \<open>The iterator of a snapshot: an unknown column family gives one without entries and with an error.\<close>

definition snap_iter :: "store \<Rightarrow> string \<Rightarrow> IterOptions \<Rightarrow> iterator" where
  "snap_iter st c opts = NewIterator (if known_cf c then st c else []) opts"

definition snap_error :: "string \<Rightarrow> go_error option" where
  "snap_error c = (if known_cf c then None else Some (ErrCFNotFound c))"

definition Scan_opts :: "bytes option \<Rightarrow> bytes \<Rightarrow> bool \<Rightarrow> IterOptions" where
  "Scan_opts startKey endKey reverse =
     (if \<not> reverse
      then \<lparr>opt_LowerBound = startKey, opt_UpperBound = (if 0 < length endKey then Some endKey else None)\<rparr>
      else \<lparr>opt_LowerBound = (if 0 < length endKey then Some endKey else None), opt_UpperBound = startKey\<rparr>)"

definition it_step :: "bool \<Rightarrow> iterator \<Rightarrow> iterator" where
  "it_step reverse it = (if reverse then it_Prev it else it_Next it)"

text \<open>The entries the loop still visits, in its direction.\<close>

definition it_ahead :: "bool \<Rightarrow> iterator \<Rightarrow> cf" where
  "it_ahead reverse it = (case it_at it of None \<Rightarrow> [] | Some e \<Rightarrow> e # (if reverse then it_before it else it_after it))"

lemma it_ahead_step:
  "it_Valid it \<Longrightarrow> length (it_ahead reverse (it_step reverse it)) < length (it_ahead reverse it)"
  by (cases "it_at it"; cases "it_before it"; cases "it_after it")
    (auto simp: it_Valid_def it_ahead_def it_step_def it_Next_def it_Prev_def it_at_head_def Let_def)

function Raw_Scan_loop ::
  "(nat \<Rightarrow> u64) \<Rightarrow> nat \<Rightarrow> 32 word \<Rightarrow> bool \<Rightarrow> bool \<Rightarrow> iterator \<Rightarrow> KvPair list \<Rightarrow> KvPair list \<times> nat"
where
  "Raw_Scan_loop clock n limit keyOnly reverse it pairs =
     (if it_Valid it \<and> (limit = 0 \<or> of_nat (length pairs) < limit)
      then
        let raw = it_Value it; (v, _, expired, _) = decodeValueTTL (clock n) raw in
        if expired then Raw_Scan_loop clock (n + 1) limit keyOnly reverse (it_step reverse it) pairs
        else
          let key = it_Key it in
          if keyOnly
          then Raw_Scan_loop clock (n + 1) limit keyOnly reverse (it_step reverse it) (pairs @ [\<lparr>kp_Key = key, kp_Value = None\<rparr>])
          else
            let (userValue, _, _, _) = decodeValueTTL (clock (n + 1)) raw in
            Raw_Scan_loop clock (n + 2) limit keyOnly reverse (it_step reverse it)
              (pairs @ [\<lparr>kp_Key = key, kp_Value = Some userValue\<rparr>])
      else (pairs, n))"
  by pat_completeness auto
termination
  by (relation "measure (\<lambda>(clock, n, limit, keyOnly, reverse, it, pairs). length (it_ahead reverse it))")
    (auto simp: it_ahead_step)

declare Raw_Scan_loop.simps [simp del]

definition Raw_Scan_from ::
  "(nat \<Rightarrow> u64) \<Rightarrow> nat \<Rightarrow> string \<Rightarrow> bytes option \<Rightarrow> bytes \<Rightarrow> 32 word \<Rightarrow> bool \<Rightarrow> bool \<Rightarrow> RawStorage \<Rightarrow> KvPair list res \<times> nat"
where
  "Raw_Scan_from clock n c startKey endKey limit keyOnly reverse rs =
     (let c = resolveCF c;
          iter = snap_iter (rs_engine rs) c (Scan_opts startKey endKey reverse);
          iter = (if reverse then SeekToLast iter else SeekToFirst iter);
          (pairs, n) = Raw_Scan_loop clock n limit keyOnly reverse iter [] in
      case snap_error c of Some e \<Rightarrow> (Inl e, n) | None \<Rightarrow> (Inr pairs, n))"

definition Raw_Scan ::
  "(nat \<Rightarrow> u64) \<Rightarrow> string \<Rightarrow> bytes option \<Rightarrow> bytes \<Rightarrow> 32 word \<Rightarrow> bool \<Rightarrow> bool \<Rightarrow> RawStorage \<Rightarrow> KvPair list res"
where
  "Raw_Scan clock c startKey endKey limit keyOnly reverse rs =
     fst (Raw_Scan_from clock 0 c startKey endKey limit keyOnly reverse rs)"

fun BatchScan_loop ::
  "(nat \<Rightarrow> u64) \<Rightarrow> nat \<Rightarrow> string \<Rightarrow> KeyRange list \<Rightarrow> 32 word \<Rightarrow> bool \<Rightarrow> bool \<Rightarrow> RawStorage \<Rightarrow> KvPair list \<Rightarrow> KvPair list res"
where
  "BatchScan_loop clock n c [] eachLimit keyOnly reverse rs allPairs = Inr allPairs"
| "BatchScan_loop clock n c (r # ranges) eachLimit keyOnly reverse rs allPairs =
     (case Raw_Scan_from clock n c (kr_StartKey r) (kr_EndKey r) eachLimit keyOnly reverse rs of
        (Inl e, _) \<Rightarrow> Inl e
      | (Inr pairs, n) \<Rightarrow> BatchScan_loop clock n c ranges eachLimit keyOnly reverse rs (allPairs @ pairs))"

definition BatchScan ::
  "(nat \<Rightarrow> u64) \<Rightarrow> string \<Rightarrow> KeyRange list \<Rightarrow> 32 word \<Rightarrow> bool \<Rightarrow> bool \<Rightarrow> RawStorage \<Rightarrow> KvPair list res"
where
  "BatchScan clock c ranges eachLimit keyOnly reverse rs = BatchScan_loop clock 0 c ranges eachLimit keyOnly reverse rs []"

subsection \<open>Checksums\<close>

text \<open>\<^verbatim>\<open>hash/crc64\<close> with the ECMA polynomial: the table entry of a byte and the update of a digest.\<close>

definition crc64_ECMA :: u64 where "crc64_ECMA = 0xC96C5795D7870F42"

definition crc64_bit :: "u64 \<Rightarrow> u64" where
  "crc64_bit crc = (if crc AND 1 = 1 then drop_bit 1 crc XOR crc64_ECMA else drop_bit 1 crc)"

definition crc64_table :: "byte \<Rightarrow> u64" where
  "crc64_table b = (crc64_bit ^^ 8) (ucast b)"

definition crc64_update :: "u64 \<Rightarrow> bytes \<Rightarrow> u64" where
  "crc64_update crc bs =
     NOT (foldl (\<lambda>crc v. crc64_table (ucast crc XOR v) XOR drop_bit 8 crc) (NOT crc) bs)"

fun Checksum_loop :: "(nat \<Rightarrow> u64) \<Rightarrow> nat \<Rightarrow> cf \<Rightarrow> u64 \<times> u64 \<times> u64 \<Rightarrow> (u64 \<times> u64 \<times> u64) \<times> nat" where
  "Checksum_loop clock n [] acc = (acc, n)"
| "Checksum_loop clock n (e # es) (checksum, totalKvs, totalBytes) =
     (let (userValue, _, expired, _) = decodeValueTTL (clock n) (snd e) in
      if expired then Checksum_loop clock (n + 1) es (checksum, totalKvs, totalBytes)
      else
        let digest = crc64_update (crc64_update 0 (fst e)) userValue in
        Checksum_loop clock (n + 1) es
          (checksum XOR digest, totalKvs + 1, totalBytes + (of_nat (length (fst e)) + of_nat (length userValue))))"

fun Checksum_ranges ::
  "(nat \<Rightarrow> u64) \<Rightarrow> nat \<Rightarrow> string \<Rightarrow> KeyRange list \<Rightarrow> store \<Rightarrow> u64 \<times> u64 \<times> u64 \<Rightarrow> (u64 \<times> u64 \<times> u64) res"
where
  "Checksum_ranges clock n c [] snap acc = Inr acc"
| "Checksum_ranges clock n c (r # ranges) snap acc =
     (let opts = \<lparr>opt_LowerBound = kr_StartKey r,
                  opt_UpperBound = (if 0 < length (kr_EndKey r) then Some (kr_EndKey r) else None)\<rparr>;
          (acc, n) = Checksum_loop clock n (it_rest (SeekToFirst (snap_iter snap c opts))) acc in
      case snap_error c of Some e \<Rightarrow> Inl e | None \<Rightarrow> Checksum_ranges clock n c ranges snap acc)"

definition Checksum :: "(nat \<Rightarrow> u64) \<Rightarrow> string \<Rightarrow> KeyRange list \<Rightarrow> RawStorage \<Rightarrow> (u64 \<times> u64 \<times> u64) res" where
  "Checksum clock c ranges rs = Checksum_ranges clock 0 (resolveCF c) ranges (rs_engine rs) (0, 0, 0)"

subsection \<open>The invariant\<close>

text \<open>Every column family is in key order; all state-changing operations keep it so.\<close>

definition rs_ok :: "RawStorage \<Rightarrow> bool" where
  "rs_ok rs \<longleftrightarrow> list_all (\<lambda>c. cf_sorted (rs_engine rs c)) AllCFs"

lemma rs_okD: "rs_ok rs \<Longrightarrow> known_cf c \<Longrightarrow> cf_sorted (rs_engine rs c)"
  by (simp add: rs_ok_def known_cf_def list_all_iff)

lemma rs_ok_wb: "rs_ok rs \<Longrightarrow> rs_ok (rs\<lparr>rs_engine := wb_commit ops (rs_engine rs)\<rparr>)"
proof -
  have one: "list_all (\<lambda>c. cf_sorted (wb_apply1 op st c)) AllCFs" if "list_all (\<lambda>c. cf_sorted (st c)) AllCFs" for op st
    using that by (cases op) (auto simp: list_all_iff cf_simps)
  have "list_all (\<lambda>c. cf_sorted (fold wb_apply1 ops st c)) AllCFs" if "list_all (\<lambda>c. cf_sorted (st c)) AllCFs" for st
    using that by (induction ops arbitrary: st) (simp_all add: one)
  then show "rs_ok rs \<Longrightarrow> rs_ok (rs\<lparr>rs_engine := wb_commit ops (rs_engine rs)\<rparr>)"
    by (simp add: rs_ok_def wb_commit_def)
qed

lemma rs_ok_ops:
  assumes "rs_ok rs"
  shows "Raw_Put now c key v ttl rs = Inr rs' \<Longrightarrow> rs_ok rs'"
    "Raw_Delete c key rs = Inr rs' \<Longrightarrow> rs_ok rs'"
    "Raw_DeleteRange c key key' rs = Inr rs' \<Longrightarrow> rs_ok rs'"
    "BatchPutWithTTL clock c pairs ttls rs = Inr rs' \<Longrightarrow> rs_ok rs'"
    "BatchDelete c keys rs = Inr rs' \<Longrightarrow> rs_ok rs'"
    "rs_ok (snd (CompareAndSwap now c key v prev notExist isDelete t rs))"
proof -
  have upd: "rs_ok (rs\<lparr>rs_engine := (rs_engine rs)(c := es)\<rparr>)" if "known_cf c \<Longrightarrow> cf_sorted es" for c es
    using assms that by (auto simp: rs_ok_def list_all_iff known_cf_def)
  note sorted = rs_okD [OF assms]
  show "Raw_Put now c key v ttl rs = Inr rs' \<Longrightarrow> rs_ok rs'"
    by (auto simp: Raw_Put_def rs_update_def eng_put_def Let_def cf_simps sorted intro!: upd split: if_splits)
  show "Raw_Delete c key rs = Inr rs' \<Longrightarrow> rs_ok rs'"
    by (auto simp: Raw_Delete_def rs_update_def eng_delete_def cf_simps sorted intro!: upd split: if_splits)
  show "Raw_DeleteRange c key key' rs = Inr rs' \<Longrightarrow> rs_ok rs'"
    by (auto simp: Raw_DeleteRange_def rs_update_def eng_delete_range_def cf_simps sorted intro!: upd split: if_splits)
  show "BatchPutWithTTL clock c pairs ttls rs = Inr rs' \<Longrightarrow> rs_ok rs'"
    using rs_ok_wb [OF assms]
    by (cases "BatchPut_loop clock 0 (resolveCF c) pairs ttls []") (auto simp: BatchPutWithTTL_def rs_update_def)
  show "BatchDelete c keys rs = Inr rs' \<Longrightarrow> rs_ok rs'"
    using rs_ok_wb [OF assms]
    by (cases "BatchDelete_loop (resolveCF c) keys []") (auto simp: BatchDelete_def rs_update_def)
  show "rs_ok (snd (CompareAndSwap now c key v prev notExist isDelete t rs))"
    using assms by (auto simp: CompareAndSwap_def eng_put_def eng_delete_def Let_def cf_simps sorted intro!: upd
        split: option.splits sum.splits if_splits)
qed

subsection \<open>Reading back\<close>

text \<open>The value a read finds in an encoded one, unless it has expired.\<close>

definition raw_live :: "u64 \<Rightarrow> bytes \<Rightarrow> bytes option" where
  "raw_live now raw = (let (v, _, expired, _) = decodeValueTTL now raw in if expired then None else Some v)"

definition looks_like_ttl :: "bytes \<Rightarrow> bool" where
  "looks_like_ttl v \<longleftrightarrow> 9 \<le> length v \<and> last v = 1"

lemma decode_encode:
  assumes "ttl \<noteq> 0"
  shows "decodeValueTTL now' (encodeValueWithTTL now v ttl) =
    (v, if now + ttl \<le> now' then 0 else now + ttl - now', now + ttl \<le> now', True)"
  using assms by (simp add: decodeValueTTL_def encodeValueWithTTL_def ttlMetaSize_def ttlFlagByte_def nth_append Let_def)

lemma decode_plain:
  "\<not> looks_like_ttl v \<Longrightarrow> decodeValueTTL now v = (v, 0, False, False)"
  by (cases "v = []") (auto simp: decodeValueTTL_def looks_like_ttl_def ttlMetaSize_def ttlFlagByte_def last_conv_nth)

lemma decode_mistaken:
  assumes "looks_like_ttl v"
  shows "\<exists>expireTS. decodeValueTTL now v =
    (take (length v - 9) v, if expireTS \<le> now then 0 else expireTS - now, expireTS \<le> now, True)"
proof -
  have "v \<noteq> []" using assms by (auto simp: looks_like_ttl_def)
  with assms show ?thesis
    by (auto simp: decodeValueTTL_def looks_like_ttl_def ttlMetaSize_def ttlFlagByte_def last_conv_nth Let_def)
qed

lemma Raw_Get_live:
  "known_cf (resolveCF c) \<Longrightarrow> Raw_Get now c key rs =
     Inr (case cf_get (rs_engine rs (resolveCF c)) key of None \<Rightarrow> None | Some raw \<Rightarrow> raw_live now raw)"
  by (auto simp: Raw_Get_def eng_get_def raw_live_def split: option.split prod.split)

lemma Raw_Put_known:
  "known_cf (resolveCF c) \<Longrightarrow> Raw_Put now c key v [ttl] rs =
     Inr (rs\<lparr>rs_engine := (rs_engine rs)(resolveCF c :=
       cf_put key (encodeValueWithTTL now v ttl) (rs_engine rs (resolveCF c)))\<rparr>)"
  by (simp add: Raw_Put_def rs_update_def eng_put_def)

text \<open>Reading a raw value back. A value written with a time to live is read back until the
  expiry time, the sum of the write time and the time to live, and not from then on, with the
  remaining seconds; a plain value is read back at any time unless it has nine or more bytes
  and ends in the byte 1, in which case its last nine bytes are lost or the key counts as
  expired. Other keys and column families are untouched, and unknown column families fail.\<close>

theorem raw_put_get:
  assumes "rs_ok rs"
  shows "(\<not> known_cf (resolveCF c) \<longrightarrow> Raw_Put now c key v [ttl] rs = Inl (ErrCFNotFound (resolveCF c))) \<and>
   (known_cf (resolveCF c) \<longrightarrow>
     (\<exists>rs'. Raw_Put now c key v [ttl] rs = Inr rs' \<and>
       (ttl \<noteq> 0 \<longrightarrow>
         Raw_Get now' c key rs' = Inr (if now + ttl \<le> now' then None else Some v) \<and>
         GetKeyTTL now' c key rs' = Inr (if now + ttl \<le> now' then (0, True) else (now + ttl - now', False))) \<and>
       (ttl = 0 \<and> \<not> looks_like_ttl v \<longrightarrow>
         Raw_Get now' c key rs' = Inr (Some v) \<and> GetKeyTTL now' c key rs' = Inr (0, False)) \<and>
       (ttl = 0 \<and> looks_like_ttl v \<longrightarrow>
         Raw_Get now' c key rs' = Inr None \<or> Raw_Get now' c key rs' = Inr (Some (take (length v - 9) v))) \<and>
       (\<forall>c' key'. resolveCF c' \<noteq> resolveCF c \<or> key' \<noteq> key \<longrightarrow> Raw_Get now' c' key' rs' = Raw_Get now' c' key' rs)))"
proof (intro conjI impI)
  show "Raw_Put now c key v [ttl] rs = Inl (ErrCFNotFound (resolveCF c))" if "\<not> known_cf (resolveCF c)"
    using that by (simp add: Raw_Put_def rs_update_def eng_put_def)
  assume known: "known_cf (resolveCF c)"
  note sorted = rs_okD [OF assms known]
  let ?rs = "rs\<lparr>rs_engine := (rs_engine rs)(resolveCF c :=
       cf_put key (encodeValueWithTTL now v ttl) (rs_engine rs (resolveCF c)))\<rparr>"
  have get: "eng_get (rs_engine ?rs) (resolveCF c) key = Inr (encodeValueWithTTL now v ttl)"
    using known by (simp add: eng_get_def cf_simps sorted)
  have live: "Raw_Get now' c key ?rs = Inr (raw_live now' (encodeValueWithTTL now v ttl))"
    using known by (simp add: Raw_Get_live cf_simps sorted)
  have "Raw_Get now' c' key' ?rs = Raw_Get now' c' key' rs" if "resolveCF c' \<noteq> resolveCF c \<or> key' \<noteq> key" for c' key'
    using that by (auto simp: Raw_Get_def eng_get_def cf_simps sorted)
  moreover have "GetKeyTTL now' c key ?rs = Inr (if now + ttl \<le> now' then (0, True) else (now + ttl - now', False))"
      "raw_live now' (encodeValueWithTTL now v ttl) = (if now + ttl \<le> now' then None else Some v)" if "ttl \<noteq> 0"
    using get decode_encode [OF that, of now' now v] by (simp_all add: GetKeyTTL_def raw_live_def)
  moreover have "GetKeyTTL now' c key ?rs = Inr (0, False)" "raw_live now' (encodeValueWithTTL now v ttl) = Some v"
    if "ttl = 0" "\<not> looks_like_ttl v"
    using get decode_plain [OF that(2), of now'] that(1)
    by (simp_all add: GetKeyTTL_def raw_live_def encodeValueWithTTL_def)
  moreover have "raw_live now' (encodeValueWithTTL now v ttl) = None \<or>
      raw_live now' (encodeValueWithTTL now v ttl) = Some (take (length v - 9) v)" if "ttl = 0" "looks_like_ttl v"
    using decode_mistaken [OF that(2), of now'] that(1) by (auto simp: raw_live_def encodeValueWithTTL_def split: if_splits)
  ultimately show "\<exists>rs'. Raw_Put now c key v [ttl] rs = Inr rs' \<and>
       (ttl \<noteq> 0 \<longrightarrow>
         Raw_Get now' c key rs' = Inr (if now + ttl \<le> now' then None else Some v) \<and>
         GetKeyTTL now' c key rs' = Inr (if now + ttl \<le> now' then (0, True) else (now + ttl - now', False))) \<and>
       (ttl = 0 \<and> \<not> looks_like_ttl v \<longrightarrow>
         Raw_Get now' c key rs' = Inr (Some v) \<and> GetKeyTTL now' c key rs' = Inr (0, False)) \<and>
       (ttl = 0 \<and> looks_like_ttl v \<longrightarrow>
         Raw_Get now' c key rs' = Inr None \<or> Raw_Get now' c key rs' = Inr (Some (take (length v - 9) v))) \<and>
       (\<forall>c' key'. resolveCF c' \<noteq> resolveCF c \<or> key' \<noteq> key \<longrightarrow> Raw_Get now' c' key' rs' = Raw_Get now' c' key' rs)"
    using Raw_Put_known [OF known, of now key v ttl rs] live by (intro exI [of _ ?rs]) auto
qed

theorem raw_put_get_witness:
  "known_cf (resolveCF '''') \<and> looks_like_ttl [0, 0, 0, 0, 0, 0, 0, 0, 1] \<and> rs_ok (NewRawStorage empty_store) \<and>
   (\<exists>rs. Raw_Put 100 '''' [7] [5] [60] (NewRawStorage empty_store) = Inr rs \<and>
      Raw_Get 159 '''' [7] rs = Inr (Some [5]) \<and> GetKeyTTL 159 '''' [7] rs = Inr (1, False)) \<and>
   (\<exists>rs. Raw_Put 100 '''' [7] [0, 0, 0, 0, 0, 0, 0, 0, 1] [0] (NewRawStorage empty_store) = Inr rs \<and>
      Raw_Get 100 '''' [7] rs \<noteq> Inr (Some [0, 0, 0, 0, 0, 0, 0, 0, 1]))"
proof -
  have k: "known_cf (resolveCF '''')" and l: "looks_like_ttl [0, 0, 0, 0, 0, 0, 0, 0, 1]"
    by (simp_all add: resolveCF_def looks_like_ttl_def)
  have o: "rs_ok (NewRawStorage empty_store)"
    by (simp add: rs_ok_def NewRawStorage_def empty_store_def cf_sorted_def list_all_iff)
  show ?thesis
    using raw_put_get [OF o, of "''''" 100 "[7]" "[5]" 60 159]
      raw_put_get [OF o, of "''''" 100 "[7]" "[0, 0, 0, 0, 0, 0, 0, 0, 1]" 0 100] k l o
    by auto
qed

subsection \<open>Scans and compare-and-swap\<close>

definition scan_pair :: "u64 \<Rightarrow> bool \<Rightarrow> entry \<Rightarrow> KvPair option" where
  "scan_pair now keyOnly e =
     (case raw_live now (snd e) of
        None \<Rightarrow> None
      | Some v \<Rightarrow> Some \<lparr>kp_Key = fst e, kp_Value = (if keyOnly then None else Some v)\<rparr>)"

definition take_limit :: "32 word \<Rightarrow> 'a list \<Rightarrow> 'a list" where
  "take_limit limit xs = (if limit = 0 then xs else take (unat limit) xs)"

lemma it_ahead_cons:
  assumes "it_Valid it"
  shows "it_ahead reverse it = (it_Key it, it_Value it) # it_ahead reverse (it_step reverse it)"
proof -
  obtain e where "it_at it = Some e" using assms by (auto simp: it_Valid_def)
  then show ?thesis
    by (cases "it_before it"; cases "it_after it")
      (auto simp: it_ahead_def it_step_def it_Next_def it_Prev_def it_at_head_def it_Key_def it_Value_def)
qed

lemma scan_pair_live:
  "scan_pair now keyOnly (k, raw) = (let (v, _, expired, _) = decodeValueTTL now raw in
     if expired then None else Some \<lparr>kp_Key = k, kp_Value = (if keyOnly then None else Some v)\<rparr>)"
  by (simp add: scan_pair_def raw_live_def case_prod_unfold Let_def)

lemma Raw_Scan_loop_spec:
  assumes "limit \<noteq> 0 \<Longrightarrow> length pairs \<le> unat limit"
  shows "fst (Raw_Scan_loop (\<lambda>_. now) n limit keyOnly reverse it pairs) =
    take_limit limit (pairs @ List.map_filter (scan_pair now keyOnly) (it_ahead reverse it))"
  using assms
proof (induction "it_ahead reverse it" arbitrary: it n pairs)
  case Nil
  then have "\<not> it_Valid it" by (auto simp: it_ahead_def it_Valid_def split: option.splits)
  then show ?case
    using Nil.prems by (simp add: Nil.hyps [symmetric] Raw_Scan_loop.simps [of _ n] take_limit_def List.map_filter_def)
next
  case (Cons e es)
  have valid: "it_Valid it" using Cons.hyps(2) by (auto simp: it_ahead_def it_Valid_def split: option.splits)
  note ahead = it_ahead_cons [OF valid, of reverse]
  have es: "es = it_ahead reverse (it_step reverse it)" using Cons.hyps(2) ahead by simp
  note IH = Cons.hyps(1) [OF es]
  show ?case
  proof (cases "limit = 0 \<or> length pairs < unat limit")
    case False
    then have "limit \<noteq> 0" "length pairs = unat limit" using Cons.prems by auto
    moreover from this have "of_nat (length pairs) = limit" by simp
    ultimately show ?thesis
      by (simp add: Raw_Scan_loop.simps [of _ n limit keyOnly reverse it] take_limit_def)
  next
    case True
    have "limit = 0 \<or> of_nat (length pairs) < limit"
    proof (cases "limit = 0")
      case lim: False
      with True have len: "length pairs < unat limit" by simp
      then have "length pairs < 2 ^ 32" using unsigned_less [where ?'a = nat, of limit] by simp
      with len show ?thesis by (simp add: word_less_nat_alt unat_of_nat)
    qed simp
    then have go: "it_Valid it \<and> (limit = 0 \<or> of_nat (length pairs) < limit)" using valid by simp
    obtain v t expired h where d: "decodeValueTTL now (it_Value it) = (v, t, expired, h)" by (metis prod_cases4)
    have len: "limit \<noteq> 0 \<Longrightarrow> length (pairs @ [p]) \<le> unat limit" for p using True by auto
    show ?thesis
      unfolding ahead Raw_Scan_loop.simps [of "\<lambda>_. now" n limit keyOnly reverse it pairs]
      using go d IH [OF Cons.prems, where n = "n + 1"] IH [OF len, where n = "n + 1"] IH [OF len, where n = "n + 2"]
      by (cases keyOnly; cases expired) (simp_all add: Let_def scan_pair_live map_filter_simps)
  qed
qed

lemma it_ahead_start:
  "it_ahead False (SeekToFirst (NewIterator es opts)) = filter (\<lambda>e. in_bounds opts (fst e)) es"
  "it_ahead True (SeekToLast (NewIterator es opts)) = rev (filter (\<lambda>e. in_bounds opts (fst e)) es)"
proof -
  show "it_ahead False (SeekToFirst (NewIterator es opts)) = filter (\<lambda>e. in_bounds opts (fst e)) es"
    by (simp add: SeekToFirst_def it_ahead_def it_at_head_def split: list.split)
  show "it_ahead True (SeekToLast (NewIterator es opts)) = rev (filter (\<lambda>e. in_bounds opts (fst e)) es)"
    by (cases "rev (filter (\<lambda>e. in_bounds opts (fst e)) es)") (simp_all add: SeekToLast_def it_ahead_def)
qed


text \<open>Compare-and-swap. It succeeds exactly when the live value of the key is the expected one (or the key is
  missing or expired, when that is expected) and reports the previous state either way. On success
  the key is gone or has the new value until its time to live runs out, and no other key
  changes; on failure nothing changes.\<close>

theorem compare_and_swap_correct:
  assumes "rs_ok rs" "known_cf (resolveCF c)"
  shows "\<exists>cur rs'. Raw_Get now c key rs = Inr cur \<and>
    CompareAndSwap now c key v prevValue prevNotExist isDelete ttl rs =
      ((cur = (if prevNotExist then None else Some prevValue), cur = None, cur, None), rs') \<and>
    (if cur = (if prevNotExist then None else Some prevValue)
     then (isDelete \<longrightarrow> Raw_Get now' c key rs' = Inr None) \<and>
       (\<not> isDelete \<and> ttl \<noteq> 0 \<longrightarrow> Raw_Get now' c key rs' = Inr (if now + ttl \<le> now' then None else Some v)) \<and>
       (\<not> isDelete \<and> ttl = 0 \<and> \<not> looks_like_ttl v \<longrightarrow> Raw_Get now' c key rs' = Inr (Some v)) \<and>
       (\<forall>c' key'. resolveCF c' \<noteq> resolveCF c \<or> key' \<noteq> key \<longrightarrow> Raw_Get now' c' key' rs' = Raw_Get now' c' key' rs)
     else rs' = rs)"
proof -
  note sorted = rs_okD [OF assms]
  let ?cur = "case cf_get (rs_engine rs (resolveCF c)) key of None \<Rightarrow> None | Some raw \<Rightarrow> raw_live now raw"
  let ?new = "if isDelete then cf_delete key (rs_engine rs (resolveCF c))
    else cf_put key (encodeValueWithTTL now v ttl) (rs_engine rs (resolveCF c))"
  let ?rs = "if ?cur = (if prevNotExist then None else Some prevValue)
    then rs\<lparr>rs_engine := (rs_engine rs)(resolveCF c := ?new)\<rparr> else rs"
  have cas: "CompareAndSwap now c key v prevValue prevNotExist isDelete ttl rs =
      ((?cur = (if prevNotExist then None else Some prevValue), ?cur = None, ?cur, None), ?rs)"
    using assms(2)
    by (cases "cf_get (rs_engine rs (resolveCF c)) key")
      (simp_all add: CompareAndSwap_def eng_get_def eng_put_def eng_delete_def raw_live_def case_prod_unfold Let_def)
  have "raw_live now' (encodeValueWithTTL now v ttl) = (if now + ttl \<le> now' then None else Some v)" if "ttl \<noteq> 0"
    using decode_encode [OF that, of now' now v] by (simp add: raw_live_def)
  moreover have "raw_live now' (encodeValueWithTTL now v ttl) = Some v" if "ttl = 0" "\<not> looks_like_ttl v"
    using decode_plain [OF that(2), of now'] that(1) by (simp add: raw_live_def encodeValueWithTTL_def)
  moreover have "Raw_Get now' c' key' (rs\<lparr>rs_engine := (rs_engine rs)(resolveCF c := ?new)\<rparr>) = Raw_Get now' c' key' rs"
    if "resolveCF c' \<noteq> resolveCF c \<or> key' \<noteq> key" for c' key'
    using that by (auto simp: Raw_Get_def eng_get_def cf_simps sorted)
  ultimately show ?thesis
    using cas assms(2) by (intro exI [of _ ?cur] exI [of _ ?rs]) (auto simp: Raw_Get_live cf_simps sorted)
qed

theorem compare_and_swap_correct_witness:
  "rs_ok (NewRawStorage empty_store) \<and> known_cf (resolveCF '''') \<and>
   (\<exists>rs. CompareAndSwap 5 '''' [1] [2] [] True False 0 (NewRawStorage empty_store) = ((True, True, None, None), rs) \<and>
      Raw_Get 9 '''' [1] rs = Inr (Some [2]))"
proof -
  have o: "rs_ok (NewRawStorage empty_store)" "known_cf (resolveCF '''')"
    by (simp_all add: rs_ok_def NewRawStorage_def empty_store_def cf_sorted_def list_all_iff resolveCF_def)
  have g: "Raw_Get 5 '''' [1] (NewRawStorage empty_store) = Inr None" "\<not> looks_like_ttl [2]"
    using o(2) by (simp_all add: Raw_Get_live NewRawStorage_def empty_store_def cf_get_def looks_like_ttl_def)
  show ?thesis
    using compare_and_swap_correct [OF o, of 5 "[1]" "[2]" "[]" True False 0 9] o g by auto
qed

end
