(* ===== verification/Scanner.thy ===== *)
theory Scanner
  imports StorageProperties
begin

section \<open>Package mvcc: the range scanner\<close>

text \<open>
  Models \<^verbatim>\<open>internal/storage/mvcc/scanner.go\<close> and \<^verbatim>\<open>Storage.Scan\<close>. The scanner keeps three
  cursors (write, lock and, created on demand, default) and its counters; every method is a
  function of that state. The loop over the versions of a key follows the last-change fields
  and the loop of \<^verbatim>\<open>Next\<close> moves in both directions, so both are partial functions: \<open>None\<close> is a
  call that does not return.

  The lemmas show that a forward scan terminates and agrees with point reads of the keys of
  its range, as long as every such key has a record visible at the read timestamp, and that
  it loses keys and locks otherwise.
\<close>

record ScannerConfig =
  cfg_Snapshot :: store
  cfg_ReadTS :: TimeStamp
  cfg_Desc :: bool
  cfg_IsolationLevel :: IsolationLevel
  cfg_KeyOnly :: bool
  cfg_LowerBound :: "bytes option"
  cfg_UpperBound :: "bytes option"
  cfg_BypassLocks :: "TimeStamp \<Rightarrow> bool"

record ScanStatistics =
  ss_ScannedKeys :: int
  ss_ProcessedKeys :: int
  ss_ScannedLocks :: int
  ss_DefaultReads :: int
  ss_OverSeekBound :: int

definition ScanStatistics_zero :: ScanStatistics where
  "ScanStatistics_zero = \<lparr>ss_ScannedKeys = 0, ss_ProcessedKeys = 0, ss_ScannedLocks = 0, ss_DefaultReads = 0, ss_OverSeekBound = 0\<rparr>"

record Scanner =
  sc_cfg :: ScannerConfig
  sc_writeCursor :: iterator
  sc_lockCursor :: "iterator option"
  sc_defaultCursor :: "iterator option"
  sc_isStarted :: bool
  sc_stats :: ScanStatistics

definition NewScanner :: "ScannerConfig \<Rightarrow> Scanner" where
  "NewScanner cfg =
     (let hiTS = (if \<not> cfg_Desc cfg then TSMax else 0);
          writeOpts = \<lparr>opt_LowerBound = map_option (\<lambda>k. EncodeKey k TSMax) (cfg_LowerBound cfg),
                       opt_UpperBound = map_option (\<lambda>k. EncodeKey k hiTS) (cfg_UpperBound cfg)\<rparr>;
          lockOpts = \<lparr>opt_LowerBound = map_option EncodeLockKey (cfg_LowerBound cfg),
                      opt_UpperBound = map_option EncodeLockKey (cfg_UpperBound cfg)\<rparr> in
      \<lparr>sc_cfg = cfg,
       sc_writeCursor = NewIterator (cfg_Snapshot cfg CFWrite) writeOpts,
       sc_lockCursor = (if cfg_IsolationLevel cfg = IsolationLevelSI
                        then Some (NewIterator (cfg_Snapshot cfg CFLock) lockOpts) else None),
       sc_defaultCursor = None, sc_isStarted = False, sc_stats = ScanStatistics_zero\<rparr>)"

definition TakeStatistics :: "Scanner \<Rightarrow> ScanStatistics \<times> Scanner" where
  "TakeStatistics s = (sc_stats s, s\<lparr>sc_stats := ScanStatistics_zero\<rparr>)"

subsection \<open>Cursors\<close>

definition initialSeek :: "Scanner \<Rightarrow> Scanner" where
  "initialSeek s =
     (if \<not> cfg_Desc (sc_cfg s)
      then s\<lparr>sc_writeCursor := SeekToFirst (sc_writeCursor s), sc_lockCursor := map_option SeekToFirst (sc_lockCursor s)\<rparr>
      else s\<lparr>sc_writeCursor := SeekToLast (sc_writeCursor s), sc_lockCursor := map_option SeekToLast (sc_lockCursor s)\<rparr>)"

definition writeCursorValid :: "Scanner \<Rightarrow> bool" where
  "writeCursorValid s = it_Valid (sc_writeCursor s)"

definition lockCursorValid :: "Scanner \<Rightarrow> bool" where
  "lockCursorValid s = (case sc_lockCursor s of None \<Rightarrow> False | Some it \<Rightarrow> it_Valid it)"

definition advanceWriteCursor :: "Scanner \<Rightarrow> Scanner" where
  "advanceWriteCursor s =
     s\<lparr>sc_writeCursor := (if \<not> cfg_Desc (sc_cfg s) then it_Next else it_Prev) (sc_writeCursor s)\<rparr>"

definition advanceLockCursor :: "Scanner \<Rightarrow> Scanner" where
  "advanceLockCursor s =
     s\<lparr>sc_lockCursor := map_option (if \<not> cfg_Desc (sc_cfg s) then it_Next else it_Prev) (sc_lockCursor s)\<rparr>"

definition seekWrite :: "bytes \<Rightarrow> Scanner \<Rightarrow> Scanner" where
  "seekWrite target s = s\<lparr>sc_writeCursor := Seek target (sc_writeCursor s)\<rparr>"

definition count_OverSeekBound :: "Scanner \<Rightarrow> Scanner" where
  "count_OverSeekBound s = s\<lparr>sc_stats := (sc_stats s)\<lparr>ss_OverSeekBound := ss_OverSeekBound (sc_stats s) + 1\<rparr>\<rparr>"

text \<open>The key and whether the write and the lock cursor are at it; \<open>None\<close> when neither decodes.\<close>

definition currentUserKey :: "Scanner \<Rightarrow> (bytes \<times> bool \<times> bool) option \<times> Scanner" where
  "currentUserKey s =
     (let writeUserKey = (if writeCursorValid s
                          then (case DecodeKey (it_Key (sc_writeCursor s)) of Inl _ \<Rightarrow> None | Inr (uk, _) \<Rightarrow> Some uk)
                          else None);
          lockUserKey = (if lockCursorValid s
                         then (case DecodeLockKey (it_Key (the (sc_lockCursor s))) of Inl _ \<Rightarrow> None | Inr uk \<Rightarrow> Some uk)
                         else None) in
      case (writeUserKey, lockUserKey) of
        (None, None) \<Rightarrow> (None, s)
      | (None, Some l) \<Rightarrow> (Some (l, False, True), advanceLockCursor s)
      | (Some w, None) \<Rightarrow> (Some (w, True, False), s)
      | (Some w, Some l) \<Rightarrow>
          if \<not> cfg_Desc (sc_cfg s)
          then (if w < l then (Some (w, True, False), s)
                else if l < w then (Some (l, False, True), advanceLockCursor s)
                else (Some (w, True, True), s))
          else (if l < w then (Some (w, True, False), s)
                else if w < l then (Some (l, False, True), advanceLockCursor s)
                else (Some (w, True, True), s)))"

definition handleLock :: "bytes \<Rightarrow> Scanner \<Rightarrow> mvcc_error option \<times> Scanner" where
  "handleLock userKey s =
     (if \<not> lockCursorValid s then (None, s)
      else
        case DecodeLockKey (it_Key (the (sc_lockCursor s))) of
          Inl _ \<Rightarrow> (None, s)
        | Inr lk \<Rightarrow>
            if lk \<noteq> userKey then (None, s)
            else
              let s = s\<lparr>sc_stats := (sc_stats s)\<lparr>ss_ScannedLocks := ss_ScannedLocks (sc_stats s) + 1\<rparr>\<rparr>;
                  lockData = it_Value (the (sc_lockCursor s));
                  s = advanceLockCursor s in
              case UnmarshalLock lockData of
                Inl _ \<Rightarrow> (None, s)
              | Inr lock \<Rightarrow>
                  if lock_LockType lock = LockTypePessimistic then (None, s)
                  else if lock_StartTS lock \<le> cfg_ReadTS (sc_cfg s)
                  then (if cfg_BypassLocks (sc_cfg s) (lock_StartTS lock) then (None, s)
                        else (Some (LockError userKey lock), s))
                  else (None, s))"

subsection \<open>Moving over versions\<close>

text \<open>The bounded loop of \<^verbatim>\<open>moveWriteCursorToTS\<close>: a result, or \<open>None\<close> when the bound is used up.\<close>

fun moveToTS_loop :: "nat \<Rightarrow> bytes \<Rightarrow> Scanner \<Rightarrow> bool option \<times> Scanner" where
  "moveToTS_loop 0 userKey s = (None, s)"
| "moveToTS_loop (Suc n) userKey s =
     (let s = advanceWriteCursor s in
      if \<not> writeCursorValid s then (Some False, s)
      else
        case DecodeKey (it_Key (sc_writeCursor s)) of
          Inl _ \<Rightarrow> (Some False, s)
        | Inr (uk, commitTS) \<Rightarrow>
            if uk \<noteq> userKey then (Some False, s)
            else if commitTS \<le> cfg_ReadTS (sc_cfg s) then (Some True, s)
            else moveToTS_loop n userKey s)"

definition moveWriteCursorToTS :: "bytes \<Rightarrow> Scanner \<Rightarrow> bool \<times> Scanner" where
  "moveWriteCursorToTS userKey s =
     (if \<not> writeCursorValid s then (False, s)
      else
        case DecodeKey (it_Key (sc_writeCursor s)) of
          Inl _ \<Rightarrow> (False, s)
        | Inr (uk, commitTS) \<Rightarrow>
            if uk = userKey \<and> commitTS \<le> cfg_ReadTS (sc_cfg s) then (True, s)
            else if uk = userKey \<and> cfg_ReadTS (sc_cfg s) < commitTS
            then
              (case moveToTS_loop SeekBound userKey s of
                 (Some b, s) \<Rightarrow> (b, s)
               | (None, s) \<Rightarrow>
                   let s = seekWrite (EncodeKey userKey (cfg_ReadTS (sc_cfg s))) (count_OverSeekBound s) in
                   if \<not> writeCursorValid s then (False, s)
                   else
                     case DecodeKey (it_Key (sc_writeCursor s)) of
                       Inl _ \<Rightarrow> (False, s)
                     | Inr (uk, commitTS) \<Rightarrow>
                         if uk \<noteq> userKey then (False, s) else (commitTS \<le> cfg_ReadTS (sc_cfg s), s))
            else (False, s))"

definition repositionForBackward :: "bytes \<Rightarrow> Scanner \<Rightarrow> Scanner" where
  "repositionForBackward userKey s =
     (let s = seekWrite (EncodeKey userKey TSMax) s in
      if writeCursorValid s then s\<lparr>sc_writeCursor := it_Prev (sc_writeCursor s)\<rparr>
      else s\<lparr>sc_writeCursor := SeekToLast (sc_writeCursor s)\<rparr>)"

text \<open>The bounded loop of \<^verbatim>\<open>moveWriteCursorToNextUserKey\<close>; \<open>True\<close> when it has returned.\<close>

fun nextUserKey_loop :: "nat \<Rightarrow> bytes \<Rightarrow> Scanner \<Rightarrow> bool \<times> Scanner" where
  "nextUserKey_loop 0 encodedUserKey s = (False, s)"
| "nextUserKey_loop (Suc n) encodedUserKey s =
     (let s = s\<lparr>sc_writeCursor := it_Next (sc_writeCursor s)\<rparr> in
      if \<not> writeCursorValid s then (True, s)
      else if TruncateToUserKey (it_Key (sc_writeCursor s)) \<noteq> encodedUserKey then (True, s)
      else nextUserKey_loop n encodedUserKey s)"

definition moveWriteCursorToNextUserKey :: "bytes \<Rightarrow> Scanner \<Rightarrow> Scanner" where
  "moveWriteCursorToNextUserKey userKey s =
     (if cfg_Desc (sc_cfg s) then repositionForBackward userKey s
      else
        case nextUserKey_loop SeekBound (EncodeLockKey userKey) s of
          (True, s) \<Rightarrow> s
        | (False, s) \<Rightarrow> seekWrite (EncodeKey (userKey @ [0]) TSMax) (count_OverSeekBound s))"

definition ensureDefaultCursor :: "Scanner \<Rightarrow> Scanner" where
  "ensureDefaultCursor s =
     (case sc_defaultCursor s of
        None \<Rightarrow> s\<lparr>sc_defaultCursor := Some (NewIterator (cfg_Snapshot (sc_cfg s) CFDefault) IterOptions_zero)\<rparr>
      | Some _ \<Rightarrow> s)"

definition loadValueFromDefault :: "bytes \<Rightarrow> TimeStamp \<Rightarrow> Scanner \<Rightarrow> bytes res \<times> Scanner" where
  "loadValueFromDefault userKey startTS s =
     (let s = ensureDefaultCursor s;
          s = s\<lparr>sc_stats := (sc_stats s)\<lparr>ss_DefaultReads := ss_DefaultReads (sc_stats s) + 1\<rparr>\<rparr>;
          cursor = Seek (EncodeKey userKey startTS) (the (sc_defaultCursor s));
          s = s\<lparr>sc_defaultCursor := Some cursor\<rparr> in
      if \<not> it_Valid cursor then (Inl (ErrEngine ''not found''), s)
      else
        case DecodeKey (it_Key cursor) of
          Inl e \<Rightarrow> (Inl e, s)
        | Inr (uk, ts) \<Rightarrow>
            if uk \<noteq> userKey \<or> ts \<noteq> startTS then (Inl (ErrEngine ''not found''), s)
            else (Inr (it_Value cursor), s))"

text \<open>The loop of \<^verbatim>\<open>handleWrite\<close> over the records of a key: an error, or the value and whether
  there is one.\<close>

partial_function (option) handleWrite_loop ::
  "bytes \<Rightarrow> Scanner \<Rightarrow> ((mvcc_error + bytes option \<times> bool) \<times> Scanner) option"
where
  "handleWrite_loop userKey s =
     (if \<not> writeCursorValid s then Some (Inr (None, False), s)
      else
        (case DecodeKey (it_Key (sc_writeCursor s)) of
          Inl _ \<Rightarrow> Some (Inr (None, False), moveWriteCursorToNextUserKey userKey s)
        | Inr (uk, commitTS) \<Rightarrow>
            if uk \<noteq> userKey then Some (Inr (None, False), s)
            else if cfg_ReadTS (sc_cfg s) < commitTS
            then handleWrite_loop userKey (s\<lparr>sc_writeCursor := it_Next (sc_writeCursor s)\<rparr>)
            else
              let s = s\<lparr>sc_stats := (sc_stats s)\<lparr>ss_ScannedKeys := ss_ScannedKeys (sc_stats s) + 1\<rparr>\<rparr> in
              (case UnmarshalWrite (it_Value (sc_writeCursor s)) of
                Inl _ \<Rightarrow> Some (Inr (None, False), moveWriteCursorToNextUserKey userKey s)
              | Inr w \<Rightarrow>
                  if write_WriteType w = WriteTypePut then
                    (if cfg_KeyOnly (sc_cfg s)
                     then Some (Inr (None, True), moveWriteCursorToNextUserKey userKey s)
                     else
                       (case write_ShortValue w of
                         Some v \<Rightarrow> Some (Inr (Some v, True), moveWriteCursorToNextUserKey userKey s)
                       | None \<Rightarrow>
                           (case loadValueFromDefault userKey (write_StartTS w) s of
                             (Inl e, s) \<Rightarrow> Some (Inl (MvccErr e), moveWriteCursorToNextUserKey userKey s)
                           | (Inr v, s) \<Rightarrow> Some (Inr (Some v, True), moveWriteCursorToNextUserKey userKey s))))
                  else if write_WriteType w = WriteTypeDelete
                  then Some (Inr (None, False), moveWriteCursorToNextUserKey userKey s)
                  else if write_WriteType w = WriteTypeLock \<or> write_WriteType w = WriteTypeRollback then
                    (if SeekBound \<le> unat (lc_EstimatedVersions (write_LastChange w))
                         \<and> \<not> IsZero (lc_TS (write_LastChange w))
                     then handleWrite_loop userKey
                            (count_OverSeekBound (seekWrite (EncodeKey userKey (lc_TS (write_LastChange w))) s))
                     else handleWrite_loop userKey (s\<lparr>sc_writeCursor := it_Next (sc_writeCursor s)\<rparr>))
                  else Some (Inr (None, False), moveWriteCursorToNextUserKey userKey s))))"

definition handleWrite :: "bytes \<Rightarrow> Scanner \<Rightarrow> ((mvcc_error + bytes option \<times> bool) \<times> Scanner) option" where
  "handleWrite userKey s =
     (let s = (if cfg_Desc (sc_cfg s) then seekWrite (EncodeKey userKey (cfg_ReadTS (sc_cfg s))) s else s) in
      case moveWriteCursorToTS userKey s of
        (False, s) \<Rightarrow> Some (Inr (None, False), moveWriteCursorToNextUserKey userKey s)
      | (True, s) \<Rightarrow> handleWrite_loop userKey s)"

subsection \<open>Next and Scan\<close>

definition beyondBound :: "bytes \<Rightarrow> ScannerConfig \<Rightarrow> bool" where
  "beyondBound key cfg =
     (if \<not> cfg_Desc cfg then (case cfg_UpperBound cfg of None \<Rightarrow> False | Some hi \<Rightarrow> hi \<le> key)
      else (case cfg_LowerBound cfg of None \<Rightarrow> False | Some lo \<Rightarrow> key < lo))"

partial_function (option) Next_loop ::
  "Scanner \<Rightarrow> ((mvcc_error + (bytes \<times> bytes option) option) \<times> Scanner) option"
where
  "Next_loop s =
     (if \<not> writeCursorValid s \<and> \<not> lockCursorValid s then Some (Inr None, s)
      else
        (case currentUserKey s of
          (None, s) \<Rightarrow> Some (Inr None, s)
        | (Some (key, hasWrite, hasLock), s) \<Rightarrow>
            if beyondBound key (sc_cfg s) then Some (Inr None, s)
            else
              (case (if hasLock then handleLock key s else (None, s)) of
                (Some e, s) \<Rightarrow> Some (Inl e, s)
              | (None, s) \<Rightarrow>
                  if hasWrite then
                    (case handleWrite key s of
                      None \<Rightarrow> None
                    | Some (Inl e, s) \<Rightarrow> Some (Inl e, s)
                    | Some (Inr (v, found), s) \<Rightarrow>
                        if found
                        then Some (Inr (Some (key, v)),
                          s\<lparr>sc_stats := (sc_stats s)\<lparr>ss_ProcessedKeys := ss_ProcessedKeys (sc_stats s) + 1\<rparr>\<rparr>)
                        else Next_loop s)
                  else Next_loop s)))"

definition Scanner_Next :: "Scanner \<Rightarrow> ((mvcc_error + (bytes \<times> bytes option) option) \<times> Scanner) option" where
  "Scanner_Next s = Next_loop (if \<not> sc_isStarted s then (initialSeek s)\<lparr>sc_isStarted := True\<rparr> else s)"

partial_function (option) Scan_loop ::
  "32 word \<Rightarrow> bool \<Rightarrow> Scanner \<Rightarrow> KvPairResult list \<Rightarrow> (mvcc_error + KvPairResult list) option"
where
  "Scan_loop limit keyOnly s results =
     (if limit = 0 \<or> of_nat (length results) < limit
      then
        (case Scanner_Next s of
          None \<Rightarrow> None
        | Some (Inl e, _) \<Rightarrow> Some (Inl e)
        | Some (Inr None, _) \<Rightarrow> Some (Inr results)
        | Some (Inr (Some (key, v)), s) \<Rightarrow>
            Scan_loop limit keyOnly s
              (results @ [\<lparr>kv_Key = key, kv_Value = (if keyOnly then None else v), kv_Err = None\<rparr>]))
      else Some (Inr results))"

definition Storage_Scan ::
  "bytes option \<Rightarrow> bytes \<Rightarrow> 32 word \<Rightarrow> TimeStamp \<Rightarrow> bool \<Rightarrow> Storage \<Rightarrow> (mvcc_error + KvPairResult list) option"
where
  "Storage_Scan startKey endKey limit version keyOnly s =
     Scan_loop limit keyOnly
       (NewScanner \<lparr>cfg_Snapshot = sto_engine s, cfg_ReadTS = version, cfg_Desc = False,
          cfg_IsolationLevel = IsolationLevelSI, cfg_KeyOnly = keyOnly, cfg_LowerBound = startKey,
          cfg_UpperBound = (if 0 < length endKey then Some endKey else None), cfg_BypassLocks = (\<lambda>_. False)\<rparr>)
       []"

subsection \<open>The write records of a range, key by key\<close>

definition grp :: "store \<Rightarrow> bytes \<Rightarrow> cf" where
  "grp st k = filter (same_key k) (st CFWrite)"

lemma grp_versions: "map dec_version (grp st k) = st_versions st k"
  by (simp add: grp_def st_versions_def versions_def same_key_def [abs_def])

lemma grp_Nil: "grp st k = [] \<longleftrightarrow> st_versions st k = []"
  by (simp flip: grp_versions)

lemma grpD:
  assumes "mvcc_ok st" "e \<in> set (grp st k)"
  shows "fst e = EncodeKey k (fst (dec_version e))" "UnmarshalWrite (snd e) = Inr (snd (dec_version e))"
    "dec_version e \<in> set (st_versions st k)" "e \<in> set (st CFWrite)"
proof -
  have e: "write_entry_ok e" "same_key k e" "e \<in> set (st CFWrite)"
    using assms by (auto simp: mvcc_ok_def write_cf_ok_def list_all_iff grp_def)
  then show "fst e = EncodeKey k (fst (dec_version e))" "e \<in> set (st CFWrite)"
    using same_key_version [of e k] by (auto simp: same_key_def)
  show "UnmarshalWrite (snd e) = Inr (snd (dec_version e))" using e(1) by (auto elim: write_entry_okE)
  show "dec_version e \<in> set (st_versions st k)" using assms(2) grp_versions [of st k] by (metis image_eqI list.set_map)
qed

lemma grp_sorted: "mvcc_ok st \<Longrightarrow> sorted_wrt (\<lambda>x y. fst x < fst y) (grp st k)"
  by (simp add: mvcc_ok_def write_cf_ok_def sorted_wrt_cf grp_def sorted_wrt_filter)

lemma grps_sorted:
  assumes "mvcc_ok st" "sorted_wrt (<) ks"
  shows "sorted_wrt (\<lambda>x y. fst x < fst y) (concat (map (grp st) ks))"
  using assms(2)
proof (induction ks)
  case (Cons k ks)
  have "fst e < fst e'" if "e \<in> set (grp st k)" "k' \<in> set ks" "e' \<in> set (grp st k')" for e k' e'
    using that grpD(1) [OF assms(1)] Cons.prems by (metis EncodeKey_less sorted_wrt.simps(2))
  then show ?case using Cons grp_sorted [OF assms(1)] by (auto simp: sorted_wrt_append)
qed simp

text \<open>Seeking to a version of a key, and behind the key.\<close>

lemma filter_grps:
  assumes "\<And>k e. k \<in> set ks \<Longrightarrow> e \<in> set (grp st k) \<Longrightarrow> P e = b"
  shows "filter P (concat (map (grp st) ks)) = (if b then concat (map (grp st) ks) else [])"
  using assms by (cases b) (auto intro!: filter_True filter_False)

lemma dropWhile_grps:
  assumes "mvcc_ok st" "sorted_wrt (<) ks"
  shows "dropWhile (\<lambda>e. fst e < t) (concat (map (grp st) ks)) = filter (\<lambda>e. t \<le> fst e) (concat (map (grp st) ks))"
  using dropWhile_eq_filter [OF grps_sorted [OF assms], of "\<lambda>e. fst e < t"] by (auto simp: not_less)

lemma seek_version:
  assumes "mvcc_ok st" "sorted_wrt (<) (done @ k # ks)"
  shows "dropWhile (\<lambda>e. fst e < EncodeKey k t) (concat (map (grp st) (done @ k # ks))) =
    filter (\<lambda>e. fst (dec_version e) \<le> t) (grp st k) @ concat (map (grp st) ks)"
proof -
  have lt: "\<not> EncodeKey k t \<le> fst e" if "k' \<in> set done" "e \<in> set (grp st k')" for k' e
  proof -
    have "k' < k" using that(1) assms(2) by (auto simp: sorted_wrt_append)
    then show ?thesis using grpD(1) [OF assms(1) that(2)] by (simp add: not_le EncodeKey_less)
  qed
  have ge: "EncodeKey k t \<le> fst e" if "k' \<in> set ks" "e \<in> set (grp st k')" for k' e
  proof -
    have "k < k'" using that(1) assms(2) by (auto simp: sorted_wrt_append)
    then show ?thesis using grpD(1) [OF assms(1) that(2)] by (simp add: EncodeKey_le)
  qed
  have eq: "EncodeKey k t \<le> fst e \<longleftrightarrow> fst (dec_version e) \<le> t" if "e \<in> set (grp st k)" for e
    using grpD(1) [OF assms(1) that] by (simp add: EncodeKey_le)
  have "filter (\<lambda>e. EncodeKey k t \<le> fst e) (concat (map (grp st) done)) = []"
    using filter_grps [of "done" st "\<lambda>e. EncodeKey k t \<le> fst e" False] lt by auto
  moreover have "filter (\<lambda>e. EncodeKey k t \<le> fst e) (concat (map (grp st) ks)) = concat (map (grp st) ks)"
    using filter_grps [of ks st "\<lambda>e. EncodeKey k t \<le> fst e" True] ge by auto
  moreover have "filter (\<lambda>e. EncodeKey k t \<le> fst e) (grp st k) = filter (\<lambda>e. fst (dec_version e) \<le> t) (grp st k)"
    using eq by (intro filter_cong refl)
  ultimately show ?thesis unfolding dropWhile_grps [OF assms] by simp
qed

lemma bytes_next: "k < k' \<Longrightarrow> k @ [0] \<le> k'" for k :: bytes
proof (induction k arbitrary: k')
  case Nil
  then show ?case by (cases k') (auto simp: word_gt_0)
next
  case (Cons b k)
  then show ?case by (cases k') auto
qed

lemma bytes_less_next: "k < k @ [0]" for k :: bytes
  by (induction k) auto

lemma seek_behind:
  assumes "mvcc_ok st" "sorted_wrt (<) (done @ k # ks)"
  shows "dropWhile (\<lambda>e. fst e < EncodeKey (k @ [0]) TSMax) (concat (map (grp st) (done @ k # ks))) =
    concat (map (grp st) ks)"
proof -
  let ?t = "EncodeKey (k @ [0]) TSMax"
  have lt: "fst e < ?t" if "k' \<in> set (done @ [k])" "e \<in> set (grp st k')" for k' e
  proof -
    have "k' \<le> k" using that(1) assms(2) by (auto simp: sorted_wrt_append)
    then have "k' < k @ [0]" using bytes_less_next by (rule order_le_less_trans)
    then show ?thesis using grpD(1) [OF assms(1) that(2)] by (simp add: EncodeKey_less)
  qed
  have ge: "?t \<le> fst e" if "k' \<in> set ks" "e \<in> set (grp st k')" for k' e
  proof -
    have "k @ [0] \<le> k'" using that(1) assms(2) by (auto simp: sorted_wrt_append intro: bytes_next)
    then have "k @ [0] < k' \<or> k @ [0] = k'" by (simp only: le_less)
    then show ?thesis using grpD(1) [OF assms(1) that(2)] by (auto simp: EncodeKey_le TSMax_def)
  qed
  have "filter (\<lambda>e. ?t \<le> fst e) (concat (map (grp st) (done @ [k]))) = []"
    using filter_grps [of "done @ [k]" st "\<lambda>e. ?t \<le> fst e" False] lt by (simp add: not_le)
  moreover have "filter (\<lambda>e. ?t \<le> fst e) (concat (map (grp st) ks)) = concat (map (grp st) ks)"
    using filter_grps [of ks st "\<lambda>e. ?t \<le> fst e" True] ge by auto
  ultimately show ?thesis unfolding dropWhile_grps [OF assms] by simp
qed

subsection \<open>Moving the write cursor\<close>

text \<open>Where the write cursor is, and what the moves leave alone.\<close>

definition at_pos :: "cf \<Rightarrow> cf \<Rightarrow> Scanner \<Rightarrow> bool" where
  "at_pos W rest s \<longleftrightarrow> it_all (sc_writeCursor s) = W \<and> it_rest (sc_writeCursor s) = rest"

definition default_ok :: "Scanner \<Rightarrow> bool" where
  "default_ok s \<longleftrightarrow> (case sc_defaultCursor s of None \<Rightarrow> True | Some it \<Rightarrow> it_all it = cfg_Snapshot (sc_cfg s) CFDefault)"

definition kept :: "Scanner \<Rightarrow> Scanner \<Rightarrow> bool" where
  "kept s s' \<longleftrightarrow> sc_cfg s' = sc_cfg s \<and> sc_lockCursor s' = sc_lockCursor s \<and> sc_isStarted s' = sc_isStarted s \<and>
     (default_ok s \<longrightarrow> default_ok s')"

lemma kept_refl [simp]: "kept s s"
  by (simp add: kept_def)

lemma kept_trans: "kept s s' \<Longrightarrow> kept s' s'' \<Longrightarrow> kept s s''"
  by (auto simp: kept_def)

lemma kept_cfg: "kept s s' \<Longrightarrow> sc_cfg s' = sc_cfg s"
  by (simp add: kept_def)

lemma kept_simps [simp]:
  "kept s (s\<lparr>sc_writeCursor := it\<rparr>)" "kept s (s\<lparr>sc_stats := x\<rparr>)" "kept s (seekWrite t s)" "kept s (count_OverSeekBound s)"
  by (simp_all add: kept_def default_ok_def seekWrite_def count_OverSeekBound_def split: option.split)

lemma at_pos_valid: "at_pos W rest s \<Longrightarrow> writeCursorValid s \<longleftrightarrow> rest \<noteq> []"
  by (auto simp: at_pos_def writeCursorValid_def it_Valid_rest)

lemma at_pos_entry:
  "at_pos W (e # rest) s \<Longrightarrow> it_Key (sc_writeCursor s) = fst e" "at_pos W (e # rest) s \<Longrightarrow> it_Value (sc_writeCursor s) = snd e"
  using it_hd_rest [of "sc_writeCursor s"] by (auto simp: at_pos_def it_Valid_rest)

lemma at_pos_Next: "at_pos W (e # rest) s \<Longrightarrow> at_pos W rest (s\<lparr>sc_writeCursor := it_Next (sc_writeCursor s)\<rparr>)"
  using it_Next_rest [of "sc_writeCursor s"] by (auto simp: at_pos_def it_Valid_rest)

lemma at_pos_seek: "at_pos W rest s \<Longrightarrow> at_pos W (dropWhile (\<lambda>e. fst e < t) W) (seekWrite t s)"
  by (simp add: at_pos_def seekWrite_def it_rest_Seek)

lemma at_pos_stats [simp]:
  "at_pos W rest (s\<lparr>sc_stats := x\<rparr>) = at_pos W rest s" "at_pos W rest (count_OverSeekBound s) = at_pos W rest s"
  by (simp_all add: at_pos_def count_OverSeekBound_def)

text \<open>The two bounded loops, on the remaining records \<open>G\<close> of a key in front of the others.\<close>

lemma nextUserKey_loop_pos:
  assumes "at_pos W (e # G @ R) s" "\<And>e. e \<in> set G \<Longrightarrow> TruncateToUserKey (fst e) = key"
    "\<And>e. e \<in> set R \<Longrightarrow> TruncateToUserKey (fst e) \<noteq> key"
  shows "\<exists>b s'. nextUserKey_loop n key s = (b, s') \<and> kept s s' \<and> (if b then at_pos W R s' else \<exists>rest. at_pos W rest s')"
  using assms(1,2)
proof (induction n arbitrary: e G s)
  case (Suc n)
  let ?s = "s\<lparr>sc_writeCursor := it_Next (sc_writeCursor s)\<rparr>"
  have pos: "at_pos W (G @ R) ?s" using Suc.prems(1) by (rule at_pos_Next)
  show ?case
  proof (cases G)
    case Nil
    then have "nextUserKey_loop (Suc n) key s = (True, ?s)"
      using pos assms(3) at_pos_valid [OF pos] at_pos_entry(1) [of W "hd R" "tl R" ?s] by (cases R) (auto simp: Let_def)
    with pos Nil show ?thesis by (intro exI [of _ True] exI [of _ ?s]) simp
  next
    case (Cons g G')
    then have "nextUserKey_loop (Suc n) key s = nextUserKey_loop n key ?s"
      using pos Suc.prems(2) [of g] at_pos_valid [OF pos] at_pos_entry(1) [of W g "G' @ R" ?s] by (simp add: Let_def)
    then show ?thesis using Suc.IH [of g G' ?s] pos Cons Suc.prems(2) kept_trans [of s ?s] by fastforce
  qed
qed (use assms in \<open>auto simp: at_pos_def\<close>)

lemma moveToTS_loop_pos:
  assumes "at_pos W (e # G @ R) s" "\<And>e. e \<in> set G \<Longrightarrow> DecodeKey (fst e) = Inr (key, fst (dec_version e))"
    "\<exists>e \<in> set G. fst (dec_version e) \<le> cfg_ReadTS (sc_cfg s)" "\<not> cfg_Desc (sc_cfg s)"
  shows "\<exists>b s'. moveToTS_loop n key s = (b, s') \<and> kept s s' \<and>
    (case b of Some b \<Rightarrow> b \<and> at_pos W (dropWhile (\<lambda>e. cfg_ReadTS (sc_cfg s) < fst (dec_version e)) G @ R) s'
     | None \<Rightarrow> \<exists>rest. at_pos W rest s')"
  using assms
proof (induction n arbitrary: e G s)
  case (Suc n)
  let ?s = "advanceWriteCursor s"
  have s: "?s = s\<lparr>sc_writeCursor := it_Next (sc_writeCursor s)\<rparr>" using Suc.prems(4) by (simp add: advanceWriteCursor_def)
  obtain g G' where G: "G = g # G'" using Suc.prems(3) by (cases G) auto
  have pos: "at_pos W (g # G' @ R) ?s" using at_pos_Next [OF Suc.prems(1)] G by (simp add: s)
  have d: "DecodeKey (it_Key (sc_writeCursor ?s)) = Inr (key, fst (dec_version g))"
    using at_pos_entry(1) [OF pos] Suc.prems(2) [of g] G by simp
  have cfg: "sc_cfg ?s = sc_cfg s" by (simp add: s)
  have valid: "writeCursorValid ?s" using at_pos_valid [OF pos] by simp
  show ?case
  proof (cases "fst (dec_version g) \<le> cfg_ReadTS (sc_cfg s)")
    case True
    then have "moveToTS_loop (Suc n) key s = (Some True, ?s)" using d valid by (simp add: Let_def cfg)
    with True pos G show ?thesis by (intro exI [of _ "Some True"] exI [of _ ?s]) (simp add: s not_less [symmetric])
  next
    case False
    then have "moveToTS_loop (Suc n) key s = moveToTS_loop n key ?s" using d valid by (simp add: Let_def cfg)
    moreover obtain b s' where "moveToTS_loop n key ?s = (b, s')" "kept ?s s'"
      "case b of Some b \<Rightarrow> b \<and> at_pos W (dropWhile (\<lambda>e. cfg_ReadTS (sc_cfg ?s) < fst (dec_version e)) G' @ R) s'
       | None \<Rightarrow> \<exists>rest. at_pos W rest s'"
      using Suc.IH [of g G' ?s] Suc.prems False G pos by (auto simp: cfg)
    moreover have "dropWhile (\<lambda>e. cfg_ReadTS (sc_cfg s) < fst (dec_version e)) G =
        dropWhile (\<lambda>e. cfg_ReadTS (sc_cfg s) < fst (dec_version e)) G'"
      using False G by (simp add: not_le)
    moreover have "kept s ?s" by (simp add: s)
    ultimately show ?thesis unfolding cfg using kept_trans [of s ?s s'] by (intro exI [of _ b] exI [of _ s']) (simp del: moveToTS_loop.simps split: option.splits)
  qed
qed (use assms in \<open>auto simp: at_pos_def\<close>)

subsection \<open>One key of a forward scan\<close>

text \<open>Inside the records of a key, with the records \<open>R\<close> of the keys behind it.\<close>

abbreviation recs :: "store \<Rightarrow> bytes list \<Rightarrow> cf" where
  "recs st ks \<equiv> concat (map (grp st) ks)"

abbreviation visible_recs :: "store \<Rightarrow> TimeStamp \<Rightarrow> bytes \<Rightarrow> cf" where
  "visible_recs st ts k \<equiv> filter (\<lambda>e. fst (dec_version e) \<le> ts) (grp st k)"

lemma visible_versions: "map dec_version (visible_recs st ts k) = filter (\<lambda>v. fst v \<le> ts) (st_versions st k)"
  by (simp add: filter_map o_def flip: grp_versions)

lemma dropWhile_visible:
  assumes "mvcc_ok st"
  shows "dropWhile (\<lambda>e. ts < fst (dec_version e)) (grp st k) = visible_recs st ts k"
proof -
  have "ts < fst (dec_version e) \<longleftrightarrow> fst e < EncodeKey k ts" if "e \<in> set (grp st k)" for e
    using grpD(1) [OF assms that] by (simp add: EncodeKey_less)
  then have "dropWhile (\<lambda>e. ts < fst (dec_version e)) (grp st k) = dropWhile (\<lambda>e. fst e < EncodeKey k ts) (grp st k)"
    by (rule dropWhile_cong [OF refl])
  then show ?thesis using seek_version [OF assms, of "[]" k "[]" ts] by simp
qed

lemma moveWriteCursorToTS_pos:
  assumes "mvcc_ok st" "sorted_wrt (<) (ds @ k # ks)" "\<not> cfg_Desc (sc_cfg s)" "ts = cfg_ReadTS (sc_cfg s)"
    and "visible_recs st ts k \<noteq> []" "at_pos (recs st (ds @ k # ks)) (grp st k @ recs st ks) s"
  shows "\<exists>s'. moveWriteCursorToTS k s = (True, s') \<and> kept s s' \<and>
    at_pos (recs st (ds @ k # ks)) (visible_recs st ts k @ recs st ks) s'"
proof -
  let ?W = "recs st (ds @ k # ks)" and ?G = "grp st k" and ?R = "recs st ks"
  obtain e G where G: "?G = e # G" using assms(5) by (cases ?G) auto
  have pos: "at_pos ?W (e # G @ ?R) s" using assms(6) G by simp
  have dec: "DecodeKey (fst e) = Inr (k, fst (dec_version e))" if "e \<in> set ?G" for e
    using grpD(1) [OF assms(1) that] by simp
  have s: "writeCursorValid s" "DecodeKey (it_Key (sc_writeCursor s)) = Inr (k, fst (dec_version e))"
    using pos G at_pos_valid [OF pos] at_pos_entry(1) [OF pos] dec [of e] by auto
  show ?thesis
  proof (cases "fst (dec_version e) \<le> ts")
    case True
    then have "visible_recs st ts k = ?G" using dropWhile_visible [OF assms(1), of ts k] G by (simp add: not_less [symmetric])
    then show ?thesis using True s assms(4,6) by (simp add: moveWriteCursorToTS_def)
  next
    case False
    have vis: "dropWhile (\<lambda>e. cfg_ReadTS (sc_cfg s) < fst (dec_version e)) G = visible_recs st ts k"
      using dropWhile_visible [OF assms(1), of ts k] G False assms(4) by (simp add: not_le)
    have "\<exists>g \<in> set G. fst (dec_version g) \<le> cfg_ReadTS (sc_cfg s)"
      using assms(4,5) False G by (auto simp: filter_empty_conv)
    then obtain b s1 where loop: "moveToTS_loop SeekBound k s = (b, s1)" "kept s s1"
        "case b of Some b \<Rightarrow> b \<and> at_pos ?W (visible_recs st ts k @ ?R) s1 | None \<Rightarrow> \<exists>rest. at_pos ?W rest s1"
      using moveToTS_loop_pos [OF pos, of k SeekBound] dec G assms(3) unfolding vis by auto
    show ?thesis
    proof (cases b)
      case (Some b')
      then show ?thesis using False s loop assms(4) by (auto simp: moveWriteCursorToTS_def)
    next
      case None
      let ?s2 = "seekWrite (EncodeKey k (cfg_ReadTS (sc_cfg s1))) (count_OverSeekBound s1)"
      have cfg: "sc_cfg s1 = sc_cfg s" "sc_cfg ?s2 = sc_cfg s"
        using kept_cfg [OF loop(2)] by (simp_all add: seekWrite_def count_OverSeekBound_def)
      obtain rest where "at_pos ?W rest (count_OverSeekBound s1)" using loop(3) None by auto
      then have pos2: "at_pos ?W (visible_recs st ts k @ ?R) ?s2"
        unfolding cfg(1) assms(4) [symmetric] seek_version [OF assms(1,2), of ts, symmetric] by (rule at_pos_seek)
      obtain g G' where g: "visible_recs st ts k = g # G'" using assms(5) by (cases "visible_recs st ts k") auto
      then have "g \<in> set (visible_recs st ts k)" by simp
      then have gG: "g \<in> set ?G" "fst (dec_version g) \<le> ts" by simp_all
      have "writeCursorValid ?s2" "DecodeKey (it_Key (sc_writeCursor ?s2)) = Inr (k, fst (dec_version g))"
        using pos2 g at_pos_valid [OF pos2] at_pos_entry(1) [of ?W g "G' @ ?R" ?s2] dec [OF gG(1)] by auto
      then have "moveWriteCursorToTS k s = (True, ?s2)"
        using False s loop(1) None gG(2) assms(4) cfg(2) by (simp add: moveWriteCursorToTS_def Let_def)
      moreover have "kept s ?s2" using kept_trans [OF loop(2)] kept_trans [of s1 "count_OverSeekBound s1" ?s2] by simp
      ultimately show ?thesis using pos2 by blast
    qed
  qed
qed

lemma moveWriteCursorToNextUserKey_pos:
  assumes "mvcc_ok st" "sorted_wrt (<) (ds @ k # ks)" "\<not> cfg_Desc (sc_cfg s)" "set G \<subseteq> set (grp st k)"
    and "at_pos (recs st (ds @ k # ks)) (e # G @ recs st ks) s"
  shows "at_pos (recs st (ds @ k # ks)) (recs st ks) (moveWriteCursorToNextUserKey k s)"
    "kept s (moveWriteCursorToNextUserKey k s)"
proof -
  let ?W = "recs st (ds @ k # ks)" and ?R = "recs st ks"
  have trunc: "TruncateToUserKey (fst e) = EncodeLockKey k'" if "e \<in> set (grp st k')" for e k'
    using grpD(1) [OF assms(1) that] by simp
  have "k \<notin> set ks" using assms(2) by (auto simp: sorted_wrt_append)
  then have R: "TruncateToUserKey (fst e) \<noteq> EncodeLockKey k" if "e \<in> set ?R" for e
    using that trunc by fastforce
  have G: "TruncateToUserKey (fst e) = EncodeLockKey k" if "e \<in> set G" for e
    using that assms(4) by (intro trunc) auto
  obtain b s1 where loop: "nextUserKey_loop SeekBound (EncodeLockKey k) s = (b, s1)" "kept s s1"
      "if b then at_pos ?W ?R s1 else \<exists>rest. at_pos ?W rest s1"
    using nextUserKey_loop_pos [OF assms(5) G R] by blast
  have "at_pos ?W ?R (moveWriteCursorToNextUserKey k s) \<and> kept s (moveWriteCursorToNextUserKey k s)"
  proof (cases b)
    case False
    then obtain rest where "at_pos ?W rest (count_OverSeekBound s1)" using loop(3) by auto
    then have "at_pos ?W ?R (seekWrite (EncodeKey (k @ [0]) TSMax) (count_OverSeekBound s1))"
      unfolding seek_behind [OF assms(1,2), symmetric] by (rule at_pos_seek)
    moreover have "kept s (seekWrite (EncodeKey (k @ [0]) TSMax) (count_OverSeekBound s1))"
      using kept_trans [OF loop(2)] kept_trans [of s1 "count_OverSeekBound s1"] by simp
    ultimately show ?thesis using False loop(1) assms(3) by (simp add: moveWriteCursorToNextUserKey_def)
  qed (use loop assms(3) in \<open>simp add: moveWriteCursorToNextUserKey_def\<close>)
  then show "at_pos ?W ?R (moveWriteCursorToNextUserKey k s)" "kept s (moveWriteCursorToNextUserKey k s)" by auto
qed

text \<open>The default cursor finds exactly the stored value.\<close>

lemma value_entry_okE:
  assumes "value_entry_ok e"
  obtains k ts where "fst e = EncodeKey k ts"
proof -
  from assms obtain p where "dec_pair DecodeBytes DecodeUint64Desc (fst e) = Inr (p, [])"
    by (auto simp: value_entry_ok_def split: sum.splits)
  then have "fst e = EncodeKey (fst p) (snd p)"
    using key_codec.pair.dec_canonical by (fastforce simp: EncodeKey_pair)
  then show thesis by (rule that)
qed

lemma loadValueFromDefault_finds:
  assumes "mvcc_ok (cfg_Snapshot (sc_cfg s))" "default_ok s"
  shows "\<exists>s'. loadValueFromDefault k ts s =
      ((case st_value (cfg_Snapshot (sc_cfg s)) k ts of Some v \<Rightarrow> Inr v | None \<Rightarrow> Inl (ErrEngine ''not found'')), s') \<and>
    kept s s' \<and> sc_writeCursor s' = sc_writeCursor s"
proof -
  let ?es = "cfg_Snapshot (sc_cfg s) CFDefault" and ?t = "EncodeKey k ts"
  define s1 where "s1 = ensureDefaultCursor s"
  define s2 where "s2 = s1\<lparr>sc_stats := (sc_stats s1)\<lparr>ss_DefaultReads := ss_DefaultReads (sc_stats s1) + 1\<rparr>\<rparr>"
  define cursor where "cursor = Seek ?t (the (sc_defaultCursor s2))"
  define s' where "s' = s2\<lparr>sc_defaultCursor := Some cursor\<rparr>"
  have ok: "cf_sorted ?es" "\<And>e. e \<in> set ?es \<Longrightarrow> value_entry_ok e"
    using assms(1) by (auto simp: mvcc_ok_def list_all_iff)
  have all: "it_all cursor = ?es" using assms(2)
    by (auto simp: cursor_def s2_def s1_def ensureDefaultCursor_def default_ok_def split: option.splits)
  have rest: "it_rest cursor = filter (\<lambda>e. ?t \<le> fst e) ?es"
  proof -
    have "it_rest cursor = dropWhile (\<lambda>e. fst e < ?t) ?es" using all by (simp add: cursor_def it_rest_Seek)
    also have "\<dots> = filter (\<lambda>e. \<not> fst e < ?t) ?es"
      using ok(1) by (intro dropWhile_eq_filter [where R = "\<lambda>x y. fst x < fst y"]) (auto simp: sorted_wrt_cf)
    finally show ?thesis by (simp add: not_less)
  qed
  have s': "kept s s'" "sc_writeCursor s' = sc_writeCursor s" using all
    by (auto simp: kept_def s'_def s2_def s1_def default_ok_def ensureDefaultCursor_def split: option.splits)
  have load: "loadValueFromDefault k ts s =
      (if \<not> it_Valid cursor then (Inl (ErrEngine ''not found''), s')
       else case DecodeKey (it_Key cursor) of Inl e \<Rightarrow> (Inl e, s')
         | Inr (uk, ts') \<Rightarrow> if uk \<noteq> k \<or> ts' \<noteq> ts then (Inl (ErrEngine ''not found''), s') else (Inr (it_Value cursor), s'))"
    unfolding loadValueFromDefault_def Let_def s'_def cursor_def s2_def s1_def by (simp cong: sum.case_cong)
  show ?thesis
  proof (cases "it_rest cursor")
    case Nil
    then have "st_value (cfg_Snapshot (sc_cfg s)) k ts = None"
      using rest by (auto simp: st_value_def cf_get_None_iff filter_empty_conv)
    then show ?thesis using Nil load s' by (auto simp: it_Valid_rest)
  next
    case (Cons e es)
    have "e \<in> set (it_rest cursor)" using Cons by simp
    then have e: "e \<in> set ?es" "?t \<le> fst e" unfolding rest by simp_all
    obtain k' ts' where key: "fst e = EncodeKey k' ts'" using ok(2) [OF e(1)] by (rule value_entry_okE)
    have valid: "it_Valid cursor" using Cons by (simp add: it_Valid_rest)
    then have at: "it_Key cursor = EncodeKey k' ts'" "it_Value cursor = snd e" using it_hd_rest [of cursor] Cons key by auto
    have "st_value (cfg_Snapshot (sc_cfg s)) k ts = (if k' = k \<and> ts' = ts then Some (snd e) else None)"
    proof (cases "k' = k \<and> ts' = ts")
      case True
      then show ?thesis using e(1) key ok(1) by (cases e) (auto simp: st_value_def cf_get_iff)
    next
      case False
      then have "?t < fst e" using e(2) key by (auto simp: less_le)
      moreover have "fst e < fst x" if "x \<in> set es" for x
        using that Cons rest ok(1) sorted_wrt_filter [of "\<lambda>x y. fst x < fst y" ?es "\<lambda>e. ?t \<le> fst e"] by (auto simp: sorted_wrt_cf)
      ultimately have "?t \<notin> fst ` set (filter (\<lambda>e. ?t \<le> fst e) ?es)" using Cons rest by force
      then show ?thesis using False by (auto simp: st_value_def cf_get_None_iff)
    qed
    then show ?thesis using load valid at s' by auto
  qed
qed

text \<open>What \<^verbatim>\<open>handleWrite\<close> makes of the newest data version of a key.\<close>

definition write_outcome :: "ScannerConfig \<Rightarrow> bytes \<Rightarrow> Write option \<Rightarrow> mvcc_error + bytes option \<times> bool" where
  "write_outcome cfg k w =
     (case w of
        None \<Rightarrow> Inr (None, False)
      | Some w \<Rightarrow>
          if cfg_KeyOnly cfg then Inr (None, True)
          else case write_ShortValue w of
            Some v \<Rightarrow> Inr (Some v, True)
          | None \<Rightarrow> (case st_value (cfg_Snapshot cfg) k (write_StartTS w) of
              Some v \<Rightarrow> Inr (Some v, True) | None \<Rightarrow> Inl (MvccErr (ErrEngine ''not found''))))"

lemma handleWrite_loop_data:
  assumes "writeCursorValid s" "DecodeKey (it_Key (sc_writeCursor s)) = Inr (k, c)" "c \<le> cfg_ReadTS (sc_cfg s)"
    and "UnmarshalWrite (it_Value (sc_writeCursor s)) = Inr w" "\<not> no_data w"
    and "mvcc_ok (cfg_Snapshot (sc_cfg s))" "default_ok s"
  shows "\<exists>s'. handleWrite_loop k s =
      Some (write_outcome (sc_cfg s) k (if write_WriteType w = WriteTypePut then Some w else None),
        moveWriteCursorToNextUserKey k s') \<and> kept s s' \<and> sc_writeCursor s' = sc_writeCursor s"
proof -
  define s1 where "s1 = s\<lparr>sc_stats := (sc_stats s)\<lparr>ss_ScannedKeys := ss_ScannedKeys (sc_stats s) + 1\<rparr>\<rparr>"
  have s1: "kept s s1" "sc_writeCursor s1 = sc_writeCursor s" "sc_cfg s1 = sc_cfg s" by (simp_all add: s1_def)
  then have "mvcc_ok (cfg_Snapshot (sc_cfg s1))" "default_ok s1" using assms(6,7) by (simp_all add: kept_def)
  then obtain s2 where s2: "loadValueFromDefault k (write_StartTS w) s1 =
      ((case st_value (cfg_Snapshot (sc_cfg s)) k (write_StartTS w) of Some v \<Rightarrow> Inr v | None \<Rightarrow> Inl (ErrEngine ''not found'')), s2)"
      "kept s1 s2" "sc_writeCursor s2 = sc_writeCursor s"
    using loadValueFromDefault_finds [of s1 k "write_StartTS w"] s1 by auto
  have ns: "\<not> cfg_ReadTS (sc_cfg s) < c" using assms(3) by (simp add: not_less)
  have loop: "handleWrite_loop k s =
      (if write_WriteType w = WriteTypePut then
         (if cfg_KeyOnly (sc_cfg s) then Some (Inr (None, True), moveWriteCursorToNextUserKey k s1)
          else case write_ShortValue w of
            Some v \<Rightarrow> Some (Inr (Some v, True), moveWriteCursorToNextUserKey k s1)
          | None \<Rightarrow>
              (case loadValueFromDefault k (write_StartTS w) s1 of
                (Inl e, s) \<Rightarrow> Some (Inl (MvccErr e), moveWriteCursorToNextUserKey k s)
              | (Inr v, s) \<Rightarrow> Some (Inr (Some v, True), moveWriteCursorToNextUserKey k s)))
       else Some (Inr (None, False), moveWriteCursorToNextUserKey k s1))"
    unfolding handleWrite_loop.simps [of k s] s1_def [symmetric] Let_def
    using assms(1,2,4,5) ns s1(2,3) by (simp add: no_data_def)
  show ?thesis
  proof (cases "write_WriteType w = WriteTypePut \<and> \<not> cfg_KeyOnly (sc_cfg s) \<and> write_ShortValue w = None")
    case True
    have "kept s s2" using kept_trans [OF s1(1) s2(2)] .
    then show ?thesis using True loop s2 by (intro exI [of _ s2]) (simp add: write_outcome_def split: option.split)
  next
    case False
    then show ?thesis using loop s1 by (intro exI [of _ s1]) (auto simp: write_outcome_def split: option.split)
  qed
qed

lemma handleWrite_loop_pos:
  assumes "store_ok st" "sorted_wrt (<) (ds @ k # ks)" "set G \<subseteq> set (visible_recs st (cfg_ReadTS (sc_cfg s)) k)"
    and "\<not> cfg_Desc (sc_cfg s)" "cfg_Snapshot (sc_cfg s) = st" "default_ok s"
    and "at_pos (recs st (ds @ k # ks)) (G @ recs st ks) s"
  shows "\<exists>s'. handleWrite_loop k s = Some (write_outcome (sc_cfg s) k (fst (data_version (map dec_version G))), s') \<and>
    kept s s' \<and> at_pos (recs st (ds @ k # ks)) (recs st ks) s'"
  using assms(3-)
proof (induction G arbitrary: s)
  case Nil
  have "k \<notin> set ks" using assms(2) by (auto simp: sorted_wrt_append)
  then have "\<exists>uk t. DecodeKey (fst e) = Inr (uk, t) \<and> uk \<noteq> k" if "e \<in> set (recs st ks)" for e
    using that grpD(1) [OF store_okD(1) [OF assms(1)]] by fastforce
  then have "\<not> writeCursorValid s \<or> (\<exists>uk t. DecodeKey (it_Key (sc_writeCursor s)) = Inr (uk, t) \<and> uk \<noteq> k)"
    using Nil.prems(5) at_pos_valid [OF Nil.prems(5)] at_pos_entry(1) [of _ "hd (recs st ks)" "tl (recs st ks)" s]
    by (cases "recs st ks") auto
  then have "handleWrite_loop k s = Some (Inr (None, False), s)" by (subst handleWrite_loop.simps) auto
  then show ?case using Nil.prems(5) by (simp add: write_outcome_def)
next
  case (Cons e G)
  let ?W = "recs st (ds @ k # ks)" and ?R = "recs st ks" and ?w = "snd (dec_version e)"
  have ok: "mvcc_ok st" using assms(1) by (rule store_okD)
  have e: "e \<in> set (grp st k)" "fst (dec_version e) \<le> cfg_ReadTS (sc_cfg s)" and sub: "set G \<subseteq> set (grp st k)"
    using Cons.prems(1) by auto
  have pos: "at_pos ?W (e # G @ ?R) s" using Cons.prems(5) by simp
  have valid: "writeCursorValid s" using at_pos_valid [OF pos] by simp
  have key: "DecodeKey (it_Key (sc_writeCursor s)) = Inr (k, fst (dec_version e))"
    using grpD(1) [OF ok e(1)] at_pos_entry(1) [OF pos] by simp
  have val: "UnmarshalWrite (it_Value (sc_writeCursor s)) = Inr ?w"
    using grpD(2) [OF ok e(1)] at_pos_entry(2) [OF pos] by simp
  show ?case
  proof (cases "no_data ?w")
    case False
    then obtain s' where s': "handleWrite_loop k s =
          Some (write_outcome (sc_cfg s) k (if write_WriteType ?w = WriteTypePut then Some ?w else None),
            moveWriteCursorToNextUserKey k s')" "kept s s'" "sc_writeCursor s' = sc_writeCursor s"
      using handleWrite_loop_data [OF valid key e(2) val False] Cons.prems(3,4) ok by auto
    have "at_pos ?W (e # G @ ?R) s'" "\<not> cfg_Desc (sc_cfg s')"
      using pos s'(3) Cons.prems(2) kept_cfg [OF s'(2)] by (simp_all add: at_pos_def)
    note move = moveWriteCursorToNextUserKey_pos [OF ok assms(2) this(2) sub this(1)]
    have "fst (data_version (map dec_version (e # G))) = (if write_WriteType ?w = WriteTypePut then Some ?w else None)"
      using False by (cases "dec_version e") auto
    then show ?thesis using s'(1) move(1) kept_trans [OF s'(2) move(2)] by auto
  next
    case True
    define s1 where "s1 = s\<lparr>sc_stats := (sc_stats s)\<lparr>ss_ScannedKeys := ss_ScannedKeys (sc_stats s) + 1\<rparr>,
      sc_writeCursor := it_Next (sc_writeCursor s)\<rparr>"
    have "lc_TS (write_LastChange ?w) = 0"
      using store_okD(2) [OF assms(1), of k] grpD(3) [OF ok e(1)] by (auto simp: plain_versions_def list_all_iff)
    then have "handleWrite_loop k s = handleWrite_loop k s1"
      unfolding handleWrite_loop.simps [of k s] s1_def
      using valid key val e(2) True by (auto simp: Let_def no_data_def IsZero_def TSZero_def not_less write_types)
    moreover have s1: "kept s s1" "sc_cfg s1 = sc_cfg s" "default_ok s1" "at_pos ?W (G @ ?R) s1"
      using at_pos_Next [OF pos] Cons.prems(4) by (simp_all add: s1_def kept_def default_ok_def at_pos_def split: option.splits)
    moreover have "fst (data_version (map dec_version (e # G))) = fst (data_version (map dec_version G))"
      using True by (cases "dec_version e") auto
    ultimately show ?thesis using Cons.IH [of s1] Cons.prems(1-3) kept_trans [OF s1(1)] by auto
  qed
qed

lemma handleWrite_pos:
  assumes "store_ok st" "sorted_wrt (<) (ds @ k # ks)" "\<exists>v \<in> set (st_versions st k). fst v \<le> cfg_ReadTS (sc_cfg s)"
    and "\<not> cfg_Desc (sc_cfg s)" "cfg_Snapshot (sc_cfg s) = st" "default_ok s"
    and "at_pos (recs st (ds @ k # ks)) (grp st k @ recs st ks) s"
  shows "\<exists>s'. handleWrite k s =
      Some (write_outcome (sc_cfg s) k
        (fst (data_version (filter (\<lambda>v. fst v \<le> cfg_ReadTS (sc_cfg s)) (st_versions st k)))), s') \<and>
    kept s s' \<and> at_pos (recs st (ds @ k # ks)) (recs st ks) s'"
proof -
  let ?ts = "cfg_ReadTS (sc_cfg s)"
  have "map dec_version (visible_recs st ?ts k) \<noteq> []"
    unfolding visible_versions using assms(3) by (auto simp: filter_empty_conv)
  then obtain s1 where s1: "moveWriteCursorToTS k s = (True, s1)" "kept s s1"
      "at_pos (recs st (ds @ k # ks)) (visible_recs st ?ts k @ recs st ks) s1"
    using moveWriteCursorToTS_pos [OF store_okD(1) [OF assms(1)] assms(2,4) refl _ assms(7)] by auto
  have "default_ok s1" "sc_cfg s1 = sc_cfg s" using s1(2) assms(6) by (simp_all add: kept_def)
  then show ?thesis
    using handleWrite_loop_pos [OF assms(1,2) _ _ _ _ s1(3)] assms(4,5) s1 kept_trans [OF s1(2)]
    by (auto simp: handleWrite_def visible_versions)
qed

subsection \<open>The lock cursor\<close>

definition at_lock :: "cf \<Rightarrow> Scanner \<Rightarrow> bool" where
  "at_lock rest s \<longleftrightarrow> (\<exists>it. sc_lockCursor s = Some it \<and> it_rest it = rest)"

text \<open>The locks still ahead include those of the keys still ahead.\<close>

definition locks_cover :: "store \<Rightarrow> bytes list \<Rightarrow> cf \<Rightarrow> bool" where
  "locks_cover st ks rest \<longleftrightarrow> set rest \<subseteq> set (st CFLock) \<and> sorted_wrt (\<lambda>x y. fst x < fst y) rest \<and>
     (\<forall>k \<in> set ks. EncodeLockKey k \<in> fst ` set (st CFLock) \<longrightarrow> EncodeLockKey k \<in> fst ` set rest)"

definition scan_lock :: "ScannerConfig \<Rightarrow> bytes \<Rightarrow> Lock option" where
  "scan_lock cfg k =
     (case st_lock (cfg_Snapshot cfg) k of
        None \<Rightarrow> None
      | Some l \<Rightarrow> if lock_LockType l \<noteq> LockTypePessimistic \<and> lock_StartTS l \<le> cfg_ReadTS cfg \<and> \<not> cfg_BypassLocks cfg (lock_StartTS l)
          then Some l else None)"

lemma at_lock_valid: "at_lock rest s \<Longrightarrow> lockCursorValid s \<longleftrightarrow> rest \<noteq> []"
  by (auto simp: at_lock_def lockCursorValid_def it_Valid_rest)

lemma at_lock_entry:
  assumes "at_lock (e # rest) s"
  shows "it_Key (the (sc_lockCursor s)) = fst e" "it_Value (the (sc_lockCursor s)) = snd e"
proof -
  obtain it where it: "sc_lockCursor s = Some it" "it_rest it = e # rest" using assms by (auto simp: at_lock_def)
  then have "it_Valid it" by (simp add: it_Valid_rest)
  then show "it_Key (the (sc_lockCursor s)) = fst e" "it_Value (the (sc_lockCursor s)) = snd e"
    using it_hd_rest [of it] it by simp_all
qed

lemma at_lock_advance: "at_lock (e # rest) s \<Longrightarrow> \<not> cfg_Desc (sc_cfg s) \<Longrightarrow> at_lock rest (advanceLockCursor s)"
  using it_Next_rest by (auto simp: at_lock_def advanceLockCursor_def it_Valid_rest)

lemma advanceLockCursor_simps [simp]:
  "sc_cfg (advanceLockCursor s) = sc_cfg s" "sc_isStarted (advanceLockCursor s) = sc_isStarted s"
  "sc_writeCursor (advanceLockCursor s) = sc_writeCursor s" "default_ok (advanceLockCursor s) = default_ok s"
  "at_pos W r (advanceLockCursor s) = at_pos W r s"
  by (simp_all add: advanceLockCursor_def default_ok_def at_pos_def split: option.split)

lemma lock_entryE:
  assumes "mvcc_ok st" "e \<in> set (st CFLock)"
  obtains k l where "fst e = EncodeLockKey k" "UnmarshalLock (snd e) = Inr l" "st_lock st k = Some l"
proof -
  have ok: "lock_entry_ok e" "cf_sorted (st CFLock)" using assms by (auto simp: mvcc_ok_def list_all_iff)
  then obtain k where "DecodeBytes (fst e) = Inr (k, [])" by (auto simp: lock_entry_ok_def split: sum.splits)
  then have k: "fst e = EncodeLockKey k" using bytes_codec.dec_canonical by (fastforce simp: EncodeLockKey_def)
  obtain l where l: "UnmarshalLock (snd e) = Inr l" using ok(1) by (auto simp: lock_entry_ok_def split: sum.splits)
  have "cf_get (st CFLock) (EncodeLockKey k) = Some (snd e)" using assms(2) ok(2) by (simp add: cf_get_iff flip: k)
  then show thesis using that k l by (simp add: st_lock_def)
qed

lemma locks_cover_tl:
  assumes "locks_cover st ks (e # rest)" "\<forall>k \<in> set ks. fst e \<noteq> EncodeLockKey k"
  shows "locks_cover st ks rest"
proof -
  have "EncodeLockKey k \<in> fst ` set rest" if k: "k \<in> set ks" "EncodeLockKey k \<in> fst ` set (st CFLock)" for k
  proof -
    have "EncodeLockKey k \<in> insert (fst e) (fst ` set rest)" using assms(1) k by (simp add: locks_cover_def)
    then show ?thesis using assms(2) k(1) by (metis insertE)
  qed
  then show ?thesis using assms(1) by (simp add: locks_cover_def)
qed

lemma locks_cover_no_lock:
  assumes "locks_cover st (k # ks) rest" "\<And>e. e \<in> set rest \<Longrightarrow> fst e \<noteq> EncodeLockKey k"
  shows "st_lock st k = None"
proof -
  have "EncodeLockKey k \<notin> fst ` set rest" using assms(2) by (metis imageE)
  then have "EncodeLockKey k \<notin> fst ` set (st CFLock)" using assms(1) by (simp add: locks_cover_def)
  then have "cf_get (st CFLock) (EncodeLockKey k) = None" by (simp add: cf_get_None_iff)
  then show ?thesis by (simp add: st_lock_def)
qed

text \<open>A lock behind the one just passed is not handled for the key of that one.\<close>

lemma handleLock_skips:
  assumes "mvcc_ok st" "set (l # rest) \<subseteq> set (st CFLock)" "sorted_wrt (\<lambda>x y. fst x < fst y) (l # rest)"
    and "fst l = EncodeLockKey k" "at_lock rest s"
  shows "handleLock k s = (None, s)"
proof (cases rest)
  case (Cons e rest')
  have e: "e \<in> set (st CFLock)" using assms(2) Cons by simp
  obtain k' where k': "fst e = EncodeLockKey k'" using lock_entryE [OF assms(1) e] by blast
  have "k < k'" using assms(3,4) Cons k' by simp
  then have "k' \<noteq> k" by blast
  then show ?thesis
    using at_lock_valid [OF assms(5)] at_lock_entry(1) [of e rest' s] assms(5) Cons k' by (simp add: handleLock_def)
qed (use at_lock_valid [OF assms(5)] in \<open>simp add: handleLock_def\<close>)

lemma handleLock_checks:
  assumes "mvcc_ok (cfg_Snapshot (sc_cfg s))" "e \<in> set (cfg_Snapshot (sc_cfg s) CFLock)" "fst e = EncodeLockKey k"
    and "at_lock (e # rest) s" "\<not> cfg_Desc (sc_cfg s)"
  shows "\<exists>s'. handleLock k s = (map_option (LockError k) (scan_lock (sc_cfg s) k), s') \<and> at_lock rest s' \<and>
    sc_cfg s' = sc_cfg s \<and> sc_isStarted s' = sc_isStarted s \<and> default_ok s' = default_ok s \<and> (\<forall>W r. at_pos W r s' = at_pos W r s)"
proof -
  define s1 where "s1 = s\<lparr>sc_stats := (sc_stats s)\<lparr>ss_ScannedLocks := ss_ScannedLocks (sc_stats s) + 1\<rparr>\<rparr>"
  have l1: "at_lock (e # rest) s1" "sc_lockCursor s1 = sc_lockCursor s" "sc_cfg s1 = sc_cfg s"
    using assms(4) by (simp_all add: s1_def at_lock_def)
  obtain l where l: "UnmarshalLock (snd e) = Inr l" "st_lock (cfg_Snapshot (sc_cfg s)) k = Some l"
    using lock_entryE [OF assms(1,2)] assms(3) by auto
  have "handleLock k s = (map_option (LockError k) (scan_lock (sc_cfg s) k), advanceLockCursor s1)"
    unfolding handleLock_def Let_def s1_def [symmetric]
    using at_lock_valid [OF assms(4)] at_lock_entry [OF assms(4)] at_lock_entry [OF l1(1)] assms(3) l l1(3)
    by (simp add: scan_lock_def)
  moreover have "at_lock rest (advanceLockCursor s1)" using l1 assms(5) by (intro at_lock_advance) simp_all
  moreover have "default_ok s1 = default_ok s" by (simp add: s1_def default_ok_def split: option.split)
  ultimately show ?thesis using l1(3) by (intro exI [of _ "advanceLockCursor s1"]) (simp, simp add: s1_def)
qed

subsection \<open>The keys of a scan\<close>

text \<open>What a forward snapshot scan makes of one key.\<close>

definition key_read :: "ScannerConfig \<Rightarrow> bytes \<Rightarrow> mvcc_error + bytes option \<times> bool" where
  "key_read cfg k =
     (case scan_lock cfg k of
        Some l \<Rightarrow> Inl (LockError k l)
      | None \<Rightarrow> write_outcome cfg k
          (fst (data_version (filter (\<lambda>v. fst v \<le> cfg_ReadTS cfg) (st_versions (cfg_Snapshot cfg) k)))))"

text \<open>The keys of the range, in order, each with a visible record.\<close>

definition scan_ctx :: "ScannerConfig \<Rightarrow> bytes list \<Rightarrow> bool" where
  "scan_ctx cfg ks \<longleftrightarrow> store_ok (cfg_Snapshot cfg) \<and> \<not> cfg_Desc cfg \<and> sorted_wrt (<) ks \<and>
     (\<forall>k \<in> set ks. (\<exists>v \<in> set (st_versions (cfg_Snapshot cfg) k). fst v \<le> cfg_ReadTS cfg) \<and> \<not> beyondBound k cfg)"

text \<open>The scanner in front of the keys \<open>ks\<close> and the locks \<open>ls\<close>.\<close>

definition scan_at :: "ScannerConfig \<Rightarrow> bytes list \<Rightarrow> bytes list \<Rightarrow> cf \<Rightarrow> Scanner \<Rightarrow> bool" where
  "scan_at cfg ds ks ls s \<longleftrightarrow> sc_cfg s = cfg \<and> sc_isStarted s \<and> default_ok s \<and>
     at_pos (recs (cfg_Snapshot cfg) (ds @ ks)) (recs (cfg_Snapshot cfg) ks) s \<and>
     at_lock ls s \<and> locks_cover (cfg_Snapshot cfg) ks ls"

lemma scan_atD:
  assumes "scan_at cfg ds ks ls s"
  shows "sc_cfg s = cfg" "sc_isStarted s" "default_ok s"
    "at_pos (recs (cfg_Snapshot cfg) (ds @ ks)) (recs (cfg_Snapshot cfg) ks) s"
    "at_lock ls s" "locks_cover (cfg_Snapshot cfg) ks ls"
  using assms by (simp_all add: scan_at_def)

lemma scan_ctxD:
  assumes "scan_ctx cfg (ds @ k # ks)"
  shows "store_ok (cfg_Snapshot cfg)" "\<not> cfg_Desc cfg" "sorted_wrt (<) (ds @ k # ks)" "\<not> beyondBound k cfg"
    "\<exists>v \<in> set (st_versions (cfg_Snapshot cfg) k). fst v \<le> cfg_ReadTS cfg"
  using assms by (simp_all add: scan_ctx_def)

lemma grp_nonempty: "scan_ctx cfg (ds @ k # ks) \<Longrightarrow> grp (cfg_Snapshot cfg) k \<noteq> []"
  using scan_ctxD(5) by (force simp: grp_Nil)

text \<open>The user key under the write cursor and under the lock cursor.\<close>

lemma write_key:
  assumes "scan_ctx cfg (ds @ k # ks)" "scan_at cfg ds (k # ks) ls s"
  shows "writeCursorValid s" "\<exists>t. DecodeKey (it_Key (sc_writeCursor s)) = Inr (k, t)"
proof -
  let ?st = "cfg_Snapshot cfg"
  obtain e G where G: "grp ?st k = e # G" using grp_nonempty [OF assms(1)] by (cases "grp ?st k") auto
  have pos: "at_pos (recs ?st (ds @ k # ks)) (e # G @ recs ?st ks) s" using scan_atD(4) [OF assms(2)] G by simp
  have "fst e = EncodeKey k (fst (dec_version e))"
    using grpD(1) [OF store_okD(1) [OF scan_ctxD(1) [OF assms(1)]], of e k] G by simp
  then have "DecodeKey (fst e) = Inr (k, fst (dec_version e))" by simp
  then show "writeCursorValid s" "\<exists>t. DecodeKey (it_Key (sc_writeCursor s)) = Inr (k, t)"
    using at_pos_valid [OF pos] at_pos_entry(1) [OF pos] by auto
qed

lemma write_end: "scan_at cfg ds [] ls s \<Longrightarrow> \<not> writeCursorValid s"
  using at_pos_valid scan_atD(4) by fastforce

lemma lock_key:
  assumes "mvcc_ok (cfg_Snapshot cfg)" "scan_at cfg ds ks (l # ls) s"
  obtains lk where "fst l = EncodeLockKey lk" "lockCursorValid s" "DecodeLockKey (it_Key (the (sc_lockCursor s))) = Inr lk"
proof -
  have l: "l \<in> set (cfg_Snapshot cfg CFLock)" using scan_atD(6) [OF assms(2)] by (simp add: locks_cover_def)
  obtain lk where "fst l = EncodeLockKey lk" using lock_entryE [OF assms(1) l] by blast
  then show thesis
    using that at_lock_valid [OF scan_atD(5) [OF assms(2)]] at_lock_entry(1) [OF scan_atD(5) [OF assms(2)]] by auto
qed

text \<open>A lock in front of the next key is passed over.\<close>

lemma Next_loop_skip_lock:
  assumes "scan_ctx cfg (ds @ ks)" "scan_at cfg ds ks (l # ls) s" "fst l = EncodeLockKey lk"
    and "ks = [] \<or> lk < hd ks"
  shows "(beyondBound lk cfg \<and> ks = [] \<and> Next_loop s = Some (Inr None, advanceLockCursor s)) \<or>
     (\<not> beyondBound lk cfg \<and> Next_loop s = Next_loop (advanceLockCursor s) \<and> scan_at cfg ds ks ls (advanceLockCursor s))"
proof -
  let ?s = "advanceLockCursor s"
  have ok: "mvcc_ok (cfg_Snapshot cfg)" "\<not> cfg_Desc cfg" "sorted_wrt (<) (ds @ ks)"
    using assms(1) by (auto simp: scan_ctx_def store_okD)
  note d = scan_atD [OF assms(2)]
  have lock: "lockCursorValid s" "DecodeLockKey (it_Key (the (sc_lockCursor s))) = Inr lk"
    using lock_key [OF ok(1) assms(2)] assms(3) by auto
  have cur: "currentUserKey s = (Some (lk, False, True), ?s)"
  proof (cases ks)
    case Nil
    then show ?thesis using write_end assms(2) lock by (simp add: currentUserKey_def)
  next
    case (Cons k ks')
    then have "lk < k" using assms(4) by simp
    moreover from this have "\<not> k < lk" by (rule less_not_sym)
    ultimately show ?thesis
      using write_key [of cfg ds k ks' "l # ls" s] assms(1,2) Cons lock ok(2) d(1) by (auto simp: currentUserKey_def)
  qed
  have at: "at_lock ls ?s" using at_lock_advance [OF d(5)] d(1) ok(2) by simp
  have skip: "handleLock lk ?s = (None, ?s)"
    by (rule handleLock_skips [OF ok(1) _ _ assms(3) at]) (use d(6) in \<open>simp_all add: locks_cover_def\<close>)
  have unf: "Next_loop s = (if beyondBound lk cfg then Some (Inr None, ?s) else Next_loop ?s)"
    by (subst Next_loop.simps) (simp add: cur lock(1) skip d(1))
  have "lk \<notin> set ks" using assms(4) ok(3) by (cases ks) (auto simp: sorted_wrt_append)
  then have "locks_cover (cfg_Snapshot cfg) ks ls"
    using locks_cover_tl [OF d(6)] assms(3) by auto
  then have inv: "scan_at cfg ds ks ls ?s" using d at by (simp add: scan_at_def)
  have "ks = []" if b: "beyondBound lk cfg"
  proof (cases ks)
    case (Cons k ks')
    then have "\<not> beyondBound k cfg" "lk < k" using assms(1,4) by (simp_all add: scan_ctx_def)
    then show ?thesis using b ok(2) by (auto simp: beyondBound_def split: option.splits)
  qed simp
  then show ?thesis using unf inv by auto
qed

text \<open>At the next key its lock, if it has one, is checked first.\<close>

lemma locks_cover_Cons: "locks_cover st (k # ks) ls \<Longrightarrow> locks_cover st ks ls"
  by (simp add: locks_cover_def)

lemma lock_phase:
  assumes "scan_ctx cfg (ds @ k # ks)" "scan_at cfg ds (k # ks) ls s"
    and "ls = [] \<or> (\<exists>lk. fst (hd ls) = EncodeLockKey lk \<and> k \<le> lk)"
  shows "\<exists>b s1 ls1. currentUserKey s = (Some (k, True, b), s) \<and>
    (if b then handleLock k s else (None, s)) = (map_option (LockError k) (scan_lock cfg k), s1) \<and>
    length ls1 \<le> length ls \<and> sc_cfg s1 = cfg \<and> sc_isStarted s1 \<and> default_ok s1 \<and>
    at_pos (recs (cfg_Snapshot cfg) (ds @ k # ks)) (grp (cfg_Snapshot cfg) k @ recs (cfg_Snapshot cfg) ks) s1 \<and>
    at_lock ls1 s1 \<and> locks_cover (cfg_Snapshot cfg) ks ls1"
proof -
  let ?st = "cfg_Snapshot cfg"
  note d = scan_atD [OF assms(2)]
  have ok: "mvcc_ok ?st" "\<not> cfg_Desc cfg" "sorted_wrt (<) (ds @ k # ks)"
    using scan_ctxD [OF assms(1)] store_okD by auto
  obtain t where w: "writeCursorValid s" "DecodeKey (it_Key (sc_writeCursor s)) = Inr (k, t)"
    using write_key [OF assms(1,2)] by blast
  have pos: "at_pos (recs ?st (ds @ k # ks)) (grp ?st k @ recs ?st ks) s" using d(4) by simp
  have free: ?thesis if no: "\<And>e. e \<in> set ls \<Longrightarrow> fst e \<noteq> EncodeLockKey k" and cur: "currentUserKey s = (Some (k, True, False), s)"
  proof -
    have "scan_lock cfg k = None" using locks_cover_no_lock [OF d(6) no] by (simp add: scan_lock_def)
    then show ?thesis using cur d pos locks_cover_Cons [OF d(6)]
      by (intro exI [of _ False] exI [of _ s] exI [of _ ls]) simp
  qed
  show ?thesis
  proof (cases ls)
    case Nil
    then have "\<not> lockCursorValid s" using at_lock_valid [OF d(5)] by simp
    then show ?thesis using w Nil by (intro free) (simp_all add: currentUserKey_def)
  next
    case (Cons l ls')
    then obtain lk where lk: "fst l = EncodeLockKey lk" "lockCursorValid s"
        "DecodeLockKey (it_Key (the (sc_lockCursor s))) = Inr lk"
      using lock_key [OF ok(1)] assms(2) by blast
    have le: "k \<le> lk" using assms(3) Cons lk(1) by auto
    show ?thesis
    proof (cases "k = lk")
      case True
      have l: "l \<in> set (?st CFLock)" using d(6) Cons by (simp add: locks_cover_def)
      have "currentUserKey s = (Some (k, True, True), s)"
        using w lk(2,3) True d(1) ok(2) by (simp add: currentUserKey_def)
      moreover obtain s1 where "handleLock k s = (map_option (LockError k) (scan_lock cfg k), s1)" "at_lock ls' s1"
          "sc_cfg s1 = cfg" "sc_isStarted s1" "default_ok s1" "\<forall>W r. at_pos W r s1 = at_pos W r s"
        using handleLock_checks [of s l k ls'] ok l lk(1) True d Cons by auto
      moreover have "k \<notin> set ks" using ok(3) by (auto simp: sorted_wrt_append)
      then have "locks_cover ?st ks ls'"
        using locks_cover_tl [of ?st ks l ls'] locks_cover_Cons [OF d(6)] lk(1) True Cons by auto
      ultimately show ?thesis using pos Cons by (intro exI [of _ True] exI [of _ s1] exI [of _ ls']) simp
    next
      case False
      then have lt: "k < lk" using le by simp
      then have "currentUserKey s = (Some (k, True, False), s)"
        using w lk(2,3) d(1) ok(2) by (simp add: currentUserKey_def)
      moreover have "EncodeLockKey k < fst e" if "e \<in> set ls" for e
      proof -
        have "fst l \<le> fst e" using that d(6) Cons by (auto simp: locks_cover_def)
        moreover have "EncodeLockKey k < fst l" using lk(1) lt by simp
        ultimately show ?thesis by (rule less_le_trans [rotated])
      qed
      then have "fst e \<noteq> EncodeLockKey k" if "e \<in> set ls" for e using that by (metis less_irrefl)
      ultimately show ?thesis by (intro free)
    qed
  qed
qed

lemma Next_loop_key:
  assumes "scan_ctx cfg (ds @ k # ks)" "scan_at cfg ds (k # ks) ls s"
    and "ls = [] \<or> (\<exists>lk. fst (hd ls) = EncodeLockKey lk \<and> k \<le> lk)"
  shows "\<exists>s' ls'. length ls' \<le> length ls \<and>
    Next_loop s = (case key_read cfg k of Inl e \<Rightarrow> Some (Inl e, s')
      | Inr (v, found) \<Rightarrow> if found then Some (Inr (Some (k, v)), s') else Next_loop s') \<and>
    (\<forall>r. key_read cfg k = Inr r \<longrightarrow> scan_at cfg (ds @ [k]) ks ls' s')"
proof -
  let ?st = "cfg_Snapshot cfg"
  note c = scan_ctxD [OF assms(1)]
  obtain b s1 ls1 where lock: "currentUserKey s = (Some (k, True, b), s)"
      "(if b then handleLock k s else (None, s)) = (map_option (LockError k) (scan_lock cfg k), s1)"
      "length ls1 \<le> length ls" "sc_cfg s1 = cfg" "sc_isStarted s1" "default_ok s1"
      "at_pos (recs ?st (ds @ k # ks)) (grp ?st k @ recs ?st ks) s1" "at_lock ls1 s1" "locks_cover ?st ks ls1"
    using lock_phase [OF assms] by blast
  have valid: "writeCursorValid s" using write_key(1) [OF assms(1,2)] .
  have cfg: "sc_cfg s = cfg" using scan_atD(1) [OF assms(2)] .
  show ?thesis
  proof (cases "scan_lock cfg k")
    case (Some l)
    then have "Next_loop s = Some (Inl (LockError k l), s1)"
      by (subst Next_loop.simps) (simp add: valid lock(1,2) c(4) cfg)
    then show ?thesis using Some lock(3) by (auto simp: key_read_def)
  next
    case None
    obtain s2 where w: "handleWrite k s1 = Some (key_read cfg k, s2)" "kept s1 s2"
        "at_pos (recs ?st (ds @ k # ks)) (recs ?st ks) s2"
      using handleWrite_pos [OF c(1,3), of s1] c lock None by (auto simp: key_read_def)
    define s3 where "s3 = s2\<lparr>sc_stats := (sc_stats s2)\<lparr>ss_ProcessedKeys := ss_ProcessedKeys (sc_stats s2) + 1\<rparr>\<rparr>"
    have unf: "Next_loop s = (case key_read cfg k of Inl e \<Rightarrow> Some (Inl e, s2)
        | Inr (v, found) \<Rightarrow> if found then Some (Inr (Some (k, v)), s3) else Next_loop s2)"
      unfolding s3_def
      by (subst Next_loop.simps) (simp add: valid lock(1,2) c(4) cfg None w(1) split: sum.split)
    have at2: "scan_at cfg (ds @ [k]) ks ls1 s2"
      using w(2,3) lock by (simp add: scan_at_def kept_def at_lock_def)
    then have at3: "scan_at cfg (ds @ [k]) ks ls1 s3"
      by (simp add: scan_at_def s3_def at_lock_def default_ok_def split: option.splits)
    show ?thesis
    proof (cases "\<exists>v. key_read cfg k = Inr (v, True)")
      case True
      then show ?thesis using unf at3 lock(3) by (intro exI [of _ s3] exI [of _ ls1]) auto
    next
      case False
      then show ?thesis using unf at2 lock(3)
        by (intro exI [of _ s2] exI [of _ ls1]) (auto split: sum.split)
    qed
  qed
qed

text \<open>A call of \<^verbatim>\<open>Next\<close> goes to the next key that is not skipped.\<close>

definition skipped :: "ScannerConfig \<Rightarrow> bytes \<Rightarrow> bool" where
  "skipped cfg k \<longleftrightarrow> (\<exists>v. key_read cfg k = Inr (v, False))"

lemma Next_loop_result:
  assumes "scan_ctx cfg (ds @ ks)" "scan_at cfg ds ks ls s"
  shows "case dropWhile (skipped cfg) ks of
      [] \<Rightarrow> (\<exists>s'. Next_loop s = Some (Inr None, s'))
    | k # ks' \<Rightarrow>
        (case key_read cfg k of
          Inl e \<Rightarrow> (\<exists>s'. Next_loop s = Some (Inl e, s'))
        | Inr (v, _) \<Rightarrow> (\<exists>s' ds' ls'. Next_loop s = Some (Inr (Some (k, v)), s') \<and>
            ds' @ ks' = ds @ ks \<and> scan_at cfg ds' ks' ls' s'))"
  using assms
proof (induction "length ks + length ls" arbitrary: ds ks ls s rule: less_induct)
  case less
  have ok: "mvcc_ok (cfg_Snapshot cfg)" using less.prems(1) by (simp add: scan_ctx_def store_okD)
  consider (stop) "ks = []" "ls = []"
    | (lock) l ls' lk where "ls = l # ls'" "fst l = EncodeLockKey lk" "ks = [] \<or> lk < hd ks"
    | (key) k ks' where "ks = k # ks'" "ls = [] \<or> (\<exists>lk. fst (hd ls) = EncodeLockKey lk \<and> k \<le> lk)"
  proof (cases ls)
    case (Cons l ls')
    then obtain lk where "fst l = EncodeLockKey lk" using lock_key [OF ok] less.prems(2) by blast
    then show thesis using lock key Cons by (cases ks) (fastforce simp: not_less)+
  qed (cases ks; auto)
  then show ?case
  proof cases
    case stop
    then have "\<not> writeCursorValid s" "\<not> lockCursorValid s"
      using write_end less.prems(2) at_lock_valid [OF scan_atD(5) [OF less.prems(2)]] by auto
    then show ?thesis using stop by (subst Next_loop.simps) simp
  next
    case lock
    then consider "ks = []" "Next_loop s = Some (Inr None, advanceLockCursor s)"
      | "Next_loop s = Next_loop (advanceLockCursor s)" "scan_at cfg ds ks ls' (advanceLockCursor s)"
      using Next_loop_skip_lock [OF less.prems(1), of l ls' s lk] less.prems(2) by auto
    then show ?thesis
    proof cases
      case 2
      show ?thesis unfolding 2(1) using less.hyps [of ks ls' ds "advanceLockCursor s"] less.prems(1) 2(2) lock(1) by simp
    qed simp
  next
    case key
    obtain s' ls' where n: "length ls' \<le> length ls"
        "Next_loop s = (case key_read cfg k of Inl e \<Rightarrow> Some (Inl e, s')
          | Inr (v, found) \<Rightarrow> if found then Some (Inr (Some (k, v)), s') else Next_loop s')"
        "\<And>r. key_read cfg k = Inr r \<Longrightarrow> scan_at cfg (ds @ [k]) ks' ls' s'"
      using Next_loop_key [of cfg ds k ks' ls s] less.prems key by auto
    show ?thesis
    proof (cases "skipped cfg k")
      case True
      then have unf: "Next_loop s = Next_loop s'" and at: "scan_at cfg (ds @ [k]) ks' ls' s'"
        using n(2,3) by (auto simp: skipped_def)
      have eq: "ds @ ks = (ds @ [k]) @ ks'" using key(1) by simp
      show ?thesis unfolding unf eq using less.hyps [of ks' ls' "ds @ [k]" s'] less.prems(1) True n(1) key(1) at by simp
    next
      case False
      show ?thesis
      proof (cases "key_read cfg k")
        case (Inr r)
        then obtain v where "r = (v, True)" using False by (cases r) (auto simp: skipped_def)
        then show ?thesis using n(2,3) Inr False key(1)
          by (auto intro!: exI [of _ s'] exI [of _ "ds @ [k]"] exI [of _ ls'])
      qed (use n(2) False key(1) in auto)
    qed
  qed
qed

subsection \<open>The keys of a range\<close>

definition in_range :: "bytes option \<Rightarrow> bytes option \<Rightarrow> bytes \<Rightarrow> bool" where
  "in_range lo hi k \<longleftrightarrow> (case lo of None \<Rightarrow> True | Some l \<Rightarrow> l \<le> k) \<and> (case hi of None \<Rightarrow> True | Some h \<Rightarrow> k < h)"

definition user_key :: "entry \<Rightarrow> bytes" where
  "user_key e = fst (projr (DecodeKey (fst e)))"

definition scan_keys :: "store \<Rightarrow> bytes option \<Rightarrow> bytes option \<Rightarrow> bytes list" where
  "scan_keys st lo hi = filter (in_range lo hi) (remdups_adj (map user_key (st CFWrite)))"

lemma user_key_grp:
  assumes "mvcc_ok st" "e \<in> set (st CFWrite)"
  shows "e \<in> set (grp st k) \<longleftrightarrow> user_key e = k"
proof -
  have "write_entry_ok e" using assms by (auto simp: mvcc_ok_def write_cf_ok_def list_all_iff)
  then obtain k' t where "fst e = EncodeKey k' t" by (rule write_entry_okE)
  then show ?thesis using assms(2) by (simp add: grp_def same_key_def user_key_def)
qed

lemma sorted_remdups_adj_strict: "sorted xs \<Longrightarrow> sorted_wrt (<) (remdups_adj xs)" for xs :: "'a :: linorder list"
  by (induction xs rule: remdups_adj.induct) auto

lemma scan_keys_sorted:
  assumes "mvcc_ok st"
  shows "sorted_wrt (<) (scan_keys st lo hi)"
proof -
  have ok: "sorted_wrt (\<lambda>x y. fst x < fst y) (st CFWrite)" "\<And>e. e \<in> set (st CFWrite) \<Longrightarrow> write_entry_ok e"
    using assms by (auto simp: mvcc_ok_def write_cf_ok_def sorted_wrt_cf list_all_iff)
  have "user_key x \<le> user_key y" if "x \<in> set (st CFWrite)" "y \<in> set (st CFWrite)" "fst x < fst y" for x y
  proof -
    have w: "write_entry_ok x" "write_entry_ok y" using that ok(2) by auto
    obtain k t where x: "fst x = EncodeKey k t" using w(1) by (rule write_entry_okE)
    obtain k' t' where y: "fst y = EncodeKey k' t'" using w(2) by (rule write_entry_okE)
    show ?thesis using that(3) x y by (auto simp: user_key_def EncodeKey_less)
  qed
  then have "sorted (map user_key (st CFWrite))"
    unfolding sorted_wrt_map by (rule sorted_wrt_mono_rel [OF _ ok(1)])
  then show ?thesis unfolding scan_keys_def by (intro sorted_wrt_filter sorted_remdups_adj_strict)
qed

lemma set_scan_keys:
  assumes "mvcc_ok st"
  shows "k \<in> set (scan_keys st lo hi) \<longleftrightarrow> st_versions st k \<noteq> [] \<and> in_range lo hi k"
proof -
  have "k \<in> user_key ` set (st CFWrite) \<longleftrightarrow> grp st k \<noteq> []"
    using user_key_grp [OF assms, of _ k] by (force simp: grp_def filter_empty_conv)
  then show ?thesis by (auto simp: scan_keys_def grp_Nil)
qed

text \<open>The bounded write cursor runs over the records of these keys.\<close>

lemma write_cursor_recs:
  assumes "mvcc_ok st"
  shows "filter (\<lambda>e. in_bounds \<lparr>opt_LowerBound = map_option (\<lambda>k. EncodeKey k TSMax) lo,
      opt_UpperBound = map_option (\<lambda>k. EncodeKey k TSMax) hi\<rparr> (fst e)) (st CFWrite) = recs st (scan_keys st lo hi)"
    (is "filter ?P _ = _")
proof (rule sorted_wrt_set_unique [where R = "\<lambda>x y. fst x < fst y"])
  have ok: "sorted_wrt (\<lambda>x y. fst x < fst y) (st CFWrite)" "\<And>e. e \<in> set (st CFWrite) \<Longrightarrow> write_entry_ok e"
    using assms by (auto simp: mvcc_ok_def write_cf_ok_def sorted_wrt_cf list_all_iff)
  show "sorted_wrt (\<lambda>x y. fst x < fst y) (filter ?P (st CFWrite))" using ok(1) by (rule sorted_wrt_filter)
  show "sorted_wrt (\<lambda>x y. fst x < fst y) (recs st (scan_keys st lo hi))"
    using grps_sorted [OF assms scan_keys_sorted [OF assms]] .
  have "?P e \<longleftrightarrow> in_range lo hi (user_key e)" if "e \<in> set (st CFWrite)" for e
  proof -
    have "write_entry_ok e" using that by (rule ok(2))
    then obtain k t where e: "fst e = EncodeKey k t" by (rule write_entry_okE)
    have "EncodeKey l TSMax \<le> EncodeKey k t \<longleftrightarrow> l \<le> k" "EncodeKey k t < EncodeKey l TSMax \<longleftrightarrow> k < l" for l
      by (auto simp: EncodeKey_le EncodeKey_less TSMax_def le_less [of l k] not_less)
    then show ?thesis using e by (simp add: in_bounds_def in_range_def user_key_def split: option.split)
  qed
  moreover have "user_key e \<in> set (scan_keys st lo hi) \<longleftrightarrow> in_range lo hi (user_key e)" if "e \<in> set (st CFWrite)" for e
    using that by (simp add: scan_keys_def)
  moreover have "e \<in> set (recs st (scan_keys st lo hi)) \<longleftrightarrow> e \<in> set (st CFWrite) \<and> user_key e \<in> set (scan_keys st lo hi)" for e
    using user_key_grp [OF assms, of e] grpD(4) [OF assms, of e] by fastforce
  ultimately have "e \<in> set (filter ?P (st CFWrite)) \<longleftrightarrow> e \<in> set (recs st (scan_keys st lo hi))" for e
    unfolding set_filter mem_Collect_eq by metis
  then show "set (filter ?P (st CFWrite)) = set (recs st (scan_keys st lo hi))" by (rule set_eqI)
qed auto

text \<open>The bounded lock cursor runs over the locks of the range.\<close>

lemma lock_cursor_covers:
  assumes "mvcc_ok st"
  shows "locks_cover st (scan_keys st lo hi) (filter (\<lambda>e. in_bounds \<lparr>opt_LowerBound = map_option EncodeLockKey lo,
      opt_UpperBound = map_option EncodeLockKey hi\<rparr> (fst e)) (st CFLock))"
proof -
  have "in_bounds \<lparr>opt_LowerBound = map_option EncodeLockKey lo, opt_UpperBound = map_option EncodeLockKey hi\<rparr> (EncodeLockKey k)"
    if "k \<in> set (scan_keys st lo hi)" for k
    using that by (auto simp: scan_keys_def in_range_def in_bounds_def not_less [symmetric] split: option.splits)
  moreover have "sorted_wrt (\<lambda>x y. fst x < fst y) (st CFLock)" using assms by (simp add: mvcc_ok_def sorted_wrt_cf)
  ultimately show ?thesis unfolding locks_cover_def by (auto intro: sorted_wrt_filter) force
qed

lemma initial_scan_at:
  assumes "store_ok (cfg_Snapshot cfg)" "\<not> cfg_Desc cfg" "cfg_IsolationLevel cfg = IsolationLevelSI"
  shows "\<exists>ls. scan_at cfg [] (scan_keys (cfg_Snapshot cfg) (cfg_LowerBound cfg) (cfg_UpperBound cfg)) ls
    ((initialSeek (NewScanner cfg))\<lparr>sc_isStarted := True\<rparr>)"
  using assms(2,3) write_cursor_recs [OF store_okD(1) [OF assms(1)]] lock_cursor_covers [OF store_okD(1) [OF assms(1)]]
  by (auto simp: scan_at_def NewScanner_def Let_def initialSeek_def default_ok_def at_pos_def at_lock_def SeekToFirst_def)

subsection \<open>Scans as point reads\<close>

text \<open>Point reads of the given keys one after the other, at most \<open>n\<close> pairs, up to the first error.\<close>

fun scan_reads :: "(bytes \<Rightarrow> mvcc_error + bytes option) \<Rightarrow> bool \<Rightarrow> nat \<Rightarrow> bytes list \<Rightarrow> mvcc_error + KvPairResult list" where
  "scan_reads f keyOnly n [] = Inr []"
| "scan_reads f keyOnly n (k # ks) =
     (if n = 0 then Inr []
      else case f k of
        Inl e \<Rightarrow> Inl e
      | Inr None \<Rightarrow> scan_reads f keyOnly n ks
      | Inr (Some v) \<Rightarrow>
          (case scan_reads f keyOnly (n - 1) ks of
            Inl e \<Rightarrow> Inl e
          | Inr rs \<Rightarrow> Inr (\<lparr>kv_Key = k, kv_Value = (if keyOnly then None else Some v), kv_Err = None\<rparr> # rs)))"

lemma scan_reads_skip: "n \<noteq> 0 \<Longrightarrow> scan_reads f keyOnly n ks = scan_reads f keyOnly n (dropWhile (\<lambda>k. f k = Inr None) ks)"
  by (induction ks) auto

lemma scan_reads_0 [simp]: "scan_reads f keyOnly 0 ks = Inr []"
  by (cases ks) simp_all

definition reads_agree :: "ScannerConfig \<Rightarrow> (bytes \<Rightarrow> mvcc_error + bytes option) \<Rightarrow> bytes \<Rightarrow> bool" where
  "reads_agree cfg f k \<longleftrightarrow>
     key_read cfg k =
       (case f k of
          Inl e \<Rightarrow> Inl e
        | Inr None \<Rightarrow> Inr (None, False)
        | Inr (Some v) \<Rightarrow> Inr (if cfg_KeyOnly cfg then None else Some v, True))"

lemma reads_agree_skipped: "reads_agree cfg f k \<Longrightarrow> skipped cfg k \<longleftrightarrow> f k = Inr None"
  by (auto simp: reads_agree_def skipped_def split: sum.splits option.splits)

lemma Scan_loop_reads:
  assumes "scan_ctx cfg (ds @ ks)" "scan_at cfg ds ks ls s" "\<forall>k \<in> set ks. reads_agree cfg f k"
    and "if limit = 0 then length ks \<le> n else length results + n = unat limit"
  shows "Scan_loop limit (cfg_KeyOnly cfg) s results =
    Some (case scan_reads f (cfg_KeyOnly cfg) n ks of Inl e \<Rightarrow> Inl e | Inr rs \<Rightarrow> Inr (results @ rs))"
  using assms
proof (induction "length ks" arbitrary: ds ks ls s results n rule: less_induct)
  case less
  let ?keyOnly = "cfg_KeyOnly cfg"
  have start: "Scanner_Next s = Next_loop s" using scan_atD(2) [OF less.prems(2)] by (simp add: Scanner_Next_def)
  have more: "limit = 0 \<or> of_nat (length results) < limit \<longleftrightarrow> limit = 0 \<or> n \<noteq> 0"
  proof (cases "limit = 0")
    case False
    then have len: "length results + n = unat limit" using less.prems(4) by simp
    then have "unat (of_nat (length results) :: 32 word) = length results"
      using unsigned_less [where ?'a = nat, of limit] by (simp add: unat_of_nat)
    then show ?thesis using len by (auto simp: word_less_nat_alt)
  qed simp
  have skip: "dropWhile (skipped cfg) ks = dropWhile (\<lambda>k. f k = Inr None) ks"
    using less.prems(3) reads_agree_skipped by (intro dropWhile_cong) auto
  show ?case
  proof (cases "n = 0")
    case True
    show ?thesis
    proof (cases "limit = 0")
      case limit: True
      then have "ks = []" using True less.prems(4) by simp
      then obtain s' where "Next_loop s = Some (Inr None, s')" using Next_loop_result [OF less.prems(1,2)] by auto
      then show ?thesis using limit True by (subst Scan_loop.simps) (simp add: start)
    next
      case False
      then show ?thesis using True more by (subst Scan_loop.simps) simp
    qed
  next
    case n: False
    note reads = scan_reads_skip [OF n, of f ?keyOnly ks, folded skip]
    show ?thesis
    proof (cases "dropWhile (skipped cfg) ks")
      case Nil
      obtain s' where "Next_loop s = Some (Inr None, s')"
        using Next_loop_result [OF less.prems(1,2), unfolded Nil list.case] by blast
      then show ?thesis using reads Nil n more by (subst Scan_loop.simps) (simp add: start)
    next
      case (Cons k ks')
      note res = Next_loop_result [OF less.prems(1,2), unfolded Cons list.case]
      have suf: "ks = takeWhile (skipped cfg) ks @ k # ks'" using Cons by (metis takeWhile_dropWhile_id)
      then have k: "k \<in> set ks" "set ks' \<subseteq> set ks" "length ks' < length ks"
        by (metis in_set_conv_decomp, metis Un_upper2 set_append set_subset_Cons subset_trans, metis Cons Suc_le_lessD length_Cons length_dropWhile_le)
      have agree: "reads_agree cfg f k" using less.prems(3) k(1) by blast
      have "\<not> skipped cfg k" using Cons hd_dropWhile [of "skipped cfg" ks] by simp
      then have fk: "f k \<noteq> Inr None" using reads_agree_skipped [OF agree] by simp
      show ?thesis
      proof (cases "f k")
        case (Inl e)
        then obtain s' where "Next_loop s = Some (Inl e, s')" using res agree by (auto simp: reads_agree_def)
        then show ?thesis using reads Cons Inl n more by (subst Scan_loop.simps) (simp add: start)
      next
        case (Inr r)
        then obtain v where r: "r = Some v" using fk by (cases r) auto
        let ?v = "if ?keyOnly then None else Some v"
        obtain s' ds' ls' where s': "Next_loop s = Some (Inr (Some (k, ?v)), s')" "ds' @ ks' = ds @ ks" "scan_at cfg ds' ks' ls' s'"
          using res agree Inr r by (auto simp: reads_agree_def)
        let ?kv = "\<lparr>kv_Key = k, kv_Value = ?v, kv_Err = None\<rparr>"
        have "Scan_loop limit ?keyOnly s results = Scan_loop limit ?keyOnly s' (results @ [?kv])"
          using n more s'(1) by (subst Scan_loop.simps) (simp add: start)
        also have "\<dots> = Some (case scan_reads f ?keyOnly (n - 1) ks' of Inl e \<Rightarrow> Inl e | Inr rs \<Rightarrow> Inr ((results @ [?kv]) @ rs))"
          by (rule less.hyps [OF k(3) _ s'(3)]) (use less.prems k s'(2) n in \<open>auto split: if_splits\<close>)
        finally show ?thesis using reads Cons Inr r n by (simp split: sum.split)
      qed
    qed
  qed
qed

subsection \<open>Properties\<close>

text \<open>The large values of the visible versions are in place.\<close>

definition value_present :: "store \<Rightarrow> TimeStamp \<Rightarrow> bytes \<Rightarrow> bool" where
  "value_present st ts k \<longleftrightarrow>
     (case fst (data_version (filter (\<lambda>v. fst v \<le> ts) (st_versions st k))) of
        None \<Rightarrow> True
      | Some w \<Rightarrow> write_ShortValue w \<noteq> None \<or> st_value st k (write_StartTS w) \<noteq> None)"

definition end_bound :: "bytes \<Rightarrow> bytes option" where
  "end_bound endKey = (if 0 < length endKey then Some endKey else None)"

lemma Storage_Get_total:
  assumes "store_ok (sto_engine s)"
  shows "Storage_Get k ts s =
    Some (case blocking_lock (NewPointGetter (sto_engine s) ts IsolationLevelSI) k of
      Some l \<Rightarrow> Inl (LockError k l) | None \<Rightarrow> Inr (read_at (sto_engine s) k ts))"
  unfolding Storage_Get_def Storage_GetWithIsolation_def
  by (rule NewPointGetter_Get) (use assms in \<open>simp_all add: store_okD plain_last_change_ok\<close>)

lemma point_reads_agree:
  assumes "store_ok (sto_engine s)" "value_present (sto_engine s) (cfg_ReadTS cfg) k"
    and "cfg_Snapshot cfg = sto_engine s" "cfg_BypassLocks cfg = (\<lambda>_. False)"
  shows "reads_agree cfg (\<lambda>k. the (Storage_Get k (cfg_ReadTS cfg) s)) k"
proof -
  have lock: "blocking_lock (NewPointGetter (sto_engine s) (cfg_ReadTS cfg) IsolationLevelSI) k = scan_lock cfg k"
    using assms(3,4) by (auto simp: blocking_lock_def scan_lock_def split: option.split)
  have "write_outcome cfg k (fst (data_version (filter (\<lambda>v. fst v \<le> cfg_ReadTS cfg) (st_versions (cfg_Snapshot cfg) k)))) =
      (case read_at (sto_engine s) k (cfg_ReadTS cfg) of
         None \<Rightarrow> Inr (None, False) | Some v \<Rightarrow> Inr (if cfg_KeyOnly cfg then None else Some v, True))"
    using assms(2,3) by (auto simp: write_outcome_def read_at_def value_present_def split: option.splits prod.splits)
  then show ?thesis
    unfolding reads_agree_def key_read_def Storage_Get_total [OF assms(1)] lock by (simp split: option.split)
qed

lemma Storage_Scan_reads:
  assumes "store_ok (sto_engine s)" "ks = scan_keys (sto_engine s) startKey (end_bound endKey)"
    and "\<And>k. k \<in> set ks \<Longrightarrow> \<exists>v \<in> set (st_versions (sto_engine s) k). fst v \<le> version"
    and "\<And>k. k \<in> set ks \<Longrightarrow> value_present (sto_engine s) version k"
  shows "Storage_Scan startKey endKey limit version keyOnly s =
      Some (scan_reads (\<lambda>k. the (Storage_Get k version s)) keyOnly (if limit = 0 then length ks else unat limit) ks) \<and>
    (\<forall>k. Storage_Get k version s \<noteq> None) \<and> sorted_wrt (<) ks \<and>
    (\<forall>k. k \<in> set ks \<longleftrightarrow> st_versions (sto_engine s) k \<noteq> [] \<and> in_range startKey (end_bound endKey) k)"
proof -
  define cfg where "cfg = \<lparr>cfg_Snapshot = sto_engine s, cfg_ReadTS = version, cfg_Desc = False,
    cfg_IsolationLevel = IsolationLevelSI, cfg_KeyOnly = keyOnly, cfg_LowerBound = startKey,
    cfg_UpperBound = end_bound endKey, cfg_BypassLocks = (\<lambda>_. False)\<rparr>"
  let ?s = "(initialSeek (NewScanner cfg))\<lparr>sc_isStarted := True\<rparr>" and ?n = "if limit = 0 then length ks else unat limit"
  have ok: "mvcc_ok (sto_engine s)" using assms(1) by (rule store_okD)
  have keys: "\<forall>k. k \<in> set ks \<longleftrightarrow> st_versions (sto_engine s) k \<noteq> [] \<and> in_range startKey (end_bound endKey) k"
    using set_scan_keys [OF ok] assms(2) by simp
  have sorted: "sorted_wrt (<) ks" using scan_keys_sorted [OF ok] assms(2) by simp
  have "\<not> beyondBound k cfg" if "in_range startKey (end_bound endKey) k" for k
    using that by (auto simp: cfg_def beyondBound_def in_range_def split: option.splits)
  then have ctx: "scan_ctx cfg ([] @ ks)"
    using assms(1,3) sorted keys by (simp add: scan_ctx_def) (simp add: cfg_def)
  obtain ls where at: "scan_at cfg [] ks ls ?s"
    using initial_scan_at [of cfg] assms(1,2) by (auto simp: cfg_def)
  have agree: "\<forall>k \<in> set ks. reads_agree cfg (\<lambda>k. the (Storage_Get k version s)) k"
    using point_reads_agree [OF assms(1), of cfg] assms(4) by (simp add: cfg_def)
  have "\<not> sc_isStarted (NewScanner cfg)" by (simp add: NewScanner_def Let_def)
  then have start: "Scanner_Next (NewScanner cfg) = Scanner_Next ?s" by (simp add: Scanner_Next_def)
  have unstarted: "Scan_loop limit keyOnly (NewScanner cfg) [] = Scan_loop limit keyOnly ?s []"
    unfolding Scan_loop.simps [of limit keyOnly "NewScanner cfg"] Scan_loop.simps [of limit keyOnly ?s] start ..
  have "Storage_Scan startKey endKey limit version keyOnly s = Scan_loop limit keyOnly (NewScanner cfg) []"
    by (simp add: Storage_Scan_def cfg_def end_bound_def)
  also have "\<dots> = Some (scan_reads (\<lambda>k. the (Storage_Get k version s)) keyOnly ?n ks)"
    using Scan_loop_reads [OF ctx at agree, of limit ?n "[]"] unfolding unstarted
    by (simp add: cfg_def split: sum.split)
  finally show ?thesis using keys sorted Storage_Get_total [OF assms(1)] by simp
qed

text \<open>C18: A range scan reads its keys as point reads do. On a well-formed store in which every
  key of the range with write records has one at or below the read timestamp, and the large
  values are in place, a scan returns, and its result is that of reading the keys of the range
  that have write records one by one in key order: it stops with the error of the first blocking lock,
  leaves out deleted keys, and ends at the limit when there is one.\<close>

theorem Scan_correct:
  assumes "store_ok (sto_engine s)" "ks = scan_keys (sto_engine s) startKey (end_bound endKey)"
    and "\<And>k. k \<in> set ks \<Longrightarrow> \<exists>v \<in> set (st_versions (sto_engine s) k). fst v \<le> version"
    and "\<And>k. k \<in> set ks \<Longrightarrow> value_present (sto_engine s) version k"
  shows "Storage_Scan startKey endKey limit version keyOnly s =
      Some (scan_reads (\<lambda>k. the (Storage_Get k version s)) keyOnly (if limit = 0 then length ks else unat limit) ks) \<and>
    (\<forall>k. Storage_Get k version s \<noteq> None) \<and> sorted_wrt (<) ks \<and>
    (\<forall>k. k \<in> set ks \<longleftrightarrow> st_versions (sto_engine s) k \<noteq> [] \<and> in_range startKey (end_bound endKey) k)"
  using assms by (rule Storage_Scan_reads)

definition scanStore :: store where
  "scanStore = put_write [3] 10 samplePut (put_write [1] 10 samplePut empty_store)"

lemma scanStore_view [simp]:
  "store_ok scanStore" "st_versions scanStore k = (if k = [3] \<or> k = [1] then [(10, samplePut)] else [])"
  "st_lock scanStore k = None"
proof -
  show v: "st_versions scanStore k = (if k = [3] \<or> k = [1] then [(10, samplePut)] else [])" for k
    by (simp add: scanStore_def mvcc_view ver_put_def)
  have "mvcc_ok scanStore" by (simp add: scanStore_def mvcc_view)
  then show "store_ok scanStore" by (auto simp: store_ok_def v plain_versions_def sample_defs)
  show "st_lock scanStore k = None" by (simp add: scanStore_def mvcc_view)
qed

lemma scanStore_keys: "scan_keys scanStore None None = [[1], [3]]"
proof (rule sorted_wrt_set_unique [where R = "(<)"])
  show "sorted_wrt (<) (scan_keys scanStore None None)" by (rule scan_keys_sorted [OF store_okD(1)]) simp
  have "k \<in> set (scan_keys scanStore None None) \<longleftrightarrow> k = [1] \<or> k = [3]" for k
    using set_scan_keys [OF store_okD(1) [OF scanStore_view(1)], of k None None] by (auto simp: in_range_def)
  then show "set (scan_keys scanStore None None) = set [[1], [3]]" by (intro set_eqI) simp
qed (auto dest: less_asym)

theorem Scan_correct_witness:
  "Storage_Scan None [] 0 20 False (NewStorage scanStore) =
     Some (Inr [\<lparr>kv_Key = [1], kv_Value = Some [42], kv_Err = None\<rparr>, \<lparr>kv_Key = [3], kv_Value = Some [42], kv_Err = None\<rparr>]) \<and>
   Storage_Scan None [] 1 20 True (NewStorage scanStore) = Some (Inr [\<lparr>kv_Key = [1], kv_Value = None, kv_Err = None\<rparr>])"
proof -
  let ?s = "NewStorage scanStore"
  have eng: "sto_engine ?s = scanStore" by (simp add: NewStorage_def)
  have ok: "store_ok (sto_engine ?s)" by (simp add: eng)
  have ks: "[[1], [3]] = scan_keys (sto_engine ?s) None (end_bound [])" by (simp add: eng end_bound_def scanStore_keys)
  have vis: "\<exists>v \<in> set (st_versions (sto_engine ?s) k). fst v \<le> 20" if "k \<in> set [[1], [3]]" for k
    using that by (auto simp: eng)
  have val: "value_present (sto_engine ?s) 20 k" if "k \<in> set [[1], [3]]" for k
    using that by (auto simp: eng value_present_def no_data_def sample_defs write_types)
  have get: "Storage_Get k 20 ?s = Some (Inr (Some [42]))" if "k \<in> set [[1], [3]]" for k
    using that Storage_Get_total [OF ok, of k 20]
    by (auto simp: eng read_at_def blocking_lock_def no_data_def sample_defs write_types)
  show ?thesis using Scan_correct [OF ok ks vis val, of 0 False] Scan_correct [OF ok ks vis val, of 1 True] get by simp
qed

definition hiddenStore :: store where
  "hiddenStore = put_write [2] 10 samplePut (put_write [1] 30 samplePut empty_store)"

definition lockedStore :: store where
  "lockedStore = put_lock [7] (Lock_zero\<lparr>lock_LockType := LockTypePut, lock_StartTS := 15\<rparr>) empty_store"

lemma hiddenStore_cf:
  "hiddenStore CFWrite = [(EncodeKey [1] 30, MarshalWrite samplePut), (EncodeKey [2] 10, MarshalWrite samplePut)]"
  "hiddenStore CFLock = []"
  by (simp_all add: hiddenStore_def put_write_def empty_store_def EncodeKey_less)

lemma hiddenStore_view [simp]:
  "store_ok hiddenStore" "st_versions hiddenStore [2] = [(10, samplePut)]" "st_lock hiddenStore k = None"
proof -
  have v: "st_versions hiddenStore k = (if k = [2] then [(10, samplePut)] else if k = [1] then [(30, samplePut)] else [])" for k
    by (simp add: hiddenStore_def mvcc_view ver_put_def)
  then show "st_versions hiddenStore [2] = [(10, samplePut)]" by simp
  have "mvcc_ok hiddenStore" by (simp add: hiddenStore_def mvcc_view)
  then show "store_ok hiddenStore" by (auto simp: store_ok_def v plain_versions_def sample_defs)
  show "st_lock hiddenStore k = None" by (simp add: hiddenStore_def mvcc_view)
qed

lemma lockedStore_view [simp]:
  "store_ok lockedStore" "st_versions lockedStore k = []"
  "st_lock lockedStore [7] = Some (Lock_zero\<lparr>lock_LockType := LockTypePut, lock_StartTS := 15\<rparr>)"
proof -
  let ?l = "Lock_zero\<lparr>lock_LockType := LockTypePut, lock_StartTS := 15\<rparr>"
  have sz: "lock_sizes_ok ?l" by (simp add: lock_sizes_ok_def sample_defs ShortValueMaxLen_def maxAlloc_def)
  show "st_versions lockedStore k = []" for k by (simp add: lockedStore_def mvcc_view sz)
  then show "store_ok lockedStore" by (simp add: store_ok_def lockedStore_def mvcc_view sz plain_versions_def)
  show "st_lock lockedStore [7] = Some ?l"
    by (simp add: lockedStore_def mvcc_view sz) (simp add: normLock_fixed sample_defs)
qed

lemma hidden_scan: "Storage_Scan None [] 0 20 False (NewStorage hiddenStore) = Some (Inr [])"
proof -
  define cfg where "cfg = \<lparr>cfg_Snapshot = hiddenStore, cfg_ReadTS = 20, cfg_Desc = False,
    cfg_IsolationLevel = IsolationLevelSI, cfg_KeyOnly = False, cfg_LowerBound = None,
    cfg_UpperBound = None, cfg_BypassLocks = (\<lambda>_. False)\<rparr>"
  let ?e1 = "(EncodeKey [1] 30, MarshalWrite samplePut)" and ?e2 = "(EncodeKey [2] 10, MarshalWrite samplePut)"
  define sc where "sc it = \<lparr>sc_cfg = cfg, sc_writeCursor = it, sc_lockCursor = Some \<lparr>it_before = [], it_at = None, it_after = []\<rparr>,
      sc_defaultCursor = None, sc_isStarted = True, sc_stats = ScanStatistics_zero\<rparr>" for it
  define it1 where "it1 = \<lparr>it_before = [], it_at = Some ?e1, it_after = [?e2]\<rparr>"
  define it2 where "it2 = \<lparr>it_before = [?e1], it_at = Some ?e2, it_after = []\<rparr>"
  define it3 where "it3 = \<lparr>it_before = [?e2, ?e1], it_at = None, it_after = []\<rparr>"
  have init: "(initialSeek (NewScanner cfg))\<lparr>sc_isStarted := True\<rparr> = sc it1" "\<not> sc_isStarted (NewScanner cfg)"
    by (simp_all add: NewScanner_def cfg_def initialSeek_def hiddenStore_cf sc_def it1_def in_bounds_def NewIterator_def
        SeekToFirst_def it_at_head_def it_all_def)
  have steps: "it_Next it1 = it2" "it_Next it2 = it3" "it_Valid it1" "it_Valid it2" "\<not> it_Valid it3"
      "it_Key it1 = EncodeKey [1] 30" "it_Key it2 = EncodeKey [2] 10"
    by (simp_all add: it1_def it2_def it3_def it_Next_def it_Valid_def it_Key_def it_at_head_def)
  have adv: "advanceWriteCursor (sc it) = sc (it_Next it)" "(sc it)\<lparr>sc_writeCursor := it'\<rparr> = sc it'"
      "writeCursorValid (sc it) = it_Valid it" "\<not> lockCursorValid (sc it)" "sc_writeCursor (sc it) = it" "sc_cfg (sc it) = cfg" for it it'
    by (simp_all add: sc_def advanceWriteCursor_def cfg_def writeCursorValid_def lockCursorValid_def it_Valid_def)
  obtain n where sb: "SeekBound = Suc n" by (cases SeekBound) (simp_all add: SeekBound_def)
  have cur: "currentUserKey (sc it1) = (Some ([1], True, False), sc it1)"
    by (simp add: currentUserKey_def adv steps)
  have "moveWriteCursorToTS [1] (sc it1) = (False, sc it2)"
    by (simp add: moveWriteCursorToTS_def adv steps sb cfg_def)
  moreover have "moveWriteCursorToNextUserKey [1] (sc it2) = sc it3"
    by (simp add: moveWriteCursorToNextUserKey_def adv steps sb cfg_def)
  ultimately have "handleWrite [1] (sc it1) = Some (Inr (None, False), sc it3)"
    by (simp add: handleWrite_def adv cfg_def)
  moreover have "Next_loop (sc it3) = Some (Inr None, sc it3)"
    by (subst Next_loop.simps) (simp add: adv steps)
  ultimately have "Next_loop (sc it1) = Some (Inr None, sc it3)"
    by (subst Next_loop.simps) (simp add: adv steps cur beyondBound_def cfg_def)
  then have "Scanner_Next (NewScanner cfg) = Some (Inr None, sc it3)" using init by (simp add: Scanner_Next_def)
  then show ?thesis
    unfolding Storage_Scan_def by (subst Scan_loop.simps) (simp add: NewStorage_def cfg_def)
qed

text \<open>Scans lose what point reads find. A key all of whose records are newer than the read timestamp
  makes the scanner jump over the first record of the key behind it, so a committed value is
  missing from the result; and a lock on a key that has no write records yet, which makes a
  point read fail, is not reported at all.\<close>

theorem Scan_misses:
  "Storage_Scan None [] 0 20 False (NewStorage hiddenStore) = Some (Inr []) \<and>
   Storage_Get [2] 20 (NewStorage hiddenStore) = Some (Inr (Some [42])) \<and>
   Storage_Scan None [] 0 20 False (NewStorage lockedStore) = Some (Inr []) \<and>
   (\<exists>l. Storage_Get [7] 20 (NewStorage lockedStore) = Some (Inl (LockError [7] l)))"
proof (intro conjI)
  show "Storage_Scan None [] 0 20 False (NewStorage hiddenStore) = Some (Inr [])" by (rule hidden_scan)
  have eng: "sto_engine (NewStorage st) = st" for st by (simp add: NewStorage_def)
  show "Storage_Get [2] 20 (NewStorage hiddenStore) = Some (Inr (Some [42]))"
    by (subst Storage_Get_total)
      (simp_all add: eng read_at_def blocking_lock_def no_data_def sample_defs write_types)
  show "\<exists>l. Storage_Get [7] 20 (NewStorage lockedStore) = Some (Inl (LockError [7] l))"
    by (subst Storage_Get_total) (simp_all add: eng blocking_lock_def sample_defs lock_types)
  have "k \<notin> set (scan_keys lockedStore None None)" for k
    using set_scan_keys [OF store_okD(1) [OF lockedStore_view(1)]] by simp
  then have ks: "scan_keys lockedStore None None = []" by (metis list.set_intros(1) neq_Nil_conv)
  show "Storage_Scan None [] 0 20 False (NewStorage lockedStore) = Some (Inr [])"
    using Storage_Scan_reads [of "NewStorage lockedStore" "[]" None "[]" 20 0 False] by (simp add: eng end_bound_def ks)
qed

end
