(* ===== verification/Metapb.thy ===== *)
theory Metapb
  imports Gookv_Prelude
begin

section \<open>Cluster metadata messages\<close>

text \<open>
  The fields the sources read and write of the protobuf messages \<^verbatim>\<open>metapb.Region\<close>,
  \<^verbatim>\<open>metapb.Peer\<close> and \<^verbatim>\<open>metapb.RegionEpoch\<close>, with the copies and lookups of
  \<^verbatim>\<open>internal/raftstore\<close> on them. A getter on a nil message returns the zero value of the field.
\<close>

record RegionEpoch =
  ep_ConfVer :: u64
  ep_Version :: u64

record Peer =
  peer_Id :: u64
  peer_StoreId :: u64
  peer_Role :: int

record Region =
  rg_Id :: u64
  rg_StartKey :: bytes
  rg_EndKey :: bytes
  rg_RegionEpoch :: "RegionEpoch option"
  rg_Peers :: "Peer list"

definition RegionEpoch_zero :: RegionEpoch where
  "RegionEpoch_zero = \<lparr>ep_ConfVer = 0, ep_Version = 0\<rparr>"

definition GetRegionEpoch :: "Region \<Rightarrow> RegionEpoch" where
  "GetRegionEpoch r = (case rg_RegionEpoch r of None \<Rightarrow> RegionEpoch_zero | Some e \<Rightarrow> e)"

text \<open>The keys of a region: an empty end key means no upper bound.\<close>

definition in_region :: "Region \<Rightarrow> bytes \<Rightarrow> bool" where
  "in_region r key \<longleftrightarrow> rg_StartKey r \<le> key \<and> (rg_EndKey r = [] \<or> key < rg_EndKey r)"

definition cloneRegion :: "Region \<Rightarrow> Region" where
  "cloneRegion r =
     \<lparr>rg_Id = rg_Id r, rg_StartKey = rg_StartKey r, rg_EndKey = rg_EndKey r,
      rg_RegionEpoch = map_option (\<lambda>e. \<lparr>ep_ConfVer = ep_ConfVer e, ep_Version = ep_Version e\<rparr>) (rg_RegionEpoch r),
      rg_Peers = map (\<lambda>p. \<lparr>peer_Id = peer_Id p, peer_StoreId = peer_StoreId p, peer_Role = peer_Role p\<rparr>) (rg_Peers r)\<rparr>"

lemma clone_fields:
  "(\<lambda>e. \<lparr>ep_ConfVer = ep_ConfVer e, ep_Version = ep_Version e\<rparr>) = (\<lambda>e. e)"
  "(\<lambda>p. \<lparr>peer_Id = peer_Id p, peer_StoreId = peer_StoreId p, peer_Role = peer_Role p\<rparr>) = (\<lambda>p. p)"
  by (rule ext, simp)+

lemma cloneRegion_id [simp]: "cloneRegion r = r"
  by (simp add: cloneRegion_def clone_fields option.map_ident)

end
