(* ===== verification/RaftLog.thy ===== *)
theory RaftLog
  imports Mvcc_Store Keys Metapb
begin

section \<open>The raft log of a region\<close>

text \<open>
  Models \<^verbatim>\<open>internal/raftstore/storage.go\<close>, \<^verbatim>\<open>raftlog_gc.go\<close>, \<^verbatim>\<open>raft_log_writer.go\<close> and
  \<^verbatim>\<open>store_worker.go\<close>: \<^verbatim>\<open>PeerStorage\<close> keeps the raft log of a region in the engine with a cache of
  its newest entries, truncates, compacts and recovers it, and \<^verbatim>\<open>RaftLogWriter\<close> persists the
  logs of several regions in one batch. The marshalling of raft entries and hard states is
  third-party code; it is the argument \<open>pb\<close>, and \<open>raftpb_ok\<close> of the theory \<open>RaftLogProperties\<close> states what
  the code relies on: what has been marshalled unmarshals to itself.

  The lemmas show that the storage implements a log: reads return the abstract entries
  through the cache and the engine, appending truncates and extends it, compaction
  drops a prefix, the batched write path is the inline one, and a restart restores the
  log when no entry has ever been overwritten by a shorter suffix.
\<close>

datatype EntryType = EntryNormal | EntryConfChange | EntryConfChangeV2

record Entry =
  en_Type :: EntryType
  en_Term :: u64
  en_Index :: u64
  en_Data :: bytes

record HardState =
  hs_Term :: u64
  hs_Vote :: u64
  hs_Commit :: u64

definition HardState_zero :: HardState where
  "HardState_zero = \<lparr>hs_Term = 0, hs_Vote = 0, hs_Commit = 0\<rparr>"

definition IsEmptyHardState :: "HardState \<Rightarrow> bool" where
  "IsEmptyHardState hs \<longleftrightarrow> hs = HardState_zero"

text \<open>The generated marshalling code of package raftpb.\<close>

record raftpb =
  pb_MarshalEntry :: "Entry \<Rightarrow> bytes res"
  pb_UnmarshalEntry :: "bytes \<Rightarrow> Entry res"
  pb_EntrySize :: "Entry \<Rightarrow> u64"
  pb_MarshalHardState :: "HardState \<Rightarrow> bytes res"
  pb_UnmarshalHardState :: "bytes \<Rightarrow> HardState res"

datatype raft_error =
    ErrCompacted
  | ErrUnavailable
  | ErrInvalidRange
  | ErrEntryGap u64
  | RaftStoreErr go_error
  | RaftPanic

record ApplyState =
  as_AppliedIndex :: u64
  as_TruncatedIndex :: u64
  as_TruncatedTerm :: u64

definition RaftInitLogTerm :: u64 where "RaftInitLogTerm = 5"
definition RaftInitLogIndex :: u64 where "RaftInitLogIndex = 5"

record PeerStorage =
  ps_regionID :: u64
  ps_engine :: store
  ps_hardState :: HardState
  ps_applyState :: ApplyState
  ps_entries :: "Entry list"
  ps_persistedLastIndex :: u64
  ps_region :: "Region option"

definition NewPeerStorage :: "u64 \<Rightarrow> store \<Rightarrow> PeerStorage" where
  "NewPeerStorage regionID engine =
     \<lparr>ps_regionID = regionID, ps_engine = engine, ps_hardState = HardState_zero,
      ps_applyState = \<lparr>as_AppliedIndex = RaftInitLogIndex, as_TruncatedIndex = RaftInitLogIndex,
        as_TruncatedTerm = RaftInitLogTerm\<rparr>,
      ps_entries = [], ps_persistedLastIndex = RaftInitLogIndex, ps_region = None\<rparr>"

definition InitialState :: "PeerStorage \<Rightarrow> HardState \<times> u64 list" where
  "InitialState s = (ps_hardState s, (case ps_region s of None \<Rightarrow> [] | Some r \<Rightarrow> map peer_Id (rg_Peers r)))"

subsection \<open>Reading the log\<close>

definition firstIndexLocked :: "PeerStorage \<Rightarrow> u64" where
  "firstIndexLocked s = as_TruncatedIndex (ps_applyState s) + 1"

definition lastIndexLocked :: "PeerStorage \<Rightarrow> u64" where
  "lastIndexLocked s = (if ps_entries s \<noteq> [] then en_Index (last (ps_entries s)) else ps_persistedLastIndex s)"

fun limitSize_loop :: "(Entry \<Rightarrow> u64) \<Rightarrow> u64 \<Rightarrow> u64 \<Rightarrow> bool \<Rightarrow> Entry list \<Rightarrow> Entry list" where
  "limitSize_loop sz maxSize acc first [] = []"
| "limitSize_loop sz maxSize acc first (e # es) =
     (let acc = acc + sz e in
      if maxSize < acc \<and> \<not> first then [] else e # limitSize_loop sz maxSize acc False es)"

definition limitSize :: "raftpb \<Rightarrow> Entry list \<Rightarrow> u64 \<Rightarrow> Entry list" where
  "limitSize pb entries maxSize =
     (if maxSize = 0 \<or> entries = [] then entries else limitSize_loop (pb_EntrySize pb) maxSize 0 True entries)"

text \<open>The slice expression \<^verbatim>\<open>s.entries[start:end]\<close>. Go checks the end against the capacity; for a
  cache of consecutive entries it never exceeds the length, which is what is checked here.\<close>

definition slice_entries :: "Entry list \<Rightarrow> u64 \<Rightarrow> u64 \<Rightarrow> raft_error + Entry list" where
  "slice_entries es start end' =
     (if start \<le> end' \<and> unat end' \<le> length es
      then Inr (take (unat end' - unat start) (drop (unat start) es)) else Inl RaftPanic)"

fun readEntries_loop :: "raftpb \<Rightarrow> store \<Rightarrow> u64 \<Rightarrow> nat \<Rightarrow> u64 \<Rightarrow> u64 \<Rightarrow> Entry list \<Rightarrow> raft_error + Entry list" where
  "readEntries_loop pb eng rid 0 lo idx entries = Inr entries"
| "readEntries_loop pb eng rid (Suc n) lo idx entries =
     (case eng_get eng CFRaft (RaftLogKey rid idx) of
        Inl e \<Rightarrow>
          if e = ErrNotFound then (if idx = lo then Inr entries else Inl (ErrEntryGap idx))
          else Inl (RaftStoreErr e)
      | Inr data \<Rightarrow>
          (case pb_UnmarshalEntry pb data of
             Inl e \<Rightarrow> Inl (RaftStoreErr e)
           | Inr entry \<Rightarrow> readEntries_loop pb eng rid n lo (idx + 1) (entries @ [entry])))"

definition readEntriesFromEngine :: "raftpb \<Rightarrow> u64 \<Rightarrow> u64 \<Rightarrow> PeerStorage \<Rightarrow> raft_error + Entry list" where
  "readEntriesFromEngine pb lo hi s =
     readEntries_loop pb (ps_engine s) (ps_regionID s) (unat hi - unat lo) lo lo []"

definition Storage_Entries :: "raftpb \<Rightarrow> u64 \<Rightarrow> u64 \<Rightarrow> u64 \<Rightarrow> PeerStorage \<Rightarrow> raft_error + Entry list" where
  "Storage_Entries pb lo hi maxSize s =
     (if hi < lo then Inl ErrInvalidRange
      else if lo < firstIndexLocked s then Inl ErrCompacted
      else if lastIndexLocked s + 1 < hi then Inl ErrUnavailable
      else if ps_entries s \<noteq> [] \<and> en_Index (hd (ps_entries s)) \<le> lo \<and> hi \<le> en_Index (last (ps_entries s)) + 1
      then
        let cacheFirst = en_Index (hd (ps_entries s)) in
        res_bind (slice_entries (ps_entries s) (lo - cacheFirst) (hi - cacheFirst)) (\<lambda>entries.
          Inr (limitSize pb entries maxSize))
      else
        res_bind (readEntriesFromEngine pb lo hi s) (\<lambda>entries. Inr (limitSize pb entries maxSize)))"

definition Storage_Term :: "raftpb \<Rightarrow> u64 \<Rightarrow> PeerStorage \<Rightarrow> raft_error + u64" where
  "Storage_Term pb i s =
     (if i = as_TruncatedIndex (ps_applyState s) then Inr (as_TruncatedTerm (ps_applyState s))
      else if i < firstIndexLocked s then Inl ErrCompacted
      else if lastIndexLocked s < i then Inl ErrUnavailable
      else if ps_entries s \<noteq> [] \<and> en_Index (hd (ps_entries s)) \<le> i \<and> i \<le> en_Index (last (ps_entries s))
      then
        let k = unat (i - en_Index (hd (ps_entries s))) in
        if k < length (ps_entries s) then Inr (en_Term (ps_entries s ! k)) else Inl RaftPanic
      else
        res_bind (readEntriesFromEngine pb i (i + 1) s) (\<lambda>entries.
          case entries of [] \<Rightarrow> Inl ErrUnavailable | e # _ \<Rightarrow> Inr (en_Term e)))"

definition LastIndex :: "PeerStorage \<Rightarrow> u64" where
  "LastIndex s = lastIndexLocked s"

definition FirstIndex :: "PeerStorage \<Rightarrow> u64" where
  "FirstIndex s = firstIndexLocked s"

subsection \<open>Appending\<close>

definition maxCacheSize :: nat where "maxCacheSize = 1024"

definition appendToCache :: "Entry list \<Rightarrow> Entry list \<Rightarrow> Entry list" where
  "appendToCache entries cache =
     (if cache = [] then cache @ entries
      else
        let first = en_Index (hd entries); cacheFirst = en_Index (hd cache);
            cache =
              (if first \<le> cacheFirst then entries
               else
                 let keepTo = min (unat (first - cacheFirst)) (length cache) in
                 take keepTo cache @ entries) in
        if maxCacheSize < length cache then drop (length cache - maxCacheSize) cache else cache)"

record Ready =
  rd_HardState :: HardState
  rd_Entries :: "Entry list"

text \<open>The marshalled log entries of a region as writes, up to the first that fails.\<close>

fun entryOps :: "raftpb \<Rightarrow> u64 \<Rightarrow> Entry list \<Rightarrow> go_error + wb_op list" where
  "entryOps pb rid [] = Inr []"
| "entryOps pb rid (e # es) =
     res_bind (pb_MarshalEntry pb e) (\<lambda>data.
       res_bind (entryOps pb rid es) (\<lambda>ops. Inr (WbPut CFRaft (RaftLogKey rid (en_Index e)) data # ops)))"

definition cacheEntries :: "Entry list \<Rightarrow> PeerStorage \<Rightarrow> PeerStorage" where
  "cacheEntries entries s =
     (if entries \<noteq> []
      then s\<lparr>ps_entries := appendToCache entries (ps_entries s),
             ps_persistedLastIndex := (if ps_persistedLastIndex s < en_Index (last entries)
               then en_Index (last entries) else ps_persistedLastIndex s)\<rparr>
      else s)"

definition SaveReady :: "raftpb \<Rightarrow> Ready \<Rightarrow> PeerStorage \<Rightarrow> raft_error option \<times> PeerStorage" where
  "SaveReady pb rd s =
     (let (hs, s) =
        (if \<not> IsEmptyHardState (rd_HardState rd)
         then
           let s = s\<lparr>ps_hardState := rd_HardState rd\<rparr> in
           (res_bind (pb_MarshalHardState pb (ps_hardState s)) (\<lambda>data.
              Inr [WbPut CFRaft (RaftStateKey (ps_regionID s)) data]), s)
         else (Inr [], s)) in
      case res_bind hs (\<lambda>hsOps. res_bind (entryOps pb (ps_regionID s) (rd_Entries rd)) (\<lambda>ops. Inr (hsOps @ ops))) of
        Inl e \<Rightarrow> (Some (RaftStoreErr e), s)
      | Inr ops \<Rightarrow> (None, cacheEntries (rd_Entries rd) (s\<lparr>ps_engine := wb_commit ops (ps_engine s)\<rparr>)))"

subsection \<open>Apply state, compaction and recovery\<close>

definition SetApplyState :: "ApplyState \<Rightarrow> PeerStorage \<Rightarrow> PeerStorage" where
  "SetApplyState state s = s\<lparr>ps_applyState := state\<rparr>"

definition SetAppliedIndex :: "u64 \<Rightarrow> PeerStorage \<Rightarrow> PeerStorage" where
  "SetAppliedIndex index s = s\<lparr>ps_applyState := (ps_applyState s)\<lparr>as_AppliedIndex := index\<rparr>\<rparr>"

definition SetPersistedLastIndex :: "u64 \<Rightarrow> PeerStorage \<Rightarrow> PeerStorage" where
  "SetPersistedLastIndex idx s = s\<lparr>ps_persistedLastIndex := idx\<rparr>"

definition dummyEntry :: Entry where
  "dummyEntry = \<lparr>en_Type = EntryNormal, en_Term = 0, en_Index = 0, en_Data = []\<rparr>"

definition SetDummyEntry :: "PeerStorage \<Rightarrow> PeerStorage" where
  "SetDummyEntry s = s\<lparr>ps_entries := [dummyEntry]\<rparr>"

definition CompactTo :: "u64 \<Rightarrow> PeerStorage \<Rightarrow> PeerStorage" where
  "CompactTo compactTo s =
     (if ps_entries s = [] then s
      else
        let cacheFirst = en_Index (hd (ps_entries s)) in
        if compactTo \<le> cacheFirst then s
        else
          let offset = compactTo - cacheFirst in
          if length (ps_entries s) \<le> unat offset then s\<lparr>ps_entries := []\<rparr>
          else s\<lparr>ps_entries := drop (unat offset) (ps_entries s)\<rparr>)"

definition marshalApplyState :: "ApplyState \<Rightarrow> bytes" where
  "marshalApplyState a = PutUint64 (as_AppliedIndex a) @ PutUint64 (as_TruncatedIndex a) @ PutUint64 (as_TruncatedTerm a)"

definition PersistApplyState :: "PeerStorage \<Rightarrow> raft_error option \<times> PeerStorage" where
  "PersistApplyState s =
     (case eng_put (ps_engine s) CFRaft (ApplyStateKey (ps_regionID s)) (marshalApplyState (ps_applyState s)) of
        Inl e \<Rightarrow> (Some (RaftStoreErr e), s)
      | Inr eng \<Rightarrow> (None, s\<lparr>ps_engine := eng\<rparr>))"

definition FlushInitialState :: "raftpb \<Rightarrow> PeerStorage \<Rightarrow> raft_error option \<times> PeerStorage" where
  "FlushInitialState pb s =
     (case pb_MarshalHardState pb (ps_hardState s) of
        Inl e \<Rightarrow> (Some (RaftStoreErr e), s)
      | Inr data \<Rightarrow>
          (case eng_put (ps_engine s) CFRaft (RaftStateKey (ps_regionID s)) data of
             Inl e \<Rightarrow> (Some (RaftStoreErr e), s)
           | Inr eng \<Rightarrow> PersistApplyState (s\<lparr>ps_engine := eng\<rparr>)))"

definition HasPersistedRaftState :: "store \<Rightarrow> u64 \<Rightarrow> bool" where
  "HasPersistedRaftState engine regionID =
     (case eng_get engine CFRaft (RaftStateKey regionID) of
        Inr _ \<Rightarrow> True
      | Inl _ \<Rightarrow> (case eng_get engine CFRaft (ApplyStateKey regionID) of Inr _ \<Rightarrow> True | Inl _ \<Rightarrow> False))"

definition recoverHardState :: "raftpb \<Rightarrow> PeerStorage \<Rightarrow> raft_error option \<times> PeerStorage" where
  "recoverHardState pb s =
     (case eng_get (ps_engine s) CFRaft (RaftStateKey (ps_regionID s)) of
        Inr data \<Rightarrow>
          (case pb_UnmarshalHardState pb data of
             Inl e \<Rightarrow> (Some (RaftStoreErr e), s)
           | Inr hs \<Rightarrow> (None, s\<lparr>ps_hardState := hs\<rparr>))
      | Inl e \<Rightarrow> if e = ErrNotFound then (None, s) else (Some (RaftStoreErr e), s))"

fun unmarshalAll :: "raftpb \<Rightarrow> cf \<Rightarrow> go_error + Entry list" where
  "unmarshalAll pb [] = Inr []"
| "unmarshalAll pb (e # es) =
     res_bind (pb_UnmarshalEntry pb (snd e)) (\<lambda>entry. res_bind (unmarshalAll pb es) (\<lambda>entries. Inr (entry # entries)))"

definition raftLogEntries :: "store \<Rightarrow> u64 \<Rightarrow> cf" where
  "raftLogEntries eng rid =
     (let (startKey, endKey) = RaftLogKeyRange rid in
      it_rest (SeekToFirst (NewIterator (eng CFRaft) \<lparr>opt_LowerBound = Some startKey, opt_UpperBound = Some endKey\<rparr>)))"

definition maxIndex :: "Entry list \<Rightarrow> u64" where
  "maxIndex es = fold (\<lambda>e m. if m < en_Index e then en_Index e else m) es 0"

definition recoverEntries :: "raftpb \<Rightarrow> PeerStorage \<Rightarrow> raft_error option \<times> PeerStorage" where
  "recoverEntries pb s =
     (case unmarshalAll pb (raftLogEntries (ps_engine s) (ps_regionID s)) of
        Inl e \<Rightarrow> (Some (RaftStoreErr e), s)
      | Inr entries \<Rightarrow>
          if 0 < maxIndex entries
          then (None, s\<lparr>ps_persistedLastIndex := maxIndex entries,
                 ps_entries := (if maxCacheSize < length entries then drop (length entries - maxCacheSize) entries else entries)\<rparr>)
          else (None, s))"

definition recoverApplyState :: "PeerStorage \<Rightarrow> raft_error option \<times> PeerStorage" where
  "recoverApplyState s =
     (case eng_get (ps_engine s) CFRaft (ApplyStateKey (ps_regionID s)) of
        Inr data \<Rightarrow>
          if length data = 24
          then (None, s\<lparr>ps_applyState := \<lparr>as_AppliedIndex = Uint64 (take 8 data),
                 as_TruncatedIndex = Uint64 (take 8 (drop 8 data)), as_TruncatedTerm = Uint64 (take 8 (drop 16 data))\<rparr>\<rparr>)
          else (None, s)
      | Inl e \<Rightarrow> if e = ErrNotFound then (None, s) else (Some (RaftStoreErr e), s))"

definition RecoverFromEngine :: "raftpb \<Rightarrow> PeerStorage \<Rightarrow> raft_error option \<times> PeerStorage" where
  "RecoverFromEngine pb s =
     (case recoverHardState pb s of
        (Some e, s) \<Rightarrow> (Some e, s)
      | (None, s) \<Rightarrow>
          (case recoverEntries pb s of
             (Some e, s) \<Rightarrow> (Some e, s)
           | (None, s) \<Rightarrow> recoverApplyState s))"

subsection \<open>Log compaction commands\<close>

record CompactLogRequest =
  clq_CompactIndex :: u64
  clq_CompactTerm :: u64

record CompactLogResult =
  clr_TruncatedIndex :: u64
  clr_TruncatedTerm :: u64
  clr_FirstIndex :: u64

datatype compact_error = ErrCompactTermZero | ErrCompactBeyondApplied

definition execCompactLog ::
  "ApplyState \<Rightarrow> CompactLogRequest \<Rightarrow> (compact_error + CompactLogResult option) \<times> ApplyState"
where
  "execCompactLog a req =
     (if clq_CompactIndex req \<le> as_TruncatedIndex a then (Inr None, a)
      else if clq_CompactTerm req = 0 then (Inl ErrCompactTermZero, a)
      else if as_AppliedIndex a < clq_CompactIndex req then (Inl ErrCompactBeyondApplied, a)
      else (Inr (Some \<lparr>clr_TruncatedIndex = clq_CompactIndex req, clr_TruncatedTerm = clq_CompactTerm req,
              clr_FirstIndex = as_TruncatedIndex a + 1\<rparr>),
            a\<lparr>as_TruncatedIndex := clq_CompactIndex req, as_TruncatedTerm := clq_CompactTerm req\<rparr>))"

definition marshalCompactLogRequest :: "CompactLogRequest \<Rightarrow> bytes" where
  "marshalCompactLogRequest req = [0x01] @ PutUint64 (clq_CompactIndex req) @ PutUint64 (clq_CompactTerm req)"

definition unmarshalCompactLogRequest :: "bytes \<Rightarrow> CompactLogRequest option" where
  "unmarshalCompactLogRequest data =
     (if length data < 17 \<or> hd data \<noteq> 0x01 then None
      else Some \<lparr>clq_CompactIndex = Uint64 (take 8 (drop 1 data)), clq_CompactTerm = Uint64 (take 8 (drop 9 data))\<rparr>)"

definition IsCompactLog :: "bytes \<Rightarrow> bool" where
  "IsCompactLog data \<longleftrightarrow> 1 \<le> length data \<and> hd data = 0x01"

record RaftLogGCTask =
  gct_RegionID :: u64
  gct_StartIdx :: u64
  gct_EndIdx :: u64

definition gcRaftLog :: "RaftLogGCTask \<Rightarrow> store \<Rightarrow> store res" where
  "gcRaftLog task eng =
     (if gct_EndIdx task \<le> gct_StartIdx task then Inr eng
      else eng_delete_range eng CFRaft (RaftLogKey (gct_RegionID task) (gct_StartIdx task))
             (RaftLogKey (gct_RegionID task) (gct_EndIdx task)))"

definition nextKey :: "bytes \<Rightarrow> bytes" where
  "nextKey key = key @ [0]"

definition CleanupRegionData :: "store \<Rightarrow> u64 \<Rightarrow> store res" where
  "CleanupRegionData eng regionID =
     (let (logStart, logEnd) = RaftLogKeyRange regionID in
      res_bind (eng_delete_range eng CFRaft logStart logEnd) (\<lambda>eng.
        res_bind (eng_delete_range eng CFRaft (RaftStateKey regionID) (nextKey (RaftStateKey regionID))) (\<lambda>eng.
          res_bind (eng_delete_range eng CFRaft (ApplyStateKey regionID) (nextKey (ApplyStateKey regionID))) (\<lambda>eng.
            eng_delete_range eng CFRaft (RegionStateKey regionID) (nextKey (RegionStateKey regionID))))))"

subsection \<open>The batched writer\<close>

record WriteOp =
  wo_CF :: string
  wo_Key :: bytes
  wo_Value :: bytes

record WriteTask =
  wt_RegionID :: u64
  wt_Ops :: "WriteOp list"
  wt_Entries :: "Entry list"
  wt_HardState :: "HardState option"

fun entryWriteOps :: "raftpb \<Rightarrow> u64 \<Rightarrow> Entry list \<Rightarrow> WriteOp list \<Rightarrow> WriteOp list res" where
  "entryWriteOps pb rid [] ops = Inr ops"
| "entryWriteOps pb rid (e # es) ops =
     res_bind (pb_MarshalEntry pb e) (\<lambda>data.
       entryWriteOps pb rid es
         (ops @ [\<lparr>wo_CF = CFRaft, wo_Key = RaftLogKey rid (en_Index e), wo_Value = data\<rparr>]))"

definition BuildWriteTask :: "raftpb \<Rightarrow> Ready \<Rightarrow> PeerStorage \<Rightarrow> raft_error + WriteTask" where
  "BuildWriteTask pb rd s =
     (let hs = rd_HardState rd in
      case res_bind
        (if IsEmptyHardState hs then Inr []
         else res_bind (pb_MarshalHardState pb hs) (\<lambda>data.
           Inr [\<lparr>wo_CF = CFRaft, wo_Key = RaftStateKey (ps_regionID s), wo_Value = data\<rparr>]))
        (entryWriteOps pb (ps_regionID s) (rd_Entries rd)) of
        Inl e \<Rightarrow> Inl (RaftStoreErr e)
      | Inr ops \<Rightarrow> Inr \<lparr>wt_RegionID = ps_regionID s, wt_Ops = ops, wt_Entries = rd_Entries rd,
          wt_HardState = (if IsEmptyHardState hs then None else Some hs)\<rparr>)"

fun batch_puts :: "WriteOp list \<Rightarrow> wb_op list \<Rightarrow> wb_op list res" where
  "batch_puts [] wb = Inr wb"
| "batch_puts (op # ops) wb =
     res_bind (wb_add (WbPut (wo_CF op) (wo_Key op) (wo_Value op)) (wo_CF op) wb) (batch_puts ops)"

text \<open>The tasks queued behind the first are collected into one write batch, committed at once; every
  task is told the common outcome, which is returned.\<close>

definition processBatch :: "WriteTask list \<Rightarrow> store \<Rightarrow> go_error option \<times> store" where
  "processBatch tasks eng =
     (case batch_puts (concat (map wt_Ops tasks)) [] of
        Inl e \<Rightarrow> (Some e, eng)
      | Inr wb \<Rightarrow> (None, wb_commit wb eng))"

definition ApplyWriteTaskPostPersist :: "WriteTask \<Rightarrow> PeerStorage \<Rightarrow> PeerStorage" where
  "ApplyWriteTaskPostPersist task s =
     (let s = (case wt_HardState task of Some hs \<Rightarrow> s\<lparr>ps_hardState := hs\<rparr> | None \<Rightarrow> s) in
      cacheEntries (wt_Entries task) s)"

end
