(* ===== verification/RaftLogProperties.thy ===== *)
theory RaftLogProperties
  imports RaftLog
begin

section \<open>The raft log refines an abstract log\<close>

text \<open>
  The abstract log \<open>rlog\<close> has a truncation point and the entries after it. \<open>log_repr\<close> relates a
  \<^verbatim>\<open>PeerStorage\<close> to the log it represents: the cache is a run of consecutive entries that ends where the log ends,
  and every entry of the log is in the engine. \<open>log_exact\<close> says that the engine holds the entries of a log and no
  others, which is what a restart needs. The lemmas follow a log through reading, appending,
  compacting and recovering; \<open>raft_storage\<close> is the interface the raft state machine uses.
\<close>

lemma unat_Suc_word: "Suc (unat (x :: u64)) < 2 ^ 64 \<Longrightarrow> unat (x + 1) = Suc (unat x)"
  by (simp add: unat_word_ariths)

lemma unat_diff_word: "(b :: u64) \<le> a \<Longrightarrow> unat (a - b) = unat a - unat b"
  by (simp add: unat_sub)

definition raftpb_ok :: "raftpb \<Rightarrow> bool" where
  "raftpb_ok pb \<longleftrightarrow>
     (\<forall>e. \<exists>d. pb_MarshalEntry pb e = Inr d \<and> pb_UnmarshalEntry pb d = Inr e) \<and>
     (\<forall>hs. \<exists>d. pb_MarshalHardState pb hs = Inr d \<and> pb_UnmarshalHardState pb d = Inr hs)"

record rlog =
  lg_index :: nat
  lg_term :: u64
  lg_entries :: "Entry list"

definition lg_last :: "rlog \<Rightarrow> nat" where
  "lg_last L = lg_index L + length (lg_entries L)"

definition numbered :: "nat \<Rightarrow> Entry list \<Rightarrow> bool" where
  "numbered n es \<longleftrightarrow> (\<forall>i < length es. unat (en_Index (es ! i)) = n + i)"

definition log_wf :: "rlog \<Rightarrow> bool" where
  "log_wf L \<longleftrightarrow> numbered (Suc (lg_index L)) (lg_entries L) \<and> Suc (lg_last L) < 2 ^ 64"

definition lg_at :: "rlog \<Rightarrow> nat \<Rightarrow> Entry" where
  "lg_at L i = lg_entries L ! (i - Suc (lg_index L))"

definition lg_Term :: "rlog \<Rightarrow> u64 \<Rightarrow> raft_error + u64" where
  "lg_Term L i =
     (if unat i = lg_index L then Inr (lg_term L)
      else if unat i < lg_index L then Inl ErrCompacted
      else if lg_last L < unat i then Inl ErrUnavailable
      else Inr (en_Term (lg_at L (unat i))))"

definition lg_Entries :: "rlog \<Rightarrow> u64 \<Rightarrow> u64 \<Rightarrow> raft_error + Entry list" where
  "lg_Entries L lo hi =
     (if hi < lo then Inl ErrInvalidRange
      else if unat lo \<le> lg_index L then Inl ErrCompacted
      else if Suc (lg_last L) < unat hi then Inl ErrUnavailable
      else Inr (map (lg_at L) [unat lo..<unat hi]))"

definition lg_append :: "Entry list \<Rightarrow> rlog \<Rightarrow> rlog" where
  "lg_append new L =
     (if new = [] then L
      else L\<lparr>lg_entries := take (unat (en_Index (hd new)) - Suc (lg_index L)) (lg_entries L) @ new\<rparr>)"

definition lg_appendable :: "Entry list \<Rightarrow> rlog \<Rightarrow> bool" where
  "lg_appendable new L \<longleftrightarrow>
     new = [] \<or>
     numbered (unat (en_Index (hd new))) new \<and> lg_index L < unat (en_Index (hd new)) \<and>
     unat (en_Index (hd new)) \<le> Suc (lg_last L) \<and> Suc (unat (en_Index (last new))) < 2 ^ 64"

definition lg_compact :: "u64 \<Rightarrow> u64 \<Rightarrow> rlog \<Rightarrow> rlog" where
  "lg_compact ci ct L =
     (if unat ci \<le> lg_index L then L
      else \<lparr>lg_index = unat ci, lg_term = ct, lg_entries = drop (unat ci - lg_index L) (lg_entries L)\<rparr>)"

definition cache_repr :: "Entry list \<Rightarrow> rlog \<Rightarrow> bool" where
  "cache_repr es L \<longleftrightarrow>
     numbered (unat (en_Index (hd es))) es \<and>
     (es \<noteq> [] \<longrightarrow> unat (en_Index (last es)) = lg_last L) \<and>
     (\<forall>e \<in> set es. lg_index L < unat (en_Index e) \<longrightarrow> lg_at L (unat (en_Index e)) = e)"

definition log_stored :: "raftpb \<Rightarrow> store \<Rightarrow> u64 \<Rightarrow> rlog \<Rightarrow> bool" where
  "log_stored pb eng rid L \<longleftrightarrow>
     cf_sorted (eng CFRaft) \<and>
     (\<forall>e \<in> set (lg_entries L). \<exists>d. cf_get (eng CFRaft) (RaftLogKey rid (en_Index e)) = Some d \<and>
        pb_UnmarshalEntry pb d = Inr e)"

definition log_repr :: "raftpb \<Rightarrow> PeerStorage \<Rightarrow> rlog \<Rightarrow> bool" where
  "log_repr pb s L \<longleftrightarrow>
     log_wf L \<and> unat (as_TruncatedIndex (ps_applyState s)) = lg_index L \<and>
     as_TruncatedTerm (ps_applyState s) = lg_term L \<and> cache_repr (ps_entries s) L \<and>
     (ps_entries s = [] \<longrightarrow> unat (ps_persistedLastIndex s) = lg_last L) \<and>
     log_stored pb (ps_engine s) (ps_regionID s) L"

lemma numbered_nth: "numbered n es \<Longrightarrow> i < length es \<Longrightarrow> unat (en_Index (es ! i)) = n + i"
  by (simp add: numbered_def)

lemma numbered_append: "numbered n (xs @ ys) \<longleftrightarrow> numbered n xs \<and> numbered (n + length xs) ys"
  unfolding numbered_def
proof safe
  fix i assume h: "\<forall>i<length (xs @ ys). unat (en_Index ((xs @ ys) ! i)) = n + i"
  show "i < length xs \<Longrightarrow> unat (en_Index (xs ! i)) = n + i"
    using h [rule_format, of i] by (simp add: nth_append)
  show "i < length ys \<Longrightarrow> unat (en_Index (ys ! i)) = n + length xs + i"
    using h [rule_format, of "length xs + i"] by (simp add: nth_append)
next
  fix i assume "\<forall>i<length xs. unat (en_Index (xs ! i)) = n + i"
    "\<forall>i<length ys. unat (en_Index (ys ! i)) = n + length xs + i" "i < length (xs @ ys)"
  then show "unat (en_Index ((xs @ ys) ! i)) = n + i"
    by (cases "i < length xs") (simp_all add: nth_append)
qed

lemma numbered_take: "numbered n es \<Longrightarrow> numbered n (take k es)"
  by (simp add: numbered_def)

lemma numbered_drop: "numbered n es \<Longrightarrow> numbered (n + k) (drop k es)"
  by (simp add: numbered_def)

lemma numbered_last: "numbered n es \<Longrightarrow> es \<noteq> [] \<Longrightarrow> unat (en_Index (last es)) = n + length es - 1"
  by (cases "length es") (auto simp: last_conv_nth numbered_def)

lemma numbered_hd: "numbered n es \<Longrightarrow> es \<noteq> [] \<Longrightarrow> unat (en_Index (hd es)) = n"
  by (cases es) (auto simp: numbered_def)

lemma lg_at_index:
  assumes "log_wf L" "lg_index L < i" "i \<le> lg_last L"
  shows "unat (en_Index (lg_at L i)) = i" "lg_at L i \<in> set (lg_entries L)"
  using assms unfolding log_wf_def lg_at_def lg_last_def numbered_def by simp_all

lemma log_repr_bounds:
  assumes "log_repr pb s L"
  shows "unat (firstIndexLocked s) = Suc (lg_index L)" "unat (lastIndexLocked s) = lg_last L"
    "unat (lastIndexLocked s + 1) = Suc (lg_last L)"
proof -
  have wf: "Suc (lg_last L) < 2 ^ 64" and t: "unat (as_TruncatedIndex (ps_applyState s)) = lg_index L"
    and c: "cache_repr (ps_entries s) L" "ps_entries s = [] \<longrightarrow> unat (ps_persistedLastIndex s) = lg_last L"
    using assms by (auto simp: log_repr_def log_wf_def)
  have "lg_index L \<le> lg_last L" by (simp add: lg_last_def)
  then show "unat (firstIndexLocked s) = Suc (lg_index L)"
    using wf t unfolding firstIndexLocked_def by (subst unat_Suc_word) simp_all
  show l: "unat (lastIndexLocked s) = lg_last L"
    using c by (auto simp: lastIndexLocked_def cache_repr_def)
  show "unat (lastIndexLocked s + 1) = Suc (lg_last L)" using wf l by (subst unat_Suc_word) simp_all
qed

lemma readEntries_loop_stored:
  assumes "log_wf L" "log_stored pb eng rid L"
  shows "lg_index L < unat idx \<Longrightarrow> unat idx + n \<le> Suc (lg_last L) \<Longrightarrow>
    readEntries_loop pb eng rid n lo idx acc = Inr (acc @ map (lg_at L) [unat idx..<unat idx + n])"
proof (induction n arbitrary: idx acc)
  case 0
  then show ?case by simp
next
  case (Suc n)
  let ?e = "lg_at L (unat idx)"
  have at: "unat (en_Index ?e) = unat idx" "?e \<in> set (lg_entries L)"
    using lg_at_index [OF assms(1), of "unat idx"] Suc.prems by simp_all
  then have "en_Index ?e = idx" by (simp add: word_unat_eq_iff)
  then obtain d where d: "cf_get (eng CFRaft) (RaftLogKey rid idx) = Some d" "pb_UnmarshalEntry pb d = Inr ?e"
    using assms(2) at(2) unfolding log_stored_def by metis
  have "Suc (unat idx) < 2 ^ 64" using Suc.prems assms(1) by (simp add: log_wf_def)
  then have suc: "unat (idx + 1) = Suc (unat idx)" by (rule unat_Suc_word)
  have "readEntries_loop pb eng rid n lo (idx + 1) (acc @ [?e]) =
      Inr ((acc @ [?e]) @ map (lg_at L) [unat (idx + 1)..<unat (idx + 1) + n])"
    using Suc.prems suc by (intro Suc.IH) simp_all
  moreover have "[unat idx..<unat idx + Suc n] = unat idx # [Suc (unat idx)..<Suc (unat idx) + n]"
    by (simp add: upt_conv_Cons del: upt_Suc)
  ultimately show ?case using d suc by (simp add: eng_get_def del: upt_Suc)
qed

lemma readEntriesFromEngine_repr:
  assumes "log_repr pb s L" "lg_index L < unat lo" "lo \<le> hi" "unat hi \<le> Suc (lg_last L)"
  shows "readEntriesFromEngine pb lo hi s = Inr (map (lg_at L) [unat lo..<unat hi])"
  using assms readEntries_loop_stored [of L pb "ps_engine s" "ps_regionID s" lo "unat hi - unat lo" lo "[]"]
  by (simp add: readEntriesFromEngine_def log_repr_def word_le_nat_alt)

lemma cache_nth:
  assumes "cache_repr es L" "es \<noteq> []" "lg_index L < i" "unat (en_Index (hd es)) \<le> i" "i \<le> lg_last L"
  shows "i - unat (en_Index (hd es)) < length es" "es ! (i - unat (en_Index (hd es))) = lg_at L i"
proof -
  let ?c = "unat (en_Index (hd es))" let ?k = "i - ?c"
  have num: "numbered ?c es" and lst: "unat (en_Index (last es)) = lg_last L"
    and agree: "\<And>e. e \<in> set es \<Longrightarrow> lg_index L < unat (en_Index e) \<Longrightarrow> lg_at L (unat (en_Index e)) = e"
    using assms by (auto simp: cache_repr_def)
  have "lg_last L = ?c + length es - 1" using numbered_last [OF num assms(2)] lst by simp
  then show len: "?k < length es" using assms by (cases es) auto
  then have "unat (en_Index (es ! ?k)) = i" using numbered_nth [OF num len] assms(4) by simp
  then show "es ! ?k = lg_at L i" using agree [OF nth_mem [OF len]] assms(3) by simp
qed

lemma cache_slice:
  assumes c: "cache_repr es L" "es \<noteq> []" and lo: "lg_index L < unat lo" "en_Index (hd es) \<le> lo"
    and hi: "lo \<le> hi" "unat hi \<le> Suc (lg_last L)"
  shows "slice_entries es (lo - en_Index (hd es)) (hi - en_Index (hd es)) = Inr (map (lg_at L) [unat lo..<unat hi])"
proof -
  let ?c = "unat (en_Index (hd es))"
  have cl: "?c \<le> unat lo" "unat lo \<le> unat hi" using lo hi by (simp_all add: word_le_nat_alt)
  have "numbered ?c es" "unat (en_Index (last es)) = lg_last L" using c by (auto simp: cache_repr_def)
  then have len: "Suc (lg_last L) = ?c + length es" using numbered_last [of ?c es] c(2) by (cases es) auto
  have "take (unat hi - unat lo) (drop (unat lo - ?c) es) = map (lg_at L) [unat lo..<unat hi]"
  proof (rule nth_equalityI)
    fix i assume "i < length (take (unat hi - unat lo) (drop (unat lo - ?c) es))"
    then have i: "i < unat hi - unat lo" "unat lo - ?c + i < length es" by auto
    have "es ! (unat lo + i - ?c) = lg_at L (unat lo + i)"
      using cache_nth(2) [OF c, of "unat lo + i"] lo cl i hi len by simp
    then show "take (unat hi - unat lo) (drop (unat lo - ?c) es) ! i = map (lg_at L) [unat lo..<unat hi] ! i"
      using i cl by simp
  qed (use cl hi len in simp)
  moreover have "en_Index (hd es) \<le> hi" using lo(2) hi(1) by (rule order_trans)
  ultimately show ?thesis using cl lo hi len
    by (simp add: slice_entries_def unat_diff_word word_le_nat_alt diff_le_mono le_diff_conv)
qed

lemma Storage_Entries_repr:
  assumes "log_repr pb s L"
  shows "Storage_Entries pb lo hi maxSize s = res_bind (lg_Entries L lo hi) (\<lambda>es. Inr (limitSize pb es maxSize))"
proof (cases "lo \<le> hi \<and> lg_index L < unat lo \<and> unat hi \<le> Suc (lg_last L)")
  case False
  then show ?thesis
    using log_repr_bounds [OF assms] unfolding Storage_Entries_def lg_Entries_def
    by (auto simp: word_less_nat_alt word_le_nat_alt)
next
  case True
  have c: "cache_repr (ps_entries s) L" using assms by (simp add: log_repr_def)
  have g: "\<not> hi < lo" "\<not> lo < firstIndexLocked s" "\<not> lastIndexLocked s + 1 < hi"
    using True log_repr_bounds [OF assms] by (auto simp: word_less_nat_alt word_le_nat_alt)
  then show ?thesis
    using True cache_slice [OF c, of lo hi] readEntriesFromEngine_repr [OF assms, of lo hi]
    unfolding Storage_Entries_def lg_Entries_def by (auto simp: Let_def)
qed

lemma Storage_Term_repr:
  assumes "log_repr pb s L"
  shows "Storage_Term pb i s = lg_Term L i"
proof (cases "lg_index L < unat i \<and> unat i \<le> lg_last L")
  case False
  then show ?thesis
    using log_repr_bounds [OF assms] assms unfolding Storage_Term_def lg_Term_def
    by (auto simp: word_less_nat_alt log_repr_def word_unat_eq_iff)
next
  case True
  have c: "cache_repr (ps_entries s) L" and wf: "log_wf L" using assms by (simp_all add: log_repr_def)
  have g: "i \<noteq> as_TruncatedIndex (ps_applyState s)" "\<not> i < firstIndexLocked s" "\<not> lastIndexLocked s < i"
    using True log_repr_bounds [OF assms] assms by (auto simp: word_less_nat_alt log_repr_def)
  have suc: "unat (i + 1) = Suc (unat i)" using True wf by (intro unat_Suc_word) (simp add: log_wf_def)
  have rd: "readEntriesFromEngine pb i (i + 1) s = Inr [lg_at L (unat i)]"
    using True suc readEntriesFromEngine_repr [OF assms, of i "i + 1"] by (simp add: word_le_nat_alt)
  have "Inr (en_Term (ps_entries s ! unat (i - en_Index (hd (ps_entries s))))) = lg_Term L i \<and>
      unat (i - en_Index (hd (ps_entries s))) < length (ps_entries s)"
    if "ps_entries s \<noteq> []" "en_Index (hd (ps_entries s)) \<le> i"
    using cache_nth [OF c that(1), of "unat i"] True that(2)
    by (simp add: unat_diff_word lg_Term_def word_le_nat_alt)
  then show ?thesis using g rd True unfolding Storage_Term_def by (auto simp: lg_Term_def Let_def)
qed

lemma lg_append_props:
  assumes "lg_appendable new L" "new \<noteq> []"
  shows "lg_index (lg_append new L) = lg_index L" "lg_term (lg_append new L) = lg_term L"
    "Suc (lg_last (lg_append new L)) = unat (en_Index (hd new)) + length new"
    "lg_index L < i \<Longrightarrow> i \<le> lg_last (lg_append new L) \<Longrightarrow>
     lg_at (lg_append new L) i = (if i < unat (en_Index (hd new)) then lg_at L i else new ! (i - unat (en_Index (hd new))))"
proof -
  let ?f = "unat (en_Index (hd new))" let ?k = "?f - Suc (lg_index L)"
  have f: "lg_index L < ?f" "?k \<le> length (lg_entries L)"
    using assms by (auto simp: lg_appendable_def lg_last_def)
  have es: "lg_entries (lg_append new L) = take ?k (lg_entries L) @ new" using assms(2) by (simp add: lg_append_def)
  show idx: "lg_index (lg_append new L) = lg_index L" "lg_term (lg_append new L) = lg_term L"
    by (simp_all add: lg_append_def)
  show "Suc (lg_last (lg_append new L)) = ?f + length new"
    using f by (simp add: lg_last_def es idx)
  show "lg_at (lg_append new L) i = (if i < ?f then lg_at L i else new ! (i - ?f))" if "lg_index L < i"
    using f that by (auto simp: lg_at_def es idx nth_append min_absorb2)
qed

lemma log_wf_append:
  assumes "log_wf L" "lg_appendable new L"
  shows "log_wf (lg_append new L)"
proof (cases "new = []")
  case False
  let ?f = "unat (en_Index (hd new))"
  have num: "numbered ?f new" and f: "lg_index L < ?f" "?f \<le> Suc (lg_last L)" "Suc (unat (en_Index (last new))) < 2 ^ 64"
    using assms(2) False by (auto simp: lg_appendable_def)
  have len: "length (take (?f - Suc (lg_index L)) (lg_entries L)) = ?f - Suc (lg_index L)"
    using f by (simp add: lg_last_def)
  have "numbered (Suc (lg_index L)) (take (?f - Suc (lg_index L)) (lg_entries L) @ new)"
    unfolding numbered_append len using num f assms(1) by (simp add: log_wf_def numbered_take)
  moreover have "unat (en_Index (last new)) = lg_last (lg_append new L)"
    using numbered_last [OF num False] lg_append_props(3) [OF assms(2) False] False by simp
  ultimately show ?thesis using f(3) False by (simp add: log_wf_def lg_append_def)
qed (use assms in \<open>simp add: lg_append_def\<close>)

lemma cache_repr_new:
  assumes "lg_appendable new L" "new \<noteq> []"
  shows "cache_repr new (lg_append new L)"
proof -
  let ?f = "unat (en_Index (hd new))"
  have num: "numbered ?f new" and f: "lg_index L < ?f" using assms by (auto simp: lg_appendable_def)
  note p = lg_append_props [OF assms]
  have "lg_at (lg_append new L) (unat (en_Index (new ! k))) = new ! k" if "k < length new" for k
    using p(4) [of "?f + k"] p(3) f that by (simp add: numbered_nth [OF num that])
  moreover have "unat (en_Index (last new)) = lg_last (lg_append new L)"
    using numbered_last [OF num assms(2)] p(3) assms(2) by simp
  ultimately show ?thesis using num by (auto simp: cache_repr_def in_set_conv_nth)
qed

lemma cache_repr_drop:
  assumes "cache_repr es L" "k < length es"
  shows "cache_repr (drop k es) L"
proof -
  have num: "numbered (unat (en_Index (hd es))) es" using assms(1) by (simp add: cache_repr_def)
  then have "numbered (unat (en_Index (hd es)) + k) (drop k es)" by (rule numbered_drop)
  moreover from this have "unat (en_Index (hd (drop k es))) = unat (en_Index (hd es)) + k"
    using assms(2) by (intro numbered_hd) simp_all
  ultimately show ?thesis
    using assms by (auto simp: cache_repr_def last_drop dest: in_set_dropD)
qed

lemma cache_repr_keep:
  assumes "cache_repr es L" "es \<noteq> []" and app: "lg_appendable new L" "new \<noteq> []"
    and less: "unat (en_Index (hd es)) < unat (en_Index (hd new))"
  shows "cache_repr (take (unat (en_Index (hd new)) - unat (en_Index (hd es))) es @ new) (lg_append new L)"
proof -
  let ?f = "unat (en_Index (hd new))" let ?c = "unat (en_Index (hd es))" let ?kept = "take (?f - ?c) es"
  have num: "numbered ?c es" and lst: "unat (en_Index (last es)) = lg_last L"
    and agree: "\<And>e. e \<in> set es \<Longrightarrow> lg_index L < unat (en_Index e) \<Longrightarrow> lg_at L (unat (en_Index e)) = e"
    using assms(1,2) by (auto simp: cache_repr_def)
  have f: "?f \<le> Suc (lg_last L)" "numbered ?f new" using app by (auto simp: lg_appendable_def)
  note p = lg_append_props [OF app] and c' = cache_repr_new [OF app]
  have "lg_last L = ?c + length es - 1" using numbered_last [OF num assms(2)] lst by simp
  then have len: "length ?kept = ?f - ?c" "?kept \<noteq> []" using f less assms(2) by (cases es; auto)+
  have hd: "hd (?kept @ new) = hd es" using len(2) by simp
  have "numbered ?c (?kept @ new)"
    unfolding numbered_append len using num f(2) less by (simp add: numbered_take)
  moreover have "lg_at (lg_append new L) (unat (en_Index e)) = e"
    if "e \<in> set ?kept" "lg_index L < unat (en_Index e)" for e
  proof -
    obtain k where k: "k < ?f - ?c" "k < length es" "e = es ! k" using \<open>e \<in> set ?kept\<close> by (auto simp: in_set_conv_nth)
    then have "unat (en_Index e) < ?f" using numbered_nth [OF num k(2)] by simp
    then show ?thesis using p(4) [OF that(2)] p(3) agree [OF in_set_takeD [OF that(1)] that(2)] app(2)
      by (cases new) simp_all
  qed
  ultimately show ?thesis
    using c' p(1) unfolding cache_repr_def hd by (auto simp: app(2))
qed

lemma appendToCache_repr:
  assumes "cache_repr es L" "lg_appendable new L" "new \<noteq> []"
  shows "cache_repr (appendToCache new es) (lg_append new L)" "appendToCache new es \<noteq> []"
proof -
  let ?kept = "if en_Index (hd new) \<le> en_Index (hd es) then new
      else take (min (unat (en_Index (hd new) - en_Index (hd es))) (length es)) es @ new"
  have kept: "cache_repr ?kept (lg_append new L)" "?kept \<noteq> []" if "es \<noteq> []"
    using cache_repr_new [OF assms(2,3)] cache_repr_keep [OF assms(1) that assms(2,3)] assms(3)
    by (auto simp: unat_diff_word word_le_nat_alt min_def)
  show "cache_repr (appendToCache new es) (lg_append new L)" "appendToCache new es \<noteq> []"
    using cache_repr_new [OF assms(2,3)] assms(3) kept cache_repr_drop [OF kept(1), of "length ?kept - maxCacheSize"]
    unfolding appendToCache_def Let_def by (auto simp: maxCacheSize_def)
qed

lemma RaftLogKey_inject [simp]: "RaftLogKey r i = RaftLogKey s j \<longleftrightarrow> r = s \<and> i = j"
  by (auto simp: RaftLogKey_def)

lemma raft_keys_distinct [simp]:
  "RaftLogKey r i \<noteq> RaftStateKey s" "RaftLogKey r i \<noteq> ApplyStateKey s"
  "RaftStateKey s \<noteq> RaftLogKey r i" "ApplyStateKey s \<noteq> RaftLogKey r i"
  "RaftStateKey r \<noteq> ApplyStateKey s" "ApplyStateKey r \<noteq> RaftStateKey s"
  by (auto simp: region_key_defs dest: arg_cong [where f = length])

lemma wb_commit_simps [simp]:
  "wb_commit [] eng = eng" "wb_commit (op # ops) eng = wb_commit ops (wb_apply1 op eng)"
  "wb_commit (xs @ ys) eng = wb_commit ys (wb_commit xs eng)"
  by (simp_all add: wb_commit_def)

lemma entryOps_total: "raftpb_ok pb \<Longrightarrow> \<exists>ops. entryOps pb rid es = Inr ops"
proof (induction es)
  case (Cons e es)
  then obtain d ops where "pb_MarshalEntry pb e = Inr d" "entryOps pb rid es = Inr ops"
    unfolding raftpb_ok_def by metis
  then show ?case by simp
qed simp

lemma entryOps_Cons:
  assumes "entryOps pb rid (e # es) = Inr ops"
  obtains d ops' where "pb_MarshalEntry pb e = Inr d" "entryOps pb rid es = Inr ops'"
    "ops = WbPut CFRaft (RaftLogKey rid (en_Index e)) d # ops'"
  using assms by (auto simp: res_bind_def split: sum.splits)

lemma wb_commit_sorted: "cf_sorted (eng c) \<Longrightarrow> cf_sorted (wb_commit ops eng c)"
proof (induction ops arbitrary: eng)
  case (Cons op ops)
  have "cf_sorted (wb_apply1 op eng c)" using Cons.prems by (cases op) (auto simp: cf_simps)
  then show ?case using Cons.IH by simp
qed simp

lemma entryOps_other:
  "cf_sorted (eng CFRaft) \<Longrightarrow> entryOps pb rid es = Inr ops \<Longrightarrow> k \<notin> (\<lambda>e. RaftLogKey rid (en_Index e)) ` set es \<Longrightarrow>
   cf_get (wb_commit ops eng CFRaft) k = cf_get (eng CFRaft) k"
proof (induction es arbitrary: ops eng)
  case (Cons e es)
  from Cons.prems(2) show ?case
    by (rule entryOps_Cons) (use Cons.prems(1,3) in \<open>simp add: Cons.IH cf_simps\<close>)
qed simp

lemma entryOps_stored:
  assumes "raftpb_ok pb"
  shows "cf_sorted (eng CFRaft) \<Longrightarrow> entryOps pb rid es = Inr ops \<Longrightarrow> distinct (map en_Index es) \<Longrightarrow> e \<in> set es \<Longrightarrow>
    \<exists>d. cf_get (wb_commit ops eng CFRaft) (RaftLogKey rid (en_Index e)) = Some d \<and> pb_UnmarshalEntry pb d = Inr e"
proof (induction es arbitrary: ops eng)
  case (Cons a es)
  obtain d ops' where d: "pb_MarshalEntry pb a = Inr d" "entryOps pb rid es = Inr ops'"
    "ops = WbPut CFRaft (RaftLogKey rid (en_Index a)) d # ops'" using entryOps_Cons [OF Cons.prems(2)] .
  show ?case
  proof (cases "e = a")
    case True
    have "RaftLogKey rid (en_Index a) \<notin> (\<lambda>e. RaftLogKey rid (en_Index e)) ` set es"
      using Cons.prems(3) by auto
    moreover have "pb_UnmarshalEntry pb d = Inr a" using assms d(1) unfolding raftpb_ok_def by (metis sum.inject(2))
    ultimately show ?thesis using True d Cons.prems(1) entryOps_other [OF _ d(2)] by (simp add: cf_simps)
  next
    case False
    then show ?thesis using Cons d by (simp add: cf_simps)
  qed
qed simp

lemma numbered_distinct: "numbered n es \<Longrightarrow> distinct (map en_Index es)"
  by (simp add: distinct_conv_nth) (metis add_left_cancel numbered_nth)

lemma log_stored_append:
  assumes "raftpb_ok pb" "log_wf L" "log_stored pb eng rid L" "lg_appendable new L" "entryOps pb rid new = Inr ops"
  shows "log_stored pb (wb_commit ops eng) rid (lg_append new L)"
proof (cases "new = []")
  case False
  let ?f = "unat (en_Index (hd new))"
  have num: "numbered ?f new" and srt: "cf_sorted (eng CFRaft)"
    using assms(3,4) False by (simp_all add: lg_appendable_def log_stored_def)
  have "\<exists>d. cf_get (wb_commit ops eng CFRaft) (RaftLogKey rid (en_Index e)) = Some d \<and> pb_UnmarshalEntry pb d = Inr e"
    if e: "e \<in> set (take (?f - Suc (lg_index L)) (lg_entries L))" for e
  proof -
    obtain k where "k < ?f - Suc (lg_index L)" "k < length (lg_entries L)" "e = lg_entries L ! k"
      using e by (auto simp: in_set_conv_nth)
    then have "unat (en_Index e) < ?f" using assms(2) by (simp add: log_wf_def numbered_def)
    then have "RaftLogKey rid (en_Index e) \<notin> (\<lambda>e. RaftLogKey rid (en_Index e)) ` set new"
      using num by (auto simp: numbered_def in_set_conv_nth)
    then show ?thesis
      using entryOps_other [of eng, OF srt assms(5)] assms(3) in_set_takeD [OF that] by (simp add: log_stored_def)
  qed
  then show ?thesis
    using entryOps_stored [of pb eng, OF assms(1) srt assms(5) numbered_distinct [OF num]] False wb_commit_sorted [of eng, OF srt]
    unfolding log_stored_def lg_append_def by auto
qed (use assms in \<open>simp add: lg_append_def\<close>)

lemma cacheEntries_fields [simp]:
  "ps_engine (cacheEntries es s) = ps_engine s" "ps_regionID (cacheEntries es s) = ps_regionID s"
  "ps_applyState (cacheEntries es s) = ps_applyState s" "ps_hardState (cacheEntries es s) = ps_hardState s"
  by (simp_all add: cacheEntries_def)

lemma cacheEntries_repr:
  assumes "log_repr pb s L" "lg_appendable new L" "log_stored pb eng (ps_regionID s) (lg_append new L)"
  shows "log_repr pb (cacheEntries new (s\<lparr>ps_engine := eng\<rparr>)) (lg_append new L)"
proof (cases "new = []")
  case True
  then show ?thesis using assms by (simp add: log_repr_def cacheEntries_def lg_append_def)
next
  case False
  then show ?thesis
    using assms appendToCache_repr [OF _ assms(2) False, of "ps_entries s"] log_wf_append [of L new] lg_append_props [of new L]
    by (simp add: log_repr_def) (simp add: cacheEntries_def)
qed

lemma log_stored_put_other:
  assumes "log_stored pb eng rid L" "\<And>i. k \<noteq> RaftLogKey rid i"
  shows "log_stored pb (eng(CFRaft := cf_put k d (eng CFRaft))) rid L"
  using assms(1) assms(2) [symmetric] by (simp add: log_stored_def cf_simps)

lemma log_repr_hardState [simp]: "log_repr pb (s\<lparr>ps_hardState := hs\<rparr>) L \<longleftrightarrow> log_repr pb s L"
  by (simp add: log_repr_def)

definition hardStateOps :: "raftpb \<Rightarrow> Ready \<Rightarrow> u64 \<Rightarrow> wb_op list res" where
  "hardStateOps pb rd rid =
     (if IsEmptyHardState (rd_HardState rd) then Inr []
      else res_bind (pb_MarshalHardState pb (rd_HardState rd)) (\<lambda>data. Inr [WbPut CFRaft (RaftStateKey rid) data]))"

definition takeHardState :: "Ready \<Rightarrow> PeerStorage \<Rightarrow> PeerStorage" where
  "takeHardState rd s = (if IsEmptyHardState (rd_HardState rd) then s else s\<lparr>ps_hardState := rd_HardState rd\<rparr>)"

lemma takeHardState_fields [simp]:
  "ps_engine (takeHardState rd s) = ps_engine s" "ps_regionID (takeHardState rd s) = ps_regionID s"
  "ps_applyState (takeHardState rd s) = ps_applyState s" "ps_entries (takeHardState rd s) = ps_entries s"
  "ps_persistedLastIndex (takeHardState rd s) = ps_persistedLastIndex s"
  by (simp_all add: takeHardState_def)

lemma takeHardState_repr [simp]: "log_repr pb (takeHardState rd s) L \<longleftrightarrow> log_repr pb s L"
  by (simp add: takeHardState_def)

lemma SaveReady_eq:
  "SaveReady pb rd s =
     (case res_bind (hardStateOps pb rd (ps_regionID s)) (\<lambda>hsOps.
        res_bind (entryOps pb (ps_regionID s) (rd_Entries rd)) (\<lambda>ops. Inr (hsOps @ ops))) of
        Inl e \<Rightarrow> (Some (RaftStoreErr e), takeHardState rd s)
      | Inr ops \<Rightarrow> (None, cacheEntries (rd_Entries rd) ((takeHardState rd s)\<lparr>ps_engine := wb_commit ops (ps_engine s)\<rparr>)))"
  by (simp add: SaveReady_def hardStateOps_def takeHardState_def Let_def split: sum.splits)

text \<open>What the engine holds after a save: the hard state under its key, the entries under theirs.\<close>

lemma SaveReady_ops:
  assumes "raftpb_ok pb"
  obtains hs ops where
    "hardStateOps pb rd (ps_regionID s) = Inr hs" "entryOps pb (ps_regionID s) (rd_Entries rd) = Inr ops"
    "SaveReady pb rd s = (None, cacheEntries (rd_Entries rd)
       ((takeHardState rd s)\<lparr>ps_engine := wb_commit ops (wb_commit hs (ps_engine s))\<rparr>))"
proof -
  obtain d where "pb_MarshalHardState pb (rd_HardState rd) = Inr d" using assms unfolding raftpb_ok_def by metis
  then have "\<exists>hs. hardStateOps pb rd (ps_regionID s) = Inr hs" by (simp add: hardStateOps_def)
  then obtain hs where "hardStateOps pb rd (ps_regionID s) = Inr hs" ..
  moreover obtain ops where "entryOps pb (ps_regionID s) (rd_Entries rd) = Inr ops" using entryOps_total [OF assms] by metis
  ultimately show thesis by (intro that) (simp_all add: SaveReady_eq)
qed

lemma hardStateOps_stored:
  assumes "hardStateOps pb rd rid = Inr hs" "log_stored pb eng rid L"
  shows "log_stored pb (wb_commit hs eng) rid L"
  using assms by (auto simp: hardStateOps_def res_bind_def log_stored_put_other split: if_splits sum.splits)

lemma SaveReady_repr:
  assumes "raftpb_ok pb" "log_repr pb s L" "lg_appendable (rd_Entries rd) L"
  shows "\<exists>s'. SaveReady pb rd s = (None, s') \<and> log_repr pb s' (lg_append (rd_Entries rd) L)"
proof -
  obtain hs ops where o: "hardStateOps pb rd (ps_regionID s) = Inr hs"
    "entryOps pb (ps_regionID s) (rd_Entries rd) = Inr ops"
    "SaveReady pb rd s = (None, cacheEntries (rd_Entries rd)
       ((takeHardState rd s)\<lparr>ps_engine := wb_commit ops (wb_commit hs (ps_engine s))\<rparr>))"
    using SaveReady_ops [OF assms(1)] .
  have st: "log_wf L" "log_stored pb (wb_commit hs (ps_engine s)) (ps_regionID s) L"
    using assms(2) hardStateOps_stored [OF o(1)] by (auto simp: log_repr_def)
  have "log_stored pb (wb_commit ops (wb_commit hs (ps_engine s))) (ps_regionID s) (lg_append (rd_Entries rd) L)"
    using log_stored_append [OF assms(1) st assms(3) o(2)] .
  then show ?thesis
    using cacheEntries_repr [of pb "takeHardState rd s" L] assms(2,3) o(3) by simp
qed

subsection \<open>The batched write path\<close>

definition as_write_op :: "wb_op \<Rightarrow> WriteOp" where
  "as_write_op op = (case op of WbPut c k v \<Rightarrow> \<lparr>wo_CF = c, wo_Key = k, wo_Value = v\<rparr>
     | _ \<Rightarrow> \<lparr>wo_CF = [], wo_Key = [], wo_Value = []\<rparr>)"

lemma entryWriteOps_eq:
  "entryWriteOps pb rid es acc =
     res_bind (entryOps pb rid es) (\<lambda>ops. Inr (acc @ map as_write_op ops))"
  by (induction es arbitrary: acc) (simp_all add: res_bind_def as_write_op_def split: sum.split)

definition raft_puts :: "wb_op list \<Rightarrow> bool" where
  "raft_puts ops \<longleftrightarrow> (\<forall>op \<in> set ops. \<exists>k v. op = WbPut CFRaft k v)"

lemma raft_puts_ops:
  "hardStateOps pb rd rid = Inr hs \<Longrightarrow> raft_puts hs"
  "entryOps pb rid es = Inr ops \<Longrightarrow> raft_puts ops"
  by (auto simp: hardStateOps_def raft_puts_def res_bind_def split: if_splits sum.splits)
    (induction es arbitrary: ops, auto simp: res_bind_def split: sum.splits)

lemma batch_puts_raft: "raft_puts ops \<Longrightarrow> batch_puts (map as_write_op ops @ rest) wb = batch_puts rest (wb @ ops)"
proof (induction ops arbitrary: wb)
  case (Cons op ops)
  then obtain k v where "op = WbPut CFRaft k v" "raft_puts ops" by (auto simp: raft_puts_def)
  then show ?case using Cons.IH by (simp add: as_write_op_def wb_add_def)
qed simp

lemma BuildWriteTask_eq:
  "BuildWriteTask pb rd s =
     (case res_bind (hardStateOps pb rd (ps_regionID s)) (\<lambda>hsOps.
        res_bind (entryOps pb (ps_regionID s) (rd_Entries rd)) (\<lambda>ops. Inr (hsOps @ ops))) of
        Inl e \<Rightarrow> Inl (RaftStoreErr e)
      | Inr ops \<Rightarrow> Inr \<lparr>wt_RegionID = ps_regionID s, wt_Ops = map as_write_op ops, wt_Entries = rd_Entries rd,
          wt_HardState = (if IsEmptyHardState (rd_HardState rd) then None else Some (rd_HardState rd))\<rparr>)"
  by (simp add: BuildWriteTask_def entryWriteOps_eq hardStateOps_def Let_def res_bind_def as_write_op_def
      split: sum.split)

lemma BuildWriteTask_SaveReady:
  "case BuildWriteTask pb rd s of
     Inl e \<Rightarrow> SaveReady pb rd s = (Some e, takeHardState rd s)
   | Inr task \<Rightarrow> \<exists>eng. processBatch [task] (ps_engine s) = (None, eng) \<and>
       SaveReady pb rd s = (None, ApplyWriteTaskPostPersist task (s\<lparr>ps_engine := eng\<rparr>))"
proof (cases "res_bind (hardStateOps pb rd (ps_regionID s)) (\<lambda>hsOps.
        res_bind (entryOps pb (ps_regionID s) (rd_Entries rd)) (\<lambda>ops. Inr (hsOps @ ops)))")
  case (Inl e)
  then show ?thesis by (simp add: BuildWriteTask_eq SaveReady_eq)
next
  case (Inr ops)
  then have "raft_puts ops"
    using raft_puts_ops by (fastforce simp: res_bind_def raft_puts_def split: sum.splits)
  then have "batch_puts (map as_write_op ops) [] = Inr ops"
    using batch_puts_raft [of ops "[]" "[]"] by simp
  then show ?thesis
    using Inr by (simp add: BuildWriteTask_eq SaveReady_eq processBatch_def ApplyWriteTaskPostPersist_def takeHardState_def Let_def)
      (intro impI arg_cong [where f = "cacheEntries (rd_Entries rd)"], simp)
qed

lemma batch_puts_append: "batch_puts (xs @ ys) wb = res_bind (batch_puts xs wb) (batch_puts ys)"
  by (induction xs arbitrary: wb) (simp_all add: wb_add_def)

lemma batch_puts_acc: "batch_puts ops wb = res_bind (batch_puts ops []) (\<lambda>r. Inr (wb @ r))"
proof (induction ops arbitrary: wb)
  case (Cons op ops)
  let ?p = "WbPut (wo_CF op) (wo_Key op) (wo_Value op)"
  show ?case
    unfolding batch_puts.simps wb_add_def append_Nil
    using Cons.IH [of "wb @ [?p]"] Cons.IH [of "[?p]"] by (cases "batch_puts ops []") simp_all
qed simp

lemma processBatch_append:
  assumes "processBatch xs eng = (None, eng')" "processBatch ys eng' = (None, eng'')"
  shows "processBatch (xs @ ys) eng = (None, eng'')"
proof -
  obtain a b where "batch_puts (concat (map wt_Ops xs)) [] = Inr a" "eng' = wb_commit a eng"
    "batch_puts (concat (map wt_Ops ys)) [] = Inr b" "eng'' = wb_commit b eng'"
    using assms by (auto simp: processBatch_def split: sum.splits)
  then show ?thesis
    using batch_puts_acc [of "concat (map wt_Ops ys)" a] by (simp add: processBatch_def batch_puts_append)
qed

subsection \<open>Compaction\<close>

lemma lg_compact_props:
  assumes "lg_index L < unat ci" "unat ci \<le> lg_last L"
  shows "lg_last (lg_compact ci ct L) = lg_last L" "lg_index (lg_compact ci ct L) = unat ci"
    "unat ci < i \<Longrightarrow> lg_at (lg_compact ci ct L) i = lg_at L i"
    "set (lg_entries (lg_compact ci ct L)) \<subseteq> set (lg_entries L)"
  using assms by (simp_all add: lg_compact_def lg_last_def lg_at_def set_drop_subset)

lemma log_wf_compact:
  assumes "log_wf L" "unat ci \<le> lg_last L"
  shows "log_wf (lg_compact ci ct L)"
proof (cases "unat ci \<le> lg_index L")
  case False
  then have "lg_last (lg_compact ci ct L) = lg_last L" using lg_compact_props(1) assms(2) by simp
  moreover have "numbered (Suc (unat ci)) (drop (unat ci - lg_index L) (lg_entries L))"
    using numbered_drop [of "Suc (lg_index L)" "lg_entries L" "unat ci - lg_index L"] assms(1) False
    by (simp add: log_wf_def)
  ultimately show ?thesis using assms(1) False by (simp add: log_wf_def lg_compact_def)
qed (use assms in \<open>simp add: lg_compact_def\<close>)

lemma log_repr_compact:
  assumes "log_repr pb s L" "lg_index L < unat ci" "unat ci \<le> lg_last L"
    "as_TruncatedIndex a = ci" "as_TruncatedTerm a = ct"
  shows "log_repr pb (SetApplyState a s) (lg_compact ci ct L)"
proof -
  note p = lg_compact_props [OF assms(2,3)]
  have "cache_repr (ps_entries s) (lg_compact ci ct L)"
    using assms(1,2) p(1-3) by (simp add: log_repr_def cache_repr_def)
  moreover have "log_stored pb (ps_engine s) (ps_regionID s) (lg_compact ci ct L)"
    using assms(1) p(4) [of ct] unfolding log_repr_def log_stored_def by blast
  ultimately show ?thesis
    using assms p log_wf_compact [of L ci ct] by (simp add: log_repr_def SetApplyState_def) (simp add: lg_compact_def)
qed

lemma execCompactLog_cases:
  assumes "execCompactLog a req = (r, a')"
  shows "a' = a \<or>
    (as_TruncatedIndex a < clq_CompactIndex req \<and> clq_CompactIndex req \<le> as_AppliedIndex a \<and>
     as_TruncatedIndex a' = clq_CompactIndex req \<and> as_TruncatedTerm a' = clq_CompactTerm req \<and>
     as_AppliedIndex a' = as_AppliedIndex a)"
  using assms by (auto simp: execCompactLog_def split: if_splits)

lemma gcRaftLog_repr:
  assumes "log_repr pb s L" "gct_RegionID task = ps_regionID s" "unat (gct_EndIdx task) \<le> Suc (lg_index L)"
  shows "\<exists>eng. gcRaftLog task (ps_engine s) = Inr eng \<and> log_repr pb (s\<lparr>ps_engine := eng\<rparr>) L"
proof (cases "gct_EndIdx task \<le> gct_StartIdx task")
  case False
  let ?cf = "cf_delete_range (RaftLogKey (ps_regionID s) (gct_StartIdx task)) (RaftLogKey (ps_regionID s) (gct_EndIdx task))
    (ps_engine s CFRaft)"
  have "\<not> RaftLogKey (ps_regionID s) (en_Index e) < RaftLogKey (ps_regionID s) (gct_EndIdx task)"
    if e: "e \<in> set (lg_entries L)" for e
  proof -
    obtain i where "i < length (lg_entries L)" "e = lg_entries L ! i" using e by (auto simp: in_set_conv_nth)
    then have "Suc (lg_index L) \<le> unat (en_Index e)" using assms(1) by (simp add: log_repr_def log_wf_def numbered_def)
    then show ?thesis using assms(3) by (simp add: RaftLogKey_less word_less_nat_alt)
  qed
  then have "log_stored pb ((ps_engine s)(CFRaft := ?cf)) (ps_regionID s) L"
    using assms(1) by (auto simp: log_repr_def log_stored_def cf_simps)
  then show ?thesis using assms False by (simp add: gcRaftLog_def eng_delete_range_def log_repr_def)
qed (use assms in \<open>simp add: gcRaftLog_def\<close>)

lemma CompactTo_repr:
  assumes "log_repr pb s L" "unat (ps_persistedLastIndex s) = lg_last L \<or> unat n \<le> lg_last L"
  shows "log_repr pb (CompactTo n s) L"
proof -
  let ?es = "ps_entries s" let ?c = "en_Index (hd ?es)"
  have c: "cache_repr ?es L" using assms(1) by (simp add: log_repr_def)
  have len: "Suc (lg_last L) = unat ?c + length ?es" if "?es \<noteq> []"
    using c numbered_last [of "unat ?c" ?es] that by (cases ?es) (auto simp: cache_repr_def)
  have "cache_repr [] L" by (simp add: cache_repr_def numbered_def)
  then show ?thesis
    using assms c len cache_repr_drop [OF c, of "unat (n - ?c)"]
    by (auto simp: CompactTo_def Let_def log_repr_def unat_diff_word word_le_nat_alt)
qed

lemma limitSize_loop_prefix: "\<exists>zs. es = limitSize_loop sz m acc first es @ zs"
  by (induction es arbitrary: acc first) (auto simp: Let_def)

lemma limitSize_prefix:
  "\<exists>zs. es = limitSize pb es m @ zs" "es \<noteq> [] \<Longrightarrow> limitSize pb es m \<noteq> []"
  using limitSize_loop_prefix [of es] by (auto simp: limitSize_def neq_Nil_conv Let_def)

subsection \<open>Recovery\<close>

definition log_exact :: "raftpb \<Rightarrow> store \<Rightarrow> u64 \<Rightarrow> rlog \<Rightarrow> bool" where
  "log_exact pb eng rid F \<longleftrightarrow>
     log_wf F \<and> log_stored pb eng rid F \<and>
     (\<forall>k. in_key_range (RaftLogKeyRange rid) k \<longrightarrow> cf_get (eng CFRaft) k \<noteq> None \<longrightarrow>
        k \<in> (\<lambda>e. RaftLogKey rid (en_Index e)) ` set (lg_entries F))"

lemma raftLogEntries_filter:
  "raftLogEntries eng rid = filter (\<lambda>e. in_key_range (RaftLogKeyRange rid) (fst e)) (eng CFRaft)"
  by (simp add: raftLogEntries_def RaftLogKeyRange_def NewIterator_def SeekToFirst_def in_key_range_def
      in_bounds_def it_all_def)

lemma numbered_sorted_keys:
  "numbered n es \<Longrightarrow> sorted_wrt (<) (map (\<lambda>e. RaftLogKey rid (en_Index e)) es)"
  by (simp add: sorted_wrt_iff_nth_less numbered_def RaftLogKey_less word_less_nat_alt)

lemma unmarshalAll_map:
  "(\<And>e. e \<in> set es \<Longrightarrow> pb_UnmarshalEntry pb (d e) = Inr e) \<Longrightarrow>
   unmarshalAll pb (map (\<lambda>e. (k e, d e)) es) = Inr es"
  by (induction es) simp_all

lemma map_of_lookup_keys:
  "\<forall>e \<in> set es. m (k e) \<noteq> None \<Longrightarrow>
   map_of (map (\<lambda>e. (k e, the (m (k e)))) es) x = (if x \<in> k ` set es then m x else None)"
  by (induction es) auto

lemma recover_exact:
  assumes "log_exact pb eng rid F"
  shows "unmarshalAll pb (raftLogEntries eng rid) = Inr (lg_entries F)"
proof -
  let ?key = "\<lambda>e. RaftLogKey rid (en_Index e)" let ?d = "\<lambda>e. the (cf_get (eng CFRaft) (?key e))"
  let ?T = "map (\<lambda>e. (?key e, ?d e)) (lg_entries F)"
  have num: "numbered (Suc (lg_index F)) (lg_entries F)" and srt: "cf_sorted (eng CFRaft)"
    and st: "\<And>e. e \<in> set (lg_entries F) \<Longrightarrow> \<exists>d. cf_get (eng CFRaft) (?key e) = Some d \<and> pb_UnmarshalEntry pb d = Inr e"
    and ex: "\<And>k. in_key_range (RaftLogKeyRange rid) k \<Longrightarrow> cf_get (eng CFRaft) k \<noteq> None \<Longrightarrow> k \<in> ?key ` set (lg_entries F)"
    using assms by (auto simp: log_exact_def log_wf_def log_stored_def)
  have "raftLogEntries eng rid = ?T"
  proof (rule cf_eqI)
    show "cf_sorted (raftLogEntries eng rid)" by (simp add: raftLogEntries_filter cf_sorted_filter srt)
    show "cf_sorted ?T" using numbered_sorted_keys [OF num, of rid] by (simp add: cf_sorted_def comp_def)
    fix k
    have T: "cf_get ?T k = (if k \<in> ?key ` set (lg_entries F) then cf_get (eng CFRaft) k else None)"
      unfolding cf_get_def by (rule map_of_lookup_keys) (use st in \<open>force simp: cf_get_def\<close>)
    have "cf_get (raftLogEntries eng rid) k = (if in_key_range (RaftLogKeyRange rid) k then cf_get (eng CFRaft) k else None)"
      by (simp add: raftLogEntries_filter cf_get_def map_of_filter_key)
    then show "cf_get (raftLogEntries eng rid) k = cf_get ?T k"
      unfolding T using ex [of k] by (auto simp: in_RaftLogKeyRange simp del: not_None_eq)
  qed
  moreover have "unmarshalAll pb ?T = Inr (lg_entries F)"
    by (rule unmarshalAll_map) (use st in force)
  ultimately show ?thesis by simp
qed

lemma maxIndex_snoc: "maxIndex (es @ [e]) = (if maxIndex es < en_Index e then en_Index e else maxIndex es)"
  by (simp add: maxIndex_def)

lemma maxIndex_numbered:
  "numbered n es \<Longrightarrow> 0 < n \<Longrightarrow> es \<noteq> [] \<Longrightarrow> maxIndex es = en_Index (last es)"
proof (induction es rule: rev_induct)
  case (snoc e es)
  have num: "numbered n es" "unat (en_Index e) = n + length es"
    using snoc.prems(1) unfolding numbered_append by (simp_all add: numbered_def)
  show ?case
  proof (cases "es = []")
    case True
    then show ?thesis using num(2) snoc.prems by (simp add: maxIndex_def word_less_nat_alt)
  next
    case False
    then have "maxIndex es = en_Index (last es)" using snoc num by simp
    moreover have "unat (en_Index (last es)) < unat (en_Index e)"
      using num numbered_last [OF num(1) False] False by (cases "length es") simp_all
    ultimately show ?thesis by (simp add: maxIndex_snoc word_less_nat_alt)
  qed
qed simp

definition lg_from :: "ApplyState \<Rightarrow> rlog \<Rightarrow> rlog" where
  "lg_from a F = \<lparr>lg_index = unat (as_TruncatedIndex a), lg_term = as_TruncatedTerm a,
     lg_entries = drop (unat (as_TruncatedIndex a) - lg_index F) (lg_entries F)\<rparr>"

lemma lg_from_props:
  assumes "lg_index F \<le> unat (as_TruncatedIndex a)" "unat (as_TruncatedIndex a) \<le> lg_last F"
  shows "lg_last (lg_from a F) = lg_last F" "unat (as_TruncatedIndex a) < i \<Longrightarrow> lg_at (lg_from a F) i = lg_at F i"
    "set (lg_entries (lg_from a F)) \<subseteq> set (lg_entries F)"
  using assms by (simp_all add: lg_from_def lg_last_def lg_at_def set_drop_subset)

lemma log_wf_from:
  assumes "log_wf F" "lg_index F \<le> unat (as_TruncatedIndex a)" "unat (as_TruncatedIndex a) \<le> lg_last F"
  shows "log_wf (lg_from a F)"
  using assms lg_from_props(1) [OF assms(2,3)]
    numbered_drop [of "Suc (lg_index F)" "lg_entries F" "unat (as_TruncatedIndex a) - lg_index F"]
  by (simp add: log_wf_def) (simp add: lg_from_def)

lemma cache_repr_all:
  assumes "log_wf F" "lg_entries F \<noteq> []"
  shows "cache_repr (lg_entries F) F"
proof -
  have num: "numbered (Suc (lg_index F)) (lg_entries F)" using assms(1) by (simp add: log_wf_def)
  have "lg_at F (unat (en_Index (lg_entries F ! i))) = lg_entries F ! i" if "i < length (lg_entries F)" for i
    using numbered_nth [OF num that] by (simp add: lg_at_def)
  then show ?thesis
    using num numbered_hd [OF num assms(2)] numbered_last [OF num assms(2)] assms(2)
    by (auto simp: cache_repr_def lg_last_def in_set_conv_nth)
qed

lemma cache_repr_from:
  assumes "cache_repr es F" "lg_index F \<le> unat (as_TruncatedIndex a)" "unat (as_TruncatedIndex a) \<le> lg_last F"
  shows "cache_repr es (lg_from a F)"
  using assms lg_from_props [OF assms(2,3)] by (simp add: cache_repr_def) (simp add: lg_from_def)

lemma Uint64_marshalApplyState [simp]:
  "Uint64 (take 8 (marshalApplyState a)) = as_AppliedIndex a"
  "Uint64 (take 8 (drop 8 (marshalApplyState a))) = as_TruncatedIndex a"
  "Uint64 (take 8 (drop 16 (marshalApplyState a))) = as_TruncatedTerm a"
  "Uint64 (drop 16 (marshalApplyState a)) = as_TruncatedTerm a"
  "length (marshalApplyState a) = 24"
  by (simp_all add: marshalApplyState_def)

definition hardState_stored :: "raftpb \<Rightarrow> store \<Rightarrow> u64 \<Rightarrow> HardState \<Rightarrow> bool" where
  "hardState_stored pb eng rid hs \<longleftrightarrow>
     (\<exists>d. cf_get (eng CFRaft) (RaftStateKey rid) = Some d \<and> pb_UnmarshalHardState pb d = Inr hs)"

definition applyState_stored :: "store \<Rightarrow> u64 \<Rightarrow> ApplyState \<Rightarrow> bool" where
  "applyState_stored eng rid a \<longleftrightarrow> cf_get (eng CFRaft) (ApplyStateKey rid) = Some (marshalApplyState a)"

lemma RecoverFromEngine_repr:
  assumes ex: "log_exact pb (ps_engine s) (ps_regionID s) F" and ne: "lg_entries F \<noteq> []"
    and hs: "hardState_stored pb (ps_engine s) (ps_regionID s) hs"
    and a: "applyState_stored (ps_engine s) (ps_regionID s) a"
    and idx: "lg_index F \<le> unat (as_TruncatedIndex a)" "unat (as_TruncatedIndex a) \<le> lg_last F"
  shows "\<exists>s'. RecoverFromEngine pb s = (None, s') \<and> log_repr pb s' (lg_from a F) \<and>
    ps_hardState s' = hs \<and> ps_applyState s' = a \<and> ps_regionID s' = ps_regionID s \<and> ps_engine s' = ps_engine s"
proof -
  let ?es = "lg_entries F"
  let ?cache = "if maxCacheSize < length ?es then drop (length ?es - maxCacheSize) ?es else ?es"
  let ?s = "s\<lparr>ps_hardState := hs, ps_persistedLastIndex := maxIndex ?es, ps_entries := ?cache, ps_applyState := a\<rparr>"
  have wf: "log_wf F" and num: "numbered (Suc (lg_index F)) ?es"
    using ex by (auto simp: log_exact_def log_wf_def)
  have mx: "maxIndex ?es = en_Index (last ?es)" using maxIndex_numbered [OF num _ ne] by simp
  have pos: "0 < maxIndex ?es" unfolding mx word_less_nat_alt numbered_last [OF num ne] using ne by simp
  have cache: "cache_repr ?cache F" "?cache \<noteq> []"
    using cache_repr_all [OF wf ne] cache_repr_drop [of ?es F] ne by (auto simp: maxCacheSize_def)
  have "log_stored pb (ps_engine s) (ps_regionID s) (lg_from a F)"
    using ex lg_from_props(3) [OF idx] unfolding log_exact_def log_stored_def by blast
  then have "log_repr pb ?s (lg_from a F)"
    using log_wf_from [OF wf idx] cache_repr_from [OF cache(1) idx] cache(2)
    by (simp add: log_repr_def) (simp add: lg_from_def)
  moreover have "RecoverFromEngine pb s = (None, ?s)"
    using hs a recover_exact [OF ex] pos
    by (auto simp: RecoverFromEngine_def recoverHardState_def recoverEntries_def recoverApplyState_def eng_get_def
        hardState_stored_def applyState_stored_def)
  ultimately show ?thesis by simp
qed

subsection \<open>What a restart finds after a save\<close>

definition lg_overlay :: "Entry list \<Rightarrow> rlog \<Rightarrow> rlog" where
  "lg_overlay new L =
     (if new = [] then L
      else
        let k = unat (en_Index (hd new)) - Suc (lg_index L) in
        L\<lparr>lg_entries := take k (lg_entries L) @ new @ drop (k + length new) (lg_entries L)\<rparr>)"

lemma lg_overlay_append:
  assumes "lg_appendable new L"
  shows "lg_overlay new L = lg_append new L \<longleftrightarrow> lg_last L \<le> lg_last (lg_append new L)"
proof (cases "new = []")
  case False
  let ?k = "unat (en_Index (hd new)) - Suc (lg_index L)"
  have k: "lg_index L < unat (en_Index (hd new))" "?k \<le> length (lg_entries L)"
    using assms False by (auto simp: lg_appendable_def lg_last_def)
  have "lg_overlay new L = lg_append new L \<longleftrightarrow> drop (?k + length new) (lg_entries L) = []"
    using False by (cases L) (simp add: lg_overlay_def lg_append_def Let_def)
  also have "\<dots> \<longleftrightarrow> length (lg_entries L) \<le> ?k + length new" by simp
  also have "\<dots> \<longleftrightarrow> Suc (lg_last L) \<le> unat (en_Index (hd new)) + length new" using k by (auto simp: lg_last_def)
  finally show ?thesis unfolding lg_append_props(3) [OF assms False, symmetric] by simp
qed (simp add: lg_overlay_def lg_append_def)

lemma lg_overlay_parts:
  assumes "log_wf F" "lg_appendable new F" "new \<noteq> []"
  defines "k \<equiv> unat (en_Index (hd new)) - Suc (lg_index F)"
  shows "k \<le> length (lg_entries F)" "Suc (lg_index F) + k = unat (en_Index (hd new))"
    "numbered (Suc (lg_index F)) (lg_entries F)" "numbered (unat (en_Index (hd new))) new"
    "lg_entries (lg_overlay new F) = take k (lg_entries F) @ new @ drop (k + length new) (lg_entries F)"
    "lg_index (lg_overlay new F) = lg_index F"
  using assms by (auto simp: lg_appendable_def log_wf_def lg_overlay_def lg_last_def Let_def)

lemma log_wf_overlay:
  assumes "log_wf F" "lg_appendable new F"
  shows "log_wf (lg_overlay new F)"
proof (cases "new = []")
  case False
  let ?f = "unat (en_Index (hd new))" let ?k = "?f - Suc (lg_index F)" let ?E = "lg_entries F"
  note p = lg_overlay_parts [OF assms False]
  have "numbered (Suc (lg_index F) + (?k + length new)) (drop (?k + length new) ?E)"
    using p(3) by (rule numbered_drop)
  then have "numbered (Suc (lg_index F)) (lg_entries (lg_overlay new F))"
    using p(1-4) unfolding p(5) numbered_append by (simp add: numbered_take min_absorb2 ac_simps)
  moreover have "Suc (?f + length new - 1) < 2 ^ 64" "Suc (lg_last F) < 2 ^ 64"
    using assms numbered_last [OF p(4) False] False by (auto simp: lg_appendable_def log_wf_def)
  then have "Suc (lg_last (lg_overlay new F)) < 2 ^ 64"
    using p(1,2) unfolding lg_last_def p(5,6) by (auto simp: min_absorb2)
  ultimately show ?thesis unfolding log_wf_def p(6) by simp
qed (use assms in \<open>simp add: lg_overlay_def\<close>)

lemma overlay_kept_index:
  assumes "log_wf F" "lg_appendable new F" "new \<noteq> []"
    "e \<in> set (take (unat (en_Index (hd new)) - Suc (lg_index F)) (lg_entries F)) \<or>
     e \<in> set (drop (unat (en_Index (hd new)) - Suc (lg_index F) + length new) (lg_entries F))"
  shows "e \<in> set (lg_entries F)" "RaftLogKey rid (en_Index e) \<notin> (\<lambda>e. RaftLogKey rid (en_Index e)) ` set new"
proof -
  let ?f = "unat (en_Index (hd new))" let ?k = "?f - Suc (lg_index F)" let ?E = "lg_entries F"
  note p = lg_overlay_parts [OF assms(1-3)]
  obtain i where i: "i < length ?E" "e = ?E ! i" "i < ?k \<or> ?k + length new \<le> i"
    using assms(4)
  proof
    assume "e \<in> set (take ?k ?E)"
    then obtain j where "j < ?k" "j < length ?E" "e = ?E ! j" by (auto simp: in_set_conv_nth)
    then show thesis using that by simp
  next
    assume "e \<in> set (drop (?k + length new) ?E)"
    then obtain j where "j < length ?E - (?k + length new)" "e = ?E ! (?k + length new + j)"
      by (auto simp: in_set_conv_nth)
    then show thesis using that [of "?k + length new + j"] by simp
  qed
  then show "e \<in> set ?E" by simp
  have "unat (en_Index e) < ?f \<or> ?f + length new \<le> unat (en_Index e)"
    using i p(2) numbered_nth [OF p(3) i(1)] by auto
  then show "RaftLogKey rid (en_Index e) \<notin> (\<lambda>e. RaftLogKey rid (en_Index e)) ` set new"
    using p(4) by (auto simp: numbered_def in_set_conv_nth)
qed

lemma overlay_replaced:
  assumes "log_wf F" "lg_appendable new F" "new \<noteq> []" "e \<in> set (lg_entries F)"
    and new: "RaftLogKey rid (en_Index e) \<notin> (\<lambda>e. RaftLogKey rid (en_Index e)) ` set new"
  shows "e \<in> set (take (unat (en_Index (hd new)) - Suc (lg_index F)) (lg_entries F)) \<or>
     e \<in> set (drop (unat (en_Index (hd new)) - Suc (lg_index F) + length new) (lg_entries F))"
proof -
  let ?k = "unat (en_Index (hd new)) - Suc (lg_index F)"
  note p = lg_overlay_parts [OF assms(1-3)]
  obtain i where i: "i < length (lg_entries F)" "e = lg_entries F ! i" using assms(4) by (auto simp: in_set_conv_nth)
  have "i < ?k \<or> ?k + length new \<le> i"
  proof (rule ccontr)
    assume "\<not> (i < ?k \<or> ?k + length new \<le> i)"
    then have j: "i - ?k < length new" "?k \<le> i" by auto
    have "unat (en_Index (new ! (i - ?k))) = unat (en_Index e)"
      using numbered_nth [OF p(4) j(1)] numbered_nth [OF p(3) i(1)] p(2) i(2) j(2) by simp
    then have "en_Index e = en_Index (new ! (i - ?k))" by (simp add: word_unat_eq_iff)
    then show False using new j(1) by auto
  qed
  then show ?thesis
  proof
    assume "i < ?k"
    then show ?thesis using i by (auto simp: in_set_conv_nth)
  next
    assume le: "?k + length new \<le> i"
    then have "drop (?k + length new) (lg_entries F) ! (i - (?k + length new)) = e" using i by simp
    then show ?thesis
      using i le nth_mem [of "i - (?k + length new)" "drop (?k + length new) (lg_entries F)"] by auto
  qed
qed

lemma log_exact_overlay:
  assumes ok: "raftpb_ok pb" and ex: "log_exact pb eng rid F" and app: "lg_appendable new F"
    and ops: "entryOps pb rid new = Inr ops"
  shows "log_exact pb (wb_commit ops eng) rid (lg_overlay new F)"
proof (cases "new = []")
  case True
  then show ?thesis using ex ops by (simp add: lg_overlay_def)
next
  case False
  let ?k = "unat (en_Index (hd new)) - Suc (lg_index F)"
  have wf: "log_wf F" and srt: "cf_sorted (eng CFRaft)" and st: "log_stored pb eng rid F"
    using ex by (auto simp: log_exact_def log_stored_def)
  note p = lg_overlay_parts [OF wf app False] and kept = overlay_kept_index [OF wf app False]
  note same = entryOps_other [of eng, OF srt ops]
    and stored = entryOps_stored [of pb eng, OF ok srt ops numbered_distinct [OF p(4)]]
  have set: "set (lg_entries (lg_overlay new F)) =
      set (take ?k (lg_entries F)) \<union> set new \<union> set (drop (?k + length new) (lg_entries F))"
    unfolding p(5) by auto
  have "\<exists>d. cf_get (wb_commit ops eng CFRaft) (RaftLogKey rid (en_Index e)) = Some d \<and> pb_UnmarshalEntry pb d = Inr e"
    if "e \<in> set (lg_entries (lg_overlay new F))" for e
    using that kept(1) [of e] kept(2) [of e rid] same [of "RaftLogKey rid (en_Index e)"] stored [of e] st
    unfolding set log_stored_def by auto
  then have "log_stored pb (wb_commit ops eng) rid (lg_overlay new F)"
    using wb_commit_sorted [of eng, OF srt] by (simp add: log_stored_def)
  moreover have "k \<in> (\<lambda>e. RaftLogKey rid (en_Index e)) ` set (lg_entries (lg_overlay new F))"
    if k: "in_key_range (RaftLogKeyRange rid) k" "cf_get (wb_commit ops eng CFRaft) k \<noteq> None" for k
  proof (cases "k \<in> (\<lambda>e. RaftLogKey rid (en_Index e)) ` set new")
    case True
    then show ?thesis unfolding set by auto
  next
    case new: False
    then obtain e where e: "e \<in> set (lg_entries F)" "k = RaftLogKey rid (en_Index e)"
      using ex k same [OF new] unfolding log_exact_def by auto
    have "e \<in> set (take ?k (lg_entries F)) \<or> e \<in> set (drop (?k + length new) (lg_entries F))"
      using overlay_replaced [OF wf app False e(1)] new e(2) by simp
    then show ?thesis unfolding set e(2) by auto
  qed
  ultimately show ?thesis using log_wf_overlay [OF wf app] by (auto simp: log_exact_def)
qed

lemma lg_from_overlay:
  assumes idx: "lg_index F \<le> unat (as_TruncatedIndex a)" "unat (as_TruncatedIndex a) \<le> lg_last F"
    and app: "lg_appendable new (lg_from a F)"
  shows "lg_from a (lg_overlay new F) = lg_overlay new (lg_from a F)" "lg_appendable new F"
    "unat (as_TruncatedIndex a) \<le> lg_last (lg_overlay new F)"
proof -
  let ?f = "unat (en_Index (hd new))" let ?t = "unat (as_TruncatedIndex a)" let ?d = "?t - lg_index F"
  have l: "lg_last (lg_from a F) = lg_last F" "lg_index (lg_from a F) = ?t"
    using lg_from_props(1) [OF idx] by (simp_all add: lg_from_def)
  show "lg_appendable new F" using app idx l by (auto simp: lg_appendable_def)
  show "?t \<le> lg_last (lg_overlay new F)"
    using app idx l by (auto simp: lg_appendable_def lg_overlay_def lg_last_def Let_def)
  show "lg_from a (lg_overlay new F) = lg_overlay new (lg_from a F)"
  proof (cases "new = []")
    case False
    then have f: "?t < ?f" "?f \<le> Suc (lg_last F)" using app l by (auto simp: lg_appendable_def)
    then have k: "?f - Suc (lg_index F) = ?d + (?f - Suc ?t)" "?d \<le> length (lg_entries F)"
      using idx by (auto simp: lg_last_def)
    have "drop ?d (take (?f - Suc (lg_index F)) (lg_entries F) @ new @ drop (?f - Suc (lg_index F) + length new) (lg_entries F)) =
        take (?f - Suc ?t) (drop ?d (lg_entries F)) @ new @ drop (?f - Suc ?t + length new) (drop ?d (lg_entries F))"
      using k(2) unfolding k(1) by (simp add: take_drop ac_simps)
    then show ?thesis using False by (simp add: lg_overlay_def lg_from_def Let_def)
  qed (simp add: lg_overlay_def)
qed

lemma hardStateOps_other:
  assumes "hardStateOps pb rd rid = Inr hs" "cf_sorted (eng CFRaft)" "k \<noteq> RaftStateKey rid"
  shows "cf_get (wb_commit hs eng CFRaft) k = cf_get (eng CFRaft) k"
  using assms by (auto simp: hardStateOps_def res_bind_def cf_simps split: if_splits sum.splits)

lemma hardStateOps_exact:
  assumes "hardStateOps pb rd rid = Inr hs" "log_exact pb eng rid F"
  shows "log_exact pb (wb_commit hs eng) rid F"
proof -
  have "k \<noteq> RaftStateKey rid" if "in_key_range (RaftLogKeyRange rid) k" for k
    using that not_in_RaftLogKeyRange(1) by metis
  moreover have "cf_sorted (eng CFRaft)" using assms(2) by (simp add: log_exact_def log_stored_def)
  ultimately show ?thesis
    using assms(2) hardStateOps_stored [OF assms(1)] hardStateOps_other [OF assms(1)]
    unfolding log_exact_def by auto
qed

lemma hardState_after_ops:
  assumes "raftpb_ok pb" "cf_sorted (eng CFRaft)" "hardStateOps pb rd rid = Inr hs" "entryOps pb rid new = Inr ops"
    "\<not> IsEmptyHardState (rd_HardState rd)"
  shows "hardState_stored pb (wb_commit ops (wb_commit hs eng)) rid (rd_HardState rd)"
proof -
  obtain d where d: "pb_MarshalHardState pb (rd_HardState rd) = Inr d" "pb_UnmarshalHardState pb d = Inr (rd_HardState rd)"
    using assms(1) unfolding raftpb_ok_def by metis
  then have hs: "hs = [WbPut CFRaft (RaftStateKey rid) d]" using assms(3,5) by (simp add: hardStateOps_def)
  have "cf_get (wb_commit ops (wb_commit hs eng) CFRaft) (RaftStateKey rid) = cf_get (wb_commit hs eng CFRaft) (RaftStateKey rid)"
    by (rule entryOps_other [of "wb_commit hs eng", OF wb_commit_sorted [of eng, OF assms(2)] assms(4)]) auto
  then show ?thesis using d hs assms(2) by (simp add: hardState_stored_def cf_simps)
qed

lemma restart_after_save:
  assumes ok: "raftpb_ok pb" and rep: "log_repr pb s L"
    and ex: "log_exact pb (ps_engine s) (ps_regionID s) F" "L = lg_from (ps_applyState s) F"
      "lg_index F \<le> lg_index L" "lg_index L \<le> lg_last F"
    and a: "applyState_stored (ps_engine s) (ps_regionID s) (ps_applyState s)"
    and rd: "lg_appendable (rd_Entries rd) L" "rd_Entries rd \<noteq> []" "\<not> IsEmptyHardState (rd_HardState rd)"
  shows "\<exists>s' s''. SaveReady pb rd s = (None, s') \<and>
    RecoverFromEngine pb (NewPeerStorage (ps_regionID s) (ps_engine s')) = (None, s'') \<and>
    log_repr pb s' (lg_append (rd_Entries rd) L) \<and> log_repr pb s'' (lg_overlay (rd_Entries rd) L) \<and>
    ps_hardState s'' = rd_HardState rd \<and> ps_applyState s'' = ps_applyState s"
proof -
  let ?rid = "ps_regionID s" let ?a = "ps_applyState s" let ?new = "rd_Entries rd"
  obtain hs ops where o: "hardStateOps pb rd ?rid = Inr hs" "entryOps pb ?rid ?new = Inr ops"
    "SaveReady pb rd s = (None, cacheEntries ?new
       ((takeHardState rd s)\<lparr>ps_engine := wb_commit ops (wb_commit hs (ps_engine s))\<rparr>))"
    using SaveReady_ops [OF ok] .
  let ?g = "wb_commit hs (ps_engine s)" let ?e = "wb_commit ops ?g"
  have srt: "cf_sorted (ps_engine s CFRaft)" using ex(1) by (simp add: log_exact_def log_stored_def)
  have t: "unat (as_TruncatedIndex ?a) = lg_index L" using rep by (simp add: log_repr_def)
  note idx = ex(3,4) [folded t]
  note ov = lg_from_overlay [OF idx rd(1) [unfolded ex(2)]]
  have exact: "log_exact pb ?e ?rid (lg_overlay ?new F)"
    using log_exact_overlay [OF ok hardStateOps_exact [OF o(1) ex(1)] ov(2) o(2)] .
  have "ApplyStateKey ?rid \<notin> (\<lambda>e. RaftLogKey ?rid (en_Index e)) ` set ?new" by auto
  then have as: "applyState_stored ?e ?rid ?a"
    using a entryOps_other [of ?g, OF wb_commit_sorted [of "ps_engine s", OF srt] o(2), of "ApplyStateKey ?rid"]
      hardStateOps_other [OF o(1), of "ps_engine s"] srt by (auto simp: applyState_stored_def)
  have i: "lg_index (lg_overlay ?new F) = lg_index F" "lg_entries (lg_overlay ?new F) \<noteq> []"
    using rd(2) by (simp_all add: lg_overlay_def Let_def)
  obtain s'' where "RecoverFromEngine pb (NewPeerStorage ?rid ?e) = (None, s'')"
    "log_repr pb s'' (lg_from ?a (lg_overlay ?new F))" "ps_hardState s'' = rd_HardState rd" "ps_applyState s'' = ?a"
    using RecoverFromEngine_repr [of pb "NewPeerStorage ?rid ?e" "lg_overlay ?new F" "rd_HardState rd" ?a]
      exact as i idx ov(3) hardState_after_ops [of pb "ps_engine s", OF ok srt o(1,2) rd(3)] by (auto simp: NewPeerStorage_def)
  then show ?thesis using o(3) SaveReady_repr [OF ok rep rd(1)] ov(1) ex(2) by auto
qed

lemma lg_last_overlay:
  assumes "lg_appendable new L"
  shows "lg_last (lg_overlay new L) = max (lg_last L) (lg_last (lg_append new L))"
proof (cases "new = []")
  case False
  then have "lg_index L < unat (en_Index (hd new))" "unat (en_Index (hd new)) \<le> Suc (lg_last L)"
    using assms by (auto simp: lg_appendable_def)
  then show ?thesis using False by (auto simp: lg_overlay_def lg_append_def lg_last_def Let_def)
qed (simp add: lg_overlay_def lg_append_def)

subsection \<open>The interface of a raft storage\<close>

text \<open>
  What the raft state machine relies on: the storage represents a log, reads return its
  entries and terms, and saving a batch of entries truncates and extends it. The region and
  the PD storage both provide it.
\<close>

locale raft_storage =
  fixes repr :: "'s \<Rightarrow> rlog \<Rightarrow> bool"
    and entries :: "u64 \<Rightarrow> u64 \<Rightarrow> u64 \<Rightarrow> 's \<Rightarrow> raft_error + Entry list"
    and term_of :: "u64 \<Rightarrow> 's \<Rightarrow> raft_error + u64"
    and first_index :: "'s \<Rightarrow> u64" and last_index :: "'s \<Rightarrow> u64"
    and save :: "Ready \<Rightarrow> 's \<Rightarrow> raft_error option \<times> 's"
  assumes repr_wf: "repr s L \<Longrightarrow> log_wf L"
    and entries_all: "repr s L \<Longrightarrow> entries lo hi 0 s = lg_Entries L lo hi"
    and term_repr: "repr s L \<Longrightarrow> term_of i s = lg_Term L i"
    and first_repr: "repr s L \<Longrightarrow> unat (first_index s) = Suc (lg_index L)"
    and last_repr: "repr s L \<Longrightarrow> unat (last_index s) = lg_last L"
    and save_repr: "repr s L \<Longrightarrow> lg_appendable (rd_Entries rd) L \<Longrightarrow>
      \<exists>s'. save rd s = (None, s') \<and> repr s' (lg_append (rd_Entries rd) L)"
begin

lemma map_lg_at: "lg_index L < a \<Longrightarrow> b \<le> Suc (lg_last L) \<Longrightarrow>
  map (lg_at L) [a..<b] = take (b - a) (drop (a - Suc (lg_index L)) (lg_entries L))"
  by (rule nth_equalityI) (auto simp: lg_at_def lg_last_def)

lemma read_all:
  assumes "repr s L"
  shows "entries (first_index s) (last_index s + 1) 0 s = Inr (lg_entries L)"
proof -
  have l: "unat (last_index s + 1) = Suc (lg_last L)"
    using last_repr [OF assms] repr_wf [OF assms] by (subst unat_Suc_word) (simp_all add: log_wf_def)
  have "lg_Entries L (first_index s) (last_index s + 1) = Inr (map (lg_at L) [Suc (lg_index L)..<Suc (lg_last L)])"
    using l first_repr [OF assms] by (simp add: lg_Entries_def word_less_nat_alt lg_last_def)
  then show ?thesis by (simp add: entries_all [OF assms] map_lg_at lg_last_def del: upt_Suc)
qed

lemma read_saved:
  assumes "repr s L" "lg_appendable (rd_Entries rd) L" "rd_Entries rd \<noteq> []" "save rd s = (err, s')"
  shows "err = None" "entries (en_Index (hd (rd_Entries rd))) (last_index s' + 1) 0 s' = Inr (rd_Entries rd)"
    "last_index s' = en_Index (last (rd_Entries rd))"
proof -
  let ?new = "rd_Entries rd" let ?L = "lg_append ?new L" let ?f = "unat (en_Index (hd ?new))"
  have r: "repr s' ?L" and err: "err = None" using save_repr [OF assms(1,2)] assms(4) by auto
  show "err = None" by (fact err)
  note p = lg_append_props [OF assms(2,3)]
  have num: "numbered ?f ?new" and f: "lg_index L < ?f" using assms(2,3) by (auto simp: lg_appendable_def)
  have "unat (en_Index (last ?new)) = lg_last ?L" using numbered_last [OF num assms(3)] p(3) by simp
  then show "last_index s' = en_Index (last ?new)" using last_repr [OF r] by (simp add: word_unat_eq_iff)
  have l: "unat (last_index s' + 1) = Suc (lg_last ?L)"
    using last_repr [OF r] repr_wf [OF r] by (subst unat_Suc_word) (simp_all add: log_wf_def)
  have "map (lg_at ?L) [?f..<Suc (lg_last ?L)] = ?new"
  proof (rule nth_equalityI)
    show "length (map (lg_at ?L) [?f..<Suc (lg_last ?L)]) = length ?new" unfolding p(3) by simp
    show "map (lg_at ?L) [?f..<Suc (lg_last ?L)] ! i = ?new ! i"
      if "i < length (map (lg_at ?L) [?f..<Suc (lg_last ?L)])" for i
      using that p(4) [of "?f + i"] f p(3) by (simp del: upt_Suc)
  qed
  then show "entries (en_Index (hd ?new)) (last_index s' + 1) 0 s' = Inr ?new"
    unfolding entries_all [OF r] using l p(1,3) f by (simp add: lg_Entries_def word_less_nat_alt del: upt_Suc)
qed

lemma term_agrees:
  assumes "repr s L" "entries lo hi 0 s = Inr es" "e \<in> set es"
  shows "term_of (en_Index e) s = Inr (en_Term e)"
proof -
  have g: "unat lo > lg_index L" "unat hi \<le> Suc (lg_last L)" "es = map (lg_at L) [unat lo..<unat hi]"
    using assms(2) unfolding entries_all [OF assms(1)] by (auto simp: lg_Entries_def split: if_splits)
  then obtain i where i: "unat lo \<le> i" "i < unat hi" "e = lg_at L i" using assms(3) by auto
  then have "unat (en_Index e) = i" using lg_at_index [OF repr_wf [OF assms(1)], of i] g by simp
  then show ?thesis unfolding term_repr [OF assms(1)] using i g by (simp add: lg_Term_def)
qed

text \<open>Saving leaves the log below the saved entries as it was.\<close>

lemma prefix_kept:
  assumes "repr s L" "lg_appendable (rd_Entries rd) L" "rd_Entries rd \<noteq> []" "save rd s = (err, s')"
    "unat i < unat (en_Index (hd (rd_Entries rd)))"
  shows "term_of i s' = term_of i s"
proof -
  let ?new = "rd_Entries rd"
  have r: "repr s' (lg_append ?new L)" using save_repr [OF assms(1,2)] assms(4) by auto
  have "unat (en_Index (hd ?new)) \<le> Suc (lg_last L)" using assms(2,3) by (auto simp: lg_appendable_def)
  moreover have "unat (en_Index (hd ?new)) \<le> lg_last (lg_append ?new L)"
    using lg_append_props(3) [OF assms(2,3)] assms(3) by (cases ?new) auto
  ultimately show ?thesis
    unfolding term_repr [OF r] term_repr [OF assms(1)]
    using lg_append_props [OF assms(2,3)] assms(5) by (simp add: lg_Term_def)
qed

text \<open>A sequence of saves, as the raft state machine issues them.\<close>

primrec saves :: "Ready list \<Rightarrow> 's \<Rightarrow> raft_error option \<times> 's" where
  "saves [] s = (None, s)"
| "saves (rd # rds) s = (case save rd s of (Some e, s') \<Rightarrow> (Some e, s') | (None, s') \<Rightarrow> saves rds s')"

primrec all_appendable :: "Ready list \<Rightarrow> rlog \<Rightarrow> bool" where
  "all_appendable [] L = True"
| "all_appendable (rd # rds) L \<longleftrightarrow>
     lg_appendable (rd_Entries rd) L \<and> all_appendable rds (lg_append (rd_Entries rd) L)"

lemma saves_repr:
  "repr s L \<Longrightarrow> all_appendable rds L \<Longrightarrow>
   \<exists>s'. saves rds s = (None, s') \<and> repr s' (fold (\<lambda>rd. lg_append (rd_Entries rd)) rds L)"
proof (induction rds arbitrary: s L)
  case (Cons rd rds)
  then show ?case using save_repr [of s L rd] by fastforce
qed simp

end

lemma limitSize_zero [simp]: "limitSize pb es 0 = es"
  by (simp add: limitSize_def)

interpretation peer_log: raft_storage
  "\<lambda>s L. raftpb_ok pb \<and> log_repr pb s L" "Storage_Entries pb" "Storage_Term pb" FirstIndex LastIndex "SaveReady pb"
  for pb
proof unfold_locales
  fix s L assume r: "raftpb_ok pb \<and> log_repr pb s L"
  then have "log_repr pb s L" by simp
  note b = log_repr_bounds [OF this]
  show "log_wf L" using r by (simp add: log_repr_def)
  show "unat (FirstIndex s) = Suc (lg_index L)" "unat (LastIndex s) = lg_last L"
    using b by (simp_all add: FirstIndex_def LastIndex_def)
  show "Storage_Term pb i s = lg_Term L i" for i using r by (simp add: Storage_Term_repr)
  show "Storage_Entries pb lo hi 0 s = lg_Entries L lo hi" for lo hi
    using Storage_Entries_repr [OF \<open>log_repr pb s L\<close>, of lo hi 0] by (cases "lg_Entries L lo hi") simp_all
  show "\<exists>s'. SaveReady pb rd s = (None, s') \<and> raftpb_ok pb \<and> log_repr pb s' (lg_append (rd_Entries rd) L)"
    if "lg_appendable (rd_Entries rd) L" for rd
    using SaveReady_repr [of pb s L rd] r that by simp
qed

subsection \<open>A marshalling that satisfies the assumptions, and a fresh storage\<close>

definition sample_raftpb :: raftpb where
  "sample_raftpb =
     \<lparr>pb_MarshalEntry = (\<lambda>e. Inr ((case en_Type e of EntryNormal \<Rightarrow> 0 | EntryConfChange \<Rightarrow> 1 | EntryConfChangeV2 \<Rightarrow> 2) #
        PutUint64 (en_Term e) @ PutUint64 (en_Index e) @ en_Data e)),
      pb_UnmarshalEntry = (\<lambda>d. if length d < 17 then Inl ErrInsufficientData
        else Inr \<lparr>en_Type = (if hd d = 0 then EntryNormal else if hd d = 1 then EntryConfChange else EntryConfChangeV2),
          en_Term = Uint64 (take 8 (drop 1 d)), en_Index = Uint64 (take 8 (drop 9 d)), en_Data = drop 17 d\<rparr>),
      pb_EntrySize = (\<lambda>e. of_nat (length (en_Data e)) + 17),
      pb_MarshalHardState = (\<lambda>hs. Inr (PutUint64 (hs_Term hs) @ PutUint64 (hs_Vote hs) @ PutUint64 (hs_Commit hs))),
      pb_UnmarshalHardState = (\<lambda>d. if length d < 24 then Inl ErrInsufficientData
        else Inr \<lparr>hs_Term = Uint64 (take 8 d), hs_Vote = Uint64 (take 8 (drop 8 d)), hs_Commit = Uint64 (take 8 (drop 16 d))\<rparr>)\<rparr>"

lemma sample_raftpb_ok: "raftpb_ok sample_raftpb"
  by (simp add: raftpb_ok_def sample_raftpb_def split: EntryType.split)

text \<open>The storage a bootstrapped peer starts with: \<^verbatim>\<open>NewPeer\<close> sets an all-zero apply state and the dummy
  entry.\<close>

definition bootStorage :: "u64 \<Rightarrow> store \<Rightarrow> PeerStorage" where
  "bootStorage rid eng =
     SetDummyEntry (SetPersistedLastIndex 0 (SetApplyState
       \<lparr>as_AppliedIndex = 0, as_TruncatedIndex = 0, as_TruncatedTerm = 0\<rparr> (NewPeerStorage rid eng)))"

definition emptyLog :: rlog where
  "emptyLog = \<lparr>lg_index = 0, lg_term = 0, lg_entries = []\<rparr>"

lemma bootStorage_repr: "cf_sorted (eng CFRaft) \<Longrightarrow> log_repr pb (bootStorage rid eng) emptyLog"
  by (simp add: log_repr_def bootStorage_def emptyLog_def SetDummyEntry_def SetPersistedLastIndex_def SetApplyState_def
      NewPeerStorage_def log_wf_def numbered_def lg_last_def cache_repr_def dummyEntry_def log_stored_def)

definition sampleEntry :: "nat \<Rightarrow> Entry" where
  "sampleEntry i = \<lparr>en_Type = EntryNormal, en_Term = 1, en_Index = of_nat i, en_Data = [7]\<rparr>"

definition sampleReady :: Ready where
  "sampleReady = \<lparr>rd_HardState = \<lparr>hs_Term = 1, hs_Vote = 1, hs_Commit = 1\<rparr>, rd_Entries = [sampleEntry 1, sampleEntry 2]\<rparr>"

definition sampleEngine :: store where
  "sampleEngine = (\<lambda>_. [])(CFRaft := [(ApplyStateKey 7,
     marshalApplyState \<lparr>as_AppliedIndex = 0, as_TruncatedIndex = 0, as_TruncatedTerm = 0\<rparr>)])"

lemma sampleReady_appendable: "lg_appendable (rd_Entries sampleReady) emptyLog" "rd_Entries sampleReady \<noteq> []"
  "\<not> IsEmptyHardState (rd_HardState sampleReady)"
  by (auto simp: lg_appendable_def sampleReady_def sampleEntry_def emptyLog_def numbered_def lg_last_def less_Suc_eq
      IsEmptyHardState_def HardState_zero_def)

lemma sampleEngine_stored:
  "cf_sorted (sampleEngine CFRaft)" "log_exact sample_raftpb sampleEngine 7 emptyLog"
  "applyState_stored sampleEngine 7 (ps_applyState (bootStorage 7 sampleEngine))"
proof -
  show s: "cf_sorted (sampleEngine CFRaft)" by (simp add: sampleEngine_def cf_sorted_def)
  have "cf_get (sampleEngine CFRaft) k = None" if "in_key_range (RaftLogKeyRange 7) k" for k
    using that not_in_RaftLogKeyRange(2) [of 7 7] by (auto simp: sampleEngine_def cf_get_def)
  then show "log_exact sample_raftpb sampleEngine 7 emptyLog"
    using s by (auto simp: log_exact_def log_wf_def emptyLog_def numbered_def lg_last_def log_stored_def)
  show "applyState_stored sampleEngine 7 (ps_applyState (bootStorage 7 sampleEngine))"
    by (simp add: applyState_stored_def sampleEngine_def cf_get_def bootStorage_def SetDummyEntry_def
        SetPersistedLastIndex_def SetApplyState_def)
qed

lemma bootStorage_fields [simp]:
  "ps_regionID (bootStorage rid eng) = rid" "ps_engine (bootStorage rid eng) = eng"
  "ps_applyState (bootStorage rid eng) = \<lparr>as_AppliedIndex = 0, as_TruncatedIndex = 0, as_TruncatedTerm = 0\<rparr>"
  by (simp_all add: bootStorage_def SetDummyEntry_def SetPersistedLastIndex_def SetApplyState_def NewPeerStorage_def)

subsection \<open>Removing a region\<close>

lemma less_snoc_zero: "(k :: bytes) < key @ [0] \<longleftrightarrow> k \<le> key"
proof (induction key arbitrary: k)
  case Nil
  then show ?case by (cases k) (auto simp: list_less_def list_le_def)
next
  case (Cons a key)
  then show ?case by (cases k) (auto simp: le_less)
qed

lemma single_key_range: "key \<le> k \<and> k < nextKey key \<longleftrightarrow> k = (key :: bytes)"
  by (auto simp: nextKey_def less_snoc_zero)

lemma CleanupRegionData_removes:
  "\<exists>eng'. CleanupRegionData eng rid = Inr eng' \<and>
     (\<forall>k. cf_get (eng' CFRaft) k =
        (if in_key_range (RaftLogKeyRange rid) k \<or> k \<in> {RaftStateKey rid, ApplyStateKey rid, RegionStateKey rid}
         then None else cf_get (eng CFRaft) k)) \<and>
     (\<forall>c. c \<noteq> CFRaft \<longrightarrow> eng' c = eng c)"
  using single_key_range
  by (auto simp: CleanupRegionData_def eng_delete_range_def RaftLogKeyRange_def in_key_range_def cf_simps split: if_splits)

section \<open>Properties of the raft log\<close>

text \<open>C9: The storage of a region implements a raft log. Whatever part of the log is in the cache
  and whatever part only in the engine, \<^verbatim>\<open>Entries\<close> returns the entries of the abstract log in the requested range,
  cut to the size limit, or the error that says the range is malformed, compacted or not there yet; \<^verbatim>\<open>Term\<close> returns the
  term of the entry, also at the truncation point; the first and last index are those of the log.\<close>

theorem raft_log_reads:
  assumes "log_repr pb s L"
  shows "Storage_Entries pb lo hi maxSize s = res_bind (lg_Entries L lo hi) (\<lambda>es. Inr (limitSize pb es maxSize)) \<and>
    Storage_Term pb i s = lg_Term L i \<and>
    unat (FirstIndex s) = Suc (lg_index L) \<and> unat (LastIndex s) = lg_last L"
  using Storage_Entries_repr [OF assms] Storage_Term_repr [OF assms] log_repr_bounds [OF assms]
  by (simp add: FirstIndex_def LastIndex_def)

theorem raft_log_reads_witness:
  "Storage_Entries sample_raftpb 1 1 0 (bootStorage 7 sampleEngine) = Inr [] \<and>
   Storage_Term sample_raftpb 0 (bootStorage 7 sampleEngine) = Inr 0"
  using raft_log_reads [OF bootStorage_repr [of sampleEngine sample_raftpb 7, OF sampleEngine_stored(1)], of 1 1 0 0]
  by (simp add: lg_Entries_def lg_Term_def emptyLog_def lg_last_def)

text \<open>C8: Saving a Ready batch appends to the log: entries from the first saved index on are
  replaced by the saved ones, which can be read back, the terms below are unchanged, and the last index is that of
  the last saved entry. This holds through the cache truncation and the cache size limit.\<close>

theorem raft_log_save:
  assumes "raftpb_ok pb" "log_repr pb s L" "lg_appendable (rd_Entries rd) L" "rd_Entries rd \<noteq> []"
  shows "\<exists>s'. SaveReady pb rd s = (None, s') \<and> log_repr pb s' (lg_append (rd_Entries rd) L) \<and>
    LastIndex s' = en_Index (last (rd_Entries rd)) \<and>
    Storage_Entries pb (en_Index (hd (rd_Entries rd))) (LastIndex s' + 1) 0 s' = Inr (rd_Entries rd) \<and>
    (\<forall>i. unat i < unat (en_Index (hd (rd_Entries rd))) \<longrightarrow> Storage_Term pb i s' = Storage_Term pb i s)"
proof -
  have r: "raftpb_ok pb \<and> log_repr pb s L" using assms by simp
  obtain s' where s': "SaveReady pb rd s = (None, s')" "log_repr pb s' (lg_append (rd_Entries rd) L)"
    using SaveReady_repr [OF assms(1-3)] by blast
  then show ?thesis
    using peer_log.read_saved [OF r assms(3,4) s'(1)] peer_log.prefix_kept [OF r assms(3,4) s'(1)] by blast
qed

theorem raft_log_save_witness:
  "\<exists>s'. SaveReady sample_raftpb sampleReady (bootStorage 7 sampleEngine) = (None, s') \<and> LastIndex s' = 2"
  using raft_log_save [OF sample_raftpb_ok bootStorage_repr [of sampleEngine _ 7, OF sampleEngine_stored(1)] sampleReady_appendable(1,2)]
  by (auto simp: sampleReady_def sampleEntry_def)

text \<open>C10: What a restart finds after a save. The hard state is the saved one, the apply
  state the persisted one, and the log is the saved entries laid over the old ones: a conflicting suffix that the save
  replaced by a shorter one comes back behind it. The restarted log is the log before the crash exactly when the save
  reached the end of the old log; otherwise its last index is the old one.\<close>

theorem raft_log_restart:
  assumes "raftpb_ok pb" "log_repr pb s L"
    "log_exact pb (ps_engine s) (ps_regionID s) F" "L = lg_from (ps_applyState s) F"
    "lg_index F \<le> lg_index L" "lg_index L \<le> lg_last F"
    "applyState_stored (ps_engine s) (ps_regionID s) (ps_applyState s)"
    "lg_appendable (rd_Entries rd) L" "rd_Entries rd \<noteq> []" "\<not> IsEmptyHardState (rd_HardState rd)"
  shows "\<exists>s' s''. SaveReady pb rd s = (None, s') \<and>
    RecoverFromEngine pb (NewPeerStorage (ps_regionID s) (ps_engine s')) = (None, s'') \<and>
    log_repr pb s' (lg_append (rd_Entries rd) L) \<and> log_repr pb s'' (lg_overlay (rd_Entries rd) L) \<and>
    ps_hardState s'' = rd_HardState rd \<and> ps_applyState s'' = ps_applyState s \<and>
    (lg_overlay (rd_Entries rd) L = lg_append (rd_Entries rd) L \<longleftrightarrow> lg_last L \<le> unat (LastIndex s')) \<and>
    unat (LastIndex s'') = max (lg_last L) (unat (LastIndex s'))"
proof -
  obtain s' s'' where r: "SaveReady pb rd s = (None, s')"
    "RecoverFromEngine pb (NewPeerStorage (ps_regionID s) (ps_engine s')) = (None, s'')"
    "log_repr pb s' (lg_append (rd_Entries rd) L)" "log_repr pb s'' (lg_overlay (rd_Entries rd) L)"
    "ps_hardState s'' = rd_HardState rd" "ps_applyState s'' = ps_applyState s"
    using restart_after_save [OF assms] by blast
  then show ?thesis
    using log_repr_bounds(2) [OF r(3)] log_repr_bounds(2) [OF r(4)] lg_overlay_append [OF assms(8)]
      lg_last_overlay [OF assms(8)] by (auto simp: LastIndex_def)
qed

theorem raft_log_restart_witness:
  "\<exists>s' s''. SaveReady sample_raftpb sampleReady (bootStorage 7 sampleEngine) = (None, s') \<and>
    RecoverFromEngine sample_raftpb (NewPeerStorage 7 (ps_engine s')) = (None, s'') \<and>
    unat (LastIndex s'') = unat (LastIndex s')"
proof -
  let ?s = "bootStorage 7 sampleEngine"
  have "emptyLog = lg_from (ps_applyState ?s) emptyLog" by (simp add: lg_from_def emptyLog_def)
  then obtain s' s'' where "SaveReady sample_raftpb sampleReady ?s = (None, s')"
    "RecoverFromEngine sample_raftpb (NewPeerStorage 7 (ps_engine s')) = (None, s'')"
    "unat (LastIndex s'') = max (lg_last emptyLog) (unat (LastIndex s'))"
    using raft_log_restart [OF sample_raftpb_ok bootStorage_repr [of sampleEngine _ 7, OF sampleEngine_stored(1)],
        of emptyLog sampleReady] sampleEngine_stored sampleReady_appendable by (auto simp: lg_last_def)
  then show ?thesis by (auto simp: lg_last_def emptyLog_def)
qed

text \<open>C22: The batched write path is the inline one: building a write task, letting the log
  writer commit it and applying it to the cache leaves the storage as \<^verbatim>\<open>SaveReady\<close> does, and building it fails with the error
  \<^verbatim>\<open>SaveReady\<close> returns.\<close>

theorem raft_log_writer_equiv:
  "(case BuildWriteTask pb rd s of
      Inl e \<Rightarrow> fst (SaveReady pb rd s) = Some e
    | Inr task \<Rightarrow> \<exists>eng. processBatch [task] (ps_engine s) = (None, eng) \<and>
        SaveReady pb rd s = (None, ApplyWriteTaskPostPersist task (s\<lparr>ps_engine := eng\<rparr>)))"
  using BuildWriteTask_SaveReady [of pb rd s] by (simp split: sum.splits)

text \<open>C21: Applying a compaction command and garbage-collecting the entries it released
  keeps the rest of the log: the storage then represents the log without the compacted prefix, for every part of the
  log that was still only in the engine as well.\<close>

theorem raft_log_compaction:
  assumes "log_repr pb s L" "unat (as_AppliedIndex (ps_applyState s)) \<le> lg_last L"
    "execCompactLog (ps_applyState s) req = (Inr (Some r), a)"
  shows "\<exists>eng. gcRaftLog \<lparr>gct_RegionID = ps_regionID s, gct_StartIdx = clr_FirstIndex r,
        gct_EndIdx = clr_TruncatedIndex r + 1\<rparr> (ps_engine s) = Inr eng \<and>
    log_repr pb ((SetApplyState a s)\<lparr>ps_engine := eng\<rparr>) (lg_compact (clq_CompactIndex req) (clq_CompactTerm req) L)"
proof -
  let ?ci = "clq_CompactIndex req" let ?L = "lg_compact ?ci (clq_CompactTerm req) L"
  have e: "as_TruncatedIndex (ps_applyState s) < ?ci" "?ci \<le> as_AppliedIndex (ps_applyState s)"
    "as_TruncatedIndex a = ?ci" "as_TruncatedTerm a = clq_CompactTerm req" "clr_TruncatedIndex r = ?ci"
    using assms(3) by (auto simp: execCompactLog_def split: if_splits)
  have b: "lg_index L < unat ?ci" "unat ?ci \<le> lg_last L" "Suc (lg_last L) < 2 ^ 64"
    using e(1,2) assms(1,2) by (auto simp: log_repr_def log_wf_def word_less_nat_alt word_le_nat_alt)
  have rep: "log_repr pb (SetApplyState a s) ?L" using log_repr_compact [OF assms(1) b(1,2) e(3,4)] .
  have "unat (?ci + 1) = Suc (unat ?ci)" using b by (intro unat_Suc_word) simp
  then show ?thesis
    using gcRaftLog_repr [OF rep, of "\<lparr>gct_RegionID = ps_regionID s, gct_StartIdx = clr_FirstIndex r, gct_EndIdx = clr_TruncatedIndex r + 1\<rparr>"]
      e(5) lg_compact_props(2) [OF b(1,2)] by (simp add: SetApplyState_def)
qed

theorem raft_log_compaction_witness:
  "\<exists>(s :: PeerStorage) r a. execCompactLog (ps_applyState s) \<lparr>clq_CompactIndex = 1, clq_CompactTerm = 1\<rparr> = (Inr (Some r), a) \<and>
     (\<exists>eng. gcRaftLog \<lparr>gct_RegionID = ps_regionID s, gct_StartIdx = clr_FirstIndex r,
        gct_EndIdx = clr_TruncatedIndex r + 1\<rparr> (ps_engine s) = Inr eng)"
proof -
  let ?req = "\<lparr>clq_CompactIndex = 1, clq_CompactTerm = 1\<rparr>" let ?L = "lg_append (rd_Entries sampleReady) emptyLog"
  have i: "lg_index ?L = 0" by (simp add: lg_append_def emptyLog_def)
  obtain s where s: "log_repr sample_raftpb s ?L"
    using SaveReady_repr [OF sample_raftpb_ok bootStorage_repr [of sampleEngine _ 7, OF sampleEngine_stored(1)] sampleReady_appendable(1)]
    by blast
  have r: "log_repr sample_raftpb (SetAppliedIndex 1 s) ?L" using s by (simp add: log_repr_def SetAppliedIndex_def)
  have t: "as_TruncatedIndex (ps_applyState s) = 0" using s i by (simp add: log_repr_def unat_eq_0)
  obtain res a where x: "execCompactLog (ps_applyState (SetAppliedIndex 1 s)) ?req = (Inr (Some res), a)"
    using t by (simp add: execCompactLog_def SetAppliedIndex_def)
  have "unat (as_AppliedIndex (ps_applyState (SetAppliedIndex 1 s))) \<le> lg_last ?L"
    by (simp add: SetAppliedIndex_def lg_last_def lg_append_def emptyLog_def sampleReady_def sampleEntry_def)
  then obtain eng where "gcRaftLog \<lparr>gct_RegionID = ps_regionID (SetAppliedIndex 1 s), gct_StartIdx = clr_FirstIndex res,
      gct_EndIdx = clr_TruncatedIndex res + 1\<rparr> (ps_engine (SetAppliedIndex 1 s)) = Inr eng"
    using raft_log_compaction [OF r _ x] by blast
  with x show ?thesis by blast
qed

end
