(* ===== verification/RegionOps.thy ===== *)
theory RegionOps
  imports Metapb Mvcc_Store RaftLog
begin

section \<open>Operations on regions\<close>

text \<open>
  Models the changes of region metadata in \<^verbatim>\<open>internal/raftstore\<close>: membership changes (\<^verbatim>\<open>conf_change.go\<close>), the split
  command with its binary format (\<^verbatim>\<open>split_admin.go\<close>), the split check and the split itself (\<^verbatim>\<open>split/checker.go\<close>), and
  merges (\<^verbatim>\<open>merge.go\<close>). A position in a buffer is the unread rest of it. Pointers that the code never
  checks for nil are plain values.

  The lemmas show that a split cuts the key range of a region into disjoint pieces that cover it and raises the version of
  all of them, that a merge joins two adjacent ranges and undoes a split, that membership changes keep the identifiers of
  the peers distinct and count in the configuration version, that the split command survives its
  encoding, and where the split checker cuts.
\<close>

unbundle bit_operations_syntax

subsection \<open>Fixed-width integers\<close>

definition PutUint32 :: "32 word \<Rightarrow> bytes" where
  "PutUint32 v = map (\<lambda>i. ucast (drop_bit (8 * i) v)) (rev [0..<4])"

definition Uint32 :: "bytes \<Rightarrow> 32 word" where
  "Uint32 bs = foldl (\<lambda>acc b. push_bit 8 acc OR ucast b) 0 bs"

definition PutUint16 :: "16 word \<Rightarrow> bytes" where
  "PutUint16 v = map (\<lambda>i. ucast (drop_bit (8 * i) v)) (rev [0..<2])"

definition Uint16 :: "bytes \<Rightarrow> 16 word" where
  "Uint16 bs = foldl (\<lambda>acc b. push_bit 8 acc OR ucast b) 0 bs"

lemma length_Put [simp]: "length (PutUint32 v) = 4" "length (PutUint16 w) = 2"
  by (simp_all add: PutUint32_def PutUint16_def)

lemma Uint32_PutUint32 [simp]: "Uint32 (PutUint32 v) = v"
proof -
  let ?x = "push_bit 8 (push_bit 8 (push_bit 8 (ucast (ucast (drop_bit 24 v) :: byte)) OR
      ucast (ucast (drop_bit 16 v) :: byte)) OR ucast (ucast (drop_bit 8 v) :: byte)) OR ucast (ucast v :: byte) :: 32 word"
  have "Uint32 (PutUint32 v) = ?x"
    by (simp add: PutUint32_def Uint32_def upt_rec)
  also have "?x = v"
  proof (rule bit_word_eqI)
    fix n :: nat assume "n < LENGTH(32)"
    then consider "n < 8" | "8 \<le> n" "n < 16" | "16 \<le> n" "n < 24" | "24 \<le> n" "n < 32" by fastforce
    then show "bit ?x n = bit v n" by cases (auto simp: bit_simps)
  qed
  finally show ?thesis .
qed

lemma Uint16_PutUint16 [simp]: "Uint16 (PutUint16 v) = v"
proof -
  let ?x = "push_bit 8 (ucast (ucast (drop_bit 8 v) :: byte)) OR ucast (ucast v :: byte) :: 16 word"
  have "Uint16 (PutUint16 v) = ?x"
    by (simp add: PutUint16_def Uint16_def upt_rec)
  also have "?x = v"
  proof (rule bit_word_eqI)
    fix n :: nat assume "n < LENGTH(16)"
    then consider "n < 8" | "8 \<le> n" "n < 16" by fastforce
    then show "bit ?x n = bit v n" by cases (auto simp: bit_simps)
  qed
  finally show ?thesis .
qed

subsection \<open>Membership changes\<close>

datatype RaftConfChangeType = ConfChangeAddNode | ConfChangeRemoveNode | ConfChangeUpdateNode | ConfChangeAddLearnerNode

record ConfChange =
  cc_Type :: RaftConfChangeType
  cc_NodeID :: u64
  cc_Context :: bytes

record ConfChangeV2 =
  cc2_Changes :: "(RaftConfChangeType \<times> u64) list"
  cc2_Context :: bytes

text \<open>The decoders of conf changes are third-party code.\<close>

record raftcc =
  pb_UnmarshalConfChange :: "bytes \<Rightarrow> ConfChange res"
  pb_UnmarshalConfChangeV2 :: "bytes \<Rightarrow> ConfChangeV2 res"

text \<open>The fields of a peer that the region operations touch.\<close>

record PeerCore =
  pf_regionID :: u64
  pf_peerID :: u64
  pf_region :: Region
  pf_stopped :: bool
  pf_leaseValid :: bool

record ChangePeerResult =
  cpr_Index :: u64
  cpr_ChangeType :: RaftConfChangeType
  cpr_Peer :: "Peer option"
  cpr_Region :: Region

definition EncodePeerContext :: "u64 \<Rightarrow> bytes" where
  "EncodePeerContext storeID = PutUint64 storeID"

definition decodePeerFromContext :: "bytes \<Rightarrow> u64 \<Rightarrow> Peer option" where
  "decodePeerFromContext context nodeID =
     (if 8 \<le> length context
      then Some \<lparr>peer_Id = nodeID, peer_StoreId = Uint64 (take 8 context), peer_Role = 0\<rparr> else None)"

fun removePeerByNodeID :: "Peer list \<Rightarrow> u64 \<Rightarrow> Peer option \<times> Peer list" where
  "removePeerByNodeID [] nodeID = (None, [])"
| "removePeerByNodeID (p # ps) nodeID =
     (if peer_Id p = nodeID then (Some p, ps)
      else let (removed, rest) = removePeerByNodeID ps nodeID in (removed, p # rest))"

definition ensureEpoch :: "Region \<Rightarrow> RegionEpoch" where
  "ensureEpoch r = (case rg_RegionEpoch r of None \<Rightarrow> RegionEpoch_zero | Some e \<Rightarrow> e)"

definition processConfChange ::
  "RaftConfChangeType \<Rightarrow> u64 \<Rightarrow> u64 \<Rightarrow> bytes \<Rightarrow> 'a PeerCore_scheme \<Rightarrow> ChangePeerResult \<times> 'a PeerCore_scheme"
where
  "processConfChange changeType nodeID index context p =
     (let region = cloneRegion (pf_region p); e = ensureEpoch region;
          region = region\<lparr>rg_RegionEpoch := Some (e\<lparr>ep_ConfVer := ep_ConfVer e + 1\<rparr>)\<rparr>;
          result = (\<lambda>peer region. \<lparr>cpr_Index = index, cpr_ChangeType = changeType, cpr_Peer = peer, cpr_Region = region\<rparr>);
          minimal = \<lparr>peer_Id = nodeID, peer_StoreId = 0, peer_Role = 0\<rparr> in
      case changeType of
        ConfChangeRemoveNode \<Rightarrow>
          let (removed, peers) = removePeerByNodeID (rg_Peers region) nodeID;
              region = region\<lparr>rg_Peers := peers\<rparr>;
              targetPeer = (case removed of None \<Rightarrow> minimal | Some q \<Rightarrow> q);
              p = (if nodeID = pf_peerID p then p\<lparr>pf_stopped := True\<rparr> else p) in
          (result (Some targetPeer) region, p\<lparr>pf_region := region\<rparr>)
      | ConfChangeUpdateNode \<Rightarrow> (result None region, p\<lparr>pf_region := region\<rparr>)
      | _ \<Rightarrow>
          let targetPeer = (case decodePeerFromContext context nodeID of None \<Rightarrow> minimal | Some q \<Rightarrow> q) in
          (case List.find (\<lambda>q. peer_Id q = nodeID) (rg_Peers region) of
             Some existing \<Rightarrow> (result (Some existing) region, p\<lparr>pf_region := region\<rparr>)
           | None \<Rightarrow>
               let region = region\<lparr>rg_Peers := rg_Peers region @ [targetPeer]\<rparr> in
               (result (Some targetPeer) region, p\<lparr>pf_region := region\<rparr>)))"

definition applyConfChangeEntry ::
  "raftcc \<Rightarrow> Entry \<Rightarrow> 'a PeerCore_scheme \<Rightarrow> ChangePeerResult option \<times> 'a PeerCore_scheme"
where
  "applyConfChangeEntry cpb e p =
     (case en_Type e of
        EntryConfChange \<Rightarrow>
          (case pb_UnmarshalConfChange cpb (en_Data e) of
             Inl _ \<Rightarrow> (None, p)
           | Inr cc \<Rightarrow>
               let (r, p) = processConfChange (cc_Type cc) (cc_NodeID cc) (en_Index e) (cc_Context cc) (p\<lparr>pf_leaseValid := False\<rparr>) in
               (Some r, p))
      | EntryConfChangeV2 \<Rightarrow>
          (case pb_UnmarshalConfChangeV2 cpb (en_Data e) of
             Inl _ \<Rightarrow> (None, p)
           | Inr cc \<Rightarrow>
               let p = p\<lparr>pf_leaseValid := False\<rparr> in
               (case cc2_Changes cc of
                  [] \<Rightarrow> (None, p)
                | (t, n) # _ \<Rightarrow> let (r, p) = processConfChange t n (en_Index e) (cc2_Context cc) p in (Some r, p)))
      | EntryNormal \<Rightarrow> (None, p))"

subsection \<open>Splits\<close>

datatype region_error =
    ErrSplitNoKeys
  | ErrSplitCount
  | ErrSplitBeforeStart
  | ErrSplitAfterEnd
  | ErrSplitNotAscending
  | ErrMergeNil
  | ErrMergeNotAdjacent
  | ErrMergeCommit
  | ErrSplitData

definition cloneRegionForSplit :: "Region \<Rightarrow> Region" where
  "cloneRegionForSplit r =
     \<lparr>rg_Id = rg_Id r, rg_StartKey = rg_StartKey r, rg_EndKey = rg_EndKey r,
      rg_RegionEpoch = map_option (\<lambda>e. \<lparr>ep_ConfVer = ep_ConfVer e, ep_Version = ep_Version e\<rparr>) (rg_RegionEpoch r),
      rg_Peers = map (\<lambda>p. \<lparr>peer_Id = peer_Id p, peer_StoreId = peer_StoreId p, peer_Role = peer_Role p\<rparr>) (rg_Peers r)\<rparr>"

fun validateSplitKeys :: "Region \<Rightarrow> bytes option \<Rightarrow> bytes list \<Rightarrow> region_error option" where
  "validateSplitKeys region prev [] = None"
| "validateSplitKeys region prev (key # keys) =
     (if rg_StartKey region \<noteq> [] \<and> key \<le> rg_StartKey region then Some ErrSplitBeforeStart
      else if rg_EndKey region \<noteq> [] \<and> rg_EndKey region \<le> key then Some ErrSplitAfterEnd
      else if (case prev of None \<Rightarrow> False | Some k \<Rightarrow> key \<le> k) then Some ErrSplitNotAscending
      else validateSplitKeys region (Some key) keys)"

definition newPeers :: "u64 list \<Rightarrow> Peer list \<Rightarrow> Peer list" where
  "newPeers peerIDs peers = map (\<lambda>(i, p). \<lparr>peer_Id = i, peer_StoreId = peer_StoreId p, peer_Role = 0\<rparr>) (zip peerIDs peers)"

fun newRegions :: "Region \<Rightarrow> RegionEpoch \<Rightarrow> bytes list \<Rightarrow> u64 list \<Rightarrow> u64 list list \<Rightarrow> Region list" where
  "newRegions region e (key # keys) (rid # rids) peerSets =
     \<lparr>rg_Id = rid, rg_StartKey = key, rg_EndKey = (case keys of [] \<Rightarrow> rg_EndKey region | k # _ \<Rightarrow> k),
      rg_RegionEpoch = Some e,
      rg_Peers = (case peerSets of [] \<Rightarrow> [] | ps # _ \<Rightarrow> newPeers ps (rg_Peers region))\<rparr> #
     newRegions region e keys rids (drop 1 peerSets)"
| "newRegions region e _ _ peerSets = []"

record SplitRegionResult =
  srr_Derived :: Region
  srr_Regions :: "Region list"

definition ExecBatchSplit :: "Region \<Rightarrow> bytes list \<Rightarrow> u64 list \<Rightarrow> u64 list list \<Rightarrow> region_error + SplitRegionResult" where
  "ExecBatchSplit region splitKeys newRegionIDs newPeerIDSets =
     (if splitKeys = [] then Inl ErrSplitNoKeys
      else if length splitKeys \<noteq> length newRegionIDs then Inl ErrSplitCount
      else
        (case validateSplitKeys region None splitKeys of
           Some e \<Rightarrow> Inl e
         | None \<Rightarrow>
             let derived = cloneRegionForSplit region; e = ensureEpoch derived;
                 e = e\<lparr>ep_Version := ep_Version e + of_nat (length splitKeys)\<rparr>;
                 derived = derived\<lparr>rg_RegionEpoch := Some e, rg_EndKey := hd splitKeys\<rparr> in
             Inr \<lparr>srr_Derived = derived, srr_Regions = newRegions region e splitKeys newRegionIDs newPeerIDSets\<rparr>))"

definition TagSplitAdmin :: byte where "TagSplitAdmin = 0x02"

record SplitAdminRequest =
  sar_SplitKey :: bytes
  sar_NewRegionIDs :: "u64 list"
  sar_NewPeerIDSets :: "u64 list list"

definition IsSplitAdmin :: "bytes \<Rightarrow> bool" where
  "IsSplitAdmin data \<longleftrightarrow> data \<noteq> [] \<and> hd data = TagSplitAdmin"

text \<open>\<^const>\<open>None\<close> is the panic of \<^verbatim>\<open>NewPeerIDSets[i]\<close> when a region has no set of peer ids.\<close>

fun marshalSplitRegions :: "u64 list \<Rightarrow> u64 list list \<Rightarrow> bytes option" where
  "marshalSplitRegions [] sets = Some []"
| "marshalSplitRegions (r # rs) [] = None"
| "marshalSplitRegions (r # rs) (ps # sets) =
     map_option (\<lambda>rest. PutUint64 r @ PutUint32 (of_nat (length ps)) @ concat (map PutUint64 ps) @ rest) (marshalSplitRegions rs sets)"

text \<open>The buffer is allocated with zeros for all sets of peer ids.\<close>

definition MarshalSplitAdminRequest :: "SplitAdminRequest \<Rightarrow> bytes option" where
  "MarshalSplitAdminRequest req =
     (let bufSize = 1 + 4 + length (sar_SplitKey req) + 4 + sum_list (map (\<lambda>ps. 8 + 4 + 8 * length ps) (sar_NewPeerIDSets req)) in
      map_option (\<lambda>regions.
        let data = [TagSplitAdmin] @ PutUint32 (of_nat (length (sar_SplitKey req))) @ sar_SplitKey req @
          PutUint32 (of_nat (length (sar_NewRegionIDs req))) @ regions in
        data @ replicate (bufSize - length data) 0)
      (marshalSplitRegions (sar_NewRegionIDs req) (sar_NewPeerIDSets req)))"

fun readU64s :: "nat \<Rightarrow> bytes \<Rightarrow> region_error + (u64 list \<times> bytes)" where
  "readU64s 0 data = Inr ([], data)"
| "readU64s (Suc n) data =
     (if length data < 8 then Inl ErrSplitData
      else res_bind (readU64s n (drop 8 data)) (\<lambda>(xs, rest). Inr (Uint64 (take 8 data) # xs, rest)))"

fun readSplitRegions :: "nat \<Rightarrow> bytes \<Rightarrow> region_error + ((u64 \<times> u64 list) list)" where
  "readSplitRegions 0 data = Inr []"
| "readSplitRegions (Suc n) data =
     (if length data < 8 then Inl ErrSplitData
      else
        let rid = Uint64 (take 8 data); data = drop 8 data in
        if length data < 4 then Inl ErrSplitData
        else
          let numPeers = unat (Uint32 (take 4 data)) in
          res_bind (readU64s numPeers (drop 4 data)) (\<lambda>(ps, rest).
            res_bind (readSplitRegions n rest) (\<lambda>rs. Inr ((rid, ps) # rs))))"

definition UnmarshalSplitAdminRequest :: "bytes \<Rightarrow> region_error + SplitAdminRequest" where
  "UnmarshalSplitAdminRequest data =
     (if length data < 5 \<or> hd data \<noteq> TagSplitAdmin then Inl ErrSplitData
      else
        let splitKeyLen = unat (Uint32 (take 4 (drop 1 data))); rest = drop 5 data in
        if length rest < splitKeyLen then Inl ErrSplitData
        else
          let splitKey = take splitKeyLen rest; rest = drop splitKeyLen rest in
          if length rest < 4 then Inl ErrSplitData
          else
            res_bind (readSplitRegions (unat (Uint32 (take 4 rest))) (drop 4 rest)) (\<lambda>rs.
              Inr \<lparr>sar_SplitKey = splitKey, sar_NewRegionIDs = map fst rs, sar_NewPeerIDSets = map snd rs\<rparr>))"

definition ExecSplitAdmin ::
  "SplitAdminRequest \<Rightarrow> 'a PeerCore_scheme \<Rightarrow> (region_error + SplitRegionResult) \<times> 'a PeerCore_scheme"
where
  "ExecSplitAdmin req p =
     (case ExecBatchSplit (pf_region p) [sar_SplitKey req] (sar_NewRegionIDs req) (sar_NewPeerIDSets req) of
        Inl e \<Rightarrow> (Inl e, p)
      | Inr result \<Rightarrow> (Inr result, p\<lparr>pf_region := srr_Derived result\<rparr>))"

text \<open>The result is what the entry sends to the coordinator.\<close>

definition applySplitAdminEntry :: "Entry \<Rightarrow> 'a PeerCore_scheme \<Rightarrow> SplitRegionResult option \<times> 'a PeerCore_scheme" where
  "applySplitAdminEntry e p =
     (let p = p\<lparr>pf_leaseValid := False\<rparr> in
      if \<not> IsSplitAdmin (en_Data e) then (None, p)
      else
        (case UnmarshalSplitAdminRequest (en_Data e) of
           Inl _ \<Rightarrow> (None, p)
         | Inr req \<Rightarrow> (case ExecSplitAdmin req p of (Inl _, p) \<Rightarrow> (None, p) | (Inr r, p) \<Rightarrow> (Some r, p))))"

subsection \<open>The split check\<close>

record SplitCheckCfg =
  scc_SplitSize :: u64
  scc_MaxSize :: u64

definition DefaultSplitCheckCfg :: SplitCheckCfg where
  "DefaultSplitCheckCfg = \<lparr>scc_SplitSize = 96 * 1024 * 1024, scc_MaxSize = 144 * 1024 * 1024\<rparr>"

definition splitKeyOf :: "bytes \<Rightarrow> bytes" where
  "splitKeyOf key = (case DecodeKey key of Inr (rawKey, _) \<Rightarrow> EncodeLockKey rawKey | Inl _ \<Rightarrow> key)"

text \<open>The scan of one column family: \<^const>\<open>Inl\<close> is the early exit at the maximal size.\<close>

fun scanCF :: "SplitCheckCfg \<Rightarrow> cf \<Rightarrow> u64 \<times> bytes option \<Rightarrow> (u64 \<times> bytes option) + (u64 \<times> bytes option)" where
  "scanCF cfg [] acc = Inr acc"
| "scanCF cfg (e # es) acc =
     (let totalSize = fst acc + of_nat (length (fst e) + length (snd e));
          splitKey = (if snd acc = None \<and> scc_SplitSize cfg div 2 \<le> totalSize then Some (splitKeyOf (fst e)) else snd acc) in
      if scc_MaxSize cfg \<le> totalSize then Inl (totalSize, splitKey) else scanCF cfg es (totalSize, splitKey))"

fun scanCFs :: "SplitCheckCfg \<Rightarrow> store \<Rightarrow> bytes \<Rightarrow> bytes \<Rightarrow> string list \<Rightarrow> u64 \<times> bytes option \<Rightarrow> u64 \<times> bytes option" where
  "scanCFs cfg eng startKey endKey [] acc = acc"
| "scanCFs cfg eng startKey endKey (c # cs) acc =
     (let opts = \<lparr>opt_LowerBound = Some startKey, opt_UpperBound = (if endKey \<noteq> [] then Some endKey else None)\<rparr> in
      case scanCF cfg (it_rest (SeekToFirst (NewIterator (eng c) opts))) acc of
        Inl acc \<Rightarrow> acc
      | Inr acc \<Rightarrow> scanCFs cfg eng startKey endKey cs acc)"

definition scanRegionSize :: "SplitCheckCfg \<Rightarrow> store \<Rightarrow> bytes \<Rightarrow> bytes \<Rightarrow> u64 \<times> bytes option" where
  "scanRegionSize cfg eng startKey endKey = scanCFs cfg eng startKey endKey [CFDefault, CFWrite, CFLock] (0, None)"

record SplitCheckTask =
  sct_RegionID :: u64
  sct_StartKey :: bytes
  sct_EndKey :: bytes

record SplitCheckResult =
  scr_RegionID :: u64
  scr_SplitKey :: "bytes option"
  scr_RegionSize :: u64

definition checkRegion :: "SplitCheckCfg \<Rightarrow> store \<Rightarrow> SplitCheckTask \<Rightarrow> SplitCheckResult" where
  "checkRegion cfg eng task =
     (let (regionSize, splitKey) = scanRegionSize cfg eng (sct_StartKey task) (sct_EndKey task) in
      \<lparr>scr_RegionID = sct_RegionID task,
       scr_SplitKey = (if scc_SplitSize cfg \<le> regionSize \<and> splitKey \<noteq> None then splitKey else None),
       scr_RegionSize = regionSize\<rparr>)"

subsection \<open>Merges\<close>

record MergeState =
  mst_MinIndex :: u64
  mst_Commit :: u64
  mst_Target :: Region

record PrepareMergeResult =
  pmr_Region :: Region
  pmr_State :: MergeState

record CommitMergeResult =
  cmr_Region :: Region
  cmr_Source :: Region

record RollbackMergeResult =
  rmr_Region :: Region
  rmr_Commit :: u64

definition cloneMergeRegion :: "Region \<Rightarrow> Region" where
  "cloneMergeRegion r =
     \<lparr>rg_Id = rg_Id r, rg_StartKey = rg_StartKey r, rg_EndKey = rg_EndKey r,
      rg_RegionEpoch = map_option (\<lambda>e. \<lparr>ep_ConfVer = ep_ConfVer e, ep_Version = ep_Version e\<rparr>) (rg_RegionEpoch r),
      rg_Peers = map (\<lambda>p. \<lparr>peer_Id = peer_Id p, peer_StoreId = peer_StoreId p, peer_Role = peer_Role p\<rparr>) (rg_Peers r)\<rparr>"

definition ExecPrepareMerge :: "Region option \<Rightarrow> Region option \<Rightarrow> u64 \<Rightarrow> u64 \<Rightarrow> region_error + PrepareMergeResult" where
  "ExecPrepareMerge region target minIndex commitIndex =
     (case (region, target) of
        (Some region, Some target) \<Rightarrow>
          let updated = cloneMergeRegion region; e = ensureEpoch updated;
              e = e\<lparr>ep_Version := ep_Version e + 1, ep_ConfVer := ep_ConfVer e + 1\<rparr> in
          Inr \<lparr>pmr_Region = updated\<lparr>rg_RegionEpoch := Some e\<rparr>,
            pmr_State = \<lparr>mst_MinIndex = minIndex, mst_Commit = commitIndex, mst_Target = target\<rparr>\<rparr>
      | _ \<Rightarrow> Inl ErrMergeNil)"

definition ExecCommitMerge :: "Region option \<Rightarrow> Region option \<Rightarrow> region_error + CommitMergeResult" where
  "ExecCommitMerge target source =
     (case (target, source) of
        (Some target, Some source) \<Rightarrow>
          let merged = cloneMergeRegion target; e = ensureEpoch merged;
              moved =
                (if rg_StartKey source \<noteq> [] \<and> rg_EndKey target = rg_StartKey source
                 then Some (merged\<lparr>rg_EndKey := rg_EndKey source\<rparr>)
                 else if rg_EndKey source \<noteq> [] \<and> rg_StartKey target = rg_EndKey source
                 then Some (merged\<lparr>rg_StartKey := rg_StartKey source\<rparr>)
                 else None);
              srcVer = ep_Version (GetRegionEpoch source); tgtVer = ep_Version e;
              e = e\<lparr>ep_Version := (if tgtVer < srcVer then srcVer + 1 else tgtVer + 1)\<rparr> in
          (case moved of
             None \<Rightarrow> Inl ErrMergeNotAdjacent
           | Some merged \<Rightarrow> Inr \<lparr>cmr_Region = merged\<lparr>rg_RegionEpoch := Some e\<rparr>, cmr_Source = source\<rparr>)
      | _ \<Rightarrow> Inl ErrMergeNil)"

definition ExecRollbackMerge :: "Region option \<Rightarrow> u64 \<Rightarrow> MergeState option \<Rightarrow> region_error + RollbackMergeResult" where
  "ExecRollbackMerge region expectedCommit mergeState =
     (case region of
        None \<Rightarrow> Inl ErrMergeNil
      | Some region \<Rightarrow>
          if (case mergeState of None \<Rightarrow> False | Some ms \<Rightarrow> expectedCommit \<noteq> 0 \<and> mst_Commit ms \<noteq> expectedCommit)
          then Inl ErrMergeCommit
          else
            let updated = cloneMergeRegion region; e = ensureEpoch updated in
            Inr \<lparr>rmr_Region = updated\<lparr>rg_RegionEpoch := Some (e\<lparr>ep_Version := ep_Version e + 1\<rparr>)\<rparr>, rmr_Commit = expectedCommit\<rparr>)"

subsection \<open>Membership\<close>

lemma clone_id [simp]: "cloneRegionForSplit r = r" "cloneMergeRegion r = r"
  by (simp_all add: cloneRegionForSplit_def cloneMergeRegion_def clone_fields option.map_ident)

lemma removePeerByNodeID_eq:
  "removePeerByNodeID ps n = (List.find (\<lambda>q. peer_Id q = n) ps, snd (removePeerByNodeID ps n))"
  "distinct (map peer_Id ps) \<Longrightarrow> snd (removePeerByNodeID ps n) = filter (\<lambda>q. peer_Id q \<noteq> n) ps"
proof (induction ps)
  case (Cons q ps)
  {
    case 1
    show ?case using Cons.IH(1) by (auto split: prod.split)
  next
    case 2
    have "filter (\<lambda>r. peer_Id r \<noteq> peer_Id q) ps = ps" using 2 by (simp add: filter_id_conv) (metis imageI)
    then show ?case using Cons.IH(2) 2 by (auto split: prod.split)
  }
qed simp_all

definition peer_ids :: "Region \<Rightarrow> u64 list" where
  "peer_ids r = map peer_Id (rg_Peers r)"

text \<open>The effect of a change on the set of identifiers.\<close>

fun conf_effect :: "RaftConfChangeType \<times> u64 \<Rightarrow> u64 set \<Rightarrow> u64 set" where
  "conf_effect (ConfChangeRemoveNode, n) S = S - {n}"
| "conf_effect (ConfChangeUpdateNode, n) S = S"
| "conf_effect (_, n) S = insert n S"

fun runConfChanges :: "(RaftConfChangeType \<times> u64 \<times> u64 \<times> bytes) list \<Rightarrow> 'a PeerCore_scheme \<Rightarrow> 'a PeerCore_scheme" where
  "runConfChanges [] p = p"
| "runConfChanges ((t, n, i, c) # cs) p = runConfChanges cs (snd (processConfChange t n i c p))"

lemma find_None_iff_id: "List.find (\<lambda>q. peer_Id q = n) ps = None \<longleftrightarrow> n \<notin> set (map peer_Id ps)"
  by (auto simp: find_None_iff)

lemma processConfChange_effect:
  assumes "distinct (peer_ids (pf_region p))" "processConfChange t n i c p = (r, p')"
  shows "distinct (peer_ids (pf_region p'))" "set (peer_ids (pf_region p')) = conf_effect (t, n) (set (peer_ids (pf_region p)))"
    "ep_ConfVer (GetRegionEpoch (pf_region p')) = ep_ConfVer (GetRegionEpoch (pf_region p)) + 1"
    "ep_Version (GetRegionEpoch (pf_region p')) = ep_Version (GetRegionEpoch (pf_region p))"
    "in_region (pf_region p') = in_region (pf_region p)" "cpr_Region r = pf_region p'"
    "pf_stopped p' \<longleftrightarrow> pf_stopped p \<or> (t = ConfChangeRemoveNode \<and> n = pf_peerID p)"
    "pf_peerID p' = pf_peerID p"
proof -
  let ?ps = "rg_Peers (pf_region p)"
  have rm: "snd (removePeerByNodeID ?ps n) = filter (\<lambda>q. peer_Id q \<noteq> n) ?ps"
    using removePeerByNodeID_eq(2) assms(1) by (simp add: peer_ids_def)
  have fd: "List.find (\<lambda>q. peer_Id q = n) ?ps = None \<longleftrightarrow> n \<notin> set (map peer_Id ?ps)" by (rule find_None_iff_id)
  have dc: "peer_Id (case decodePeerFromContext c n of None \<Rightarrow> \<lparr>peer_Id = n, peer_StoreId = 0, peer_Role = 0\<rparr> | Some q \<Rightarrow> q) = n"
    by (simp add: decodePeerFromContext_def)
  note d = Let_def processConfChange_def ensureEpoch_def GetRegionEpoch_def peer_ids_def in_region_def
  have "distinct (peer_ids (pf_region p')) \<and> set (peer_ids (pf_region p')) = conf_effect (t, n) (set (peer_ids (pf_region p))) \<and>
    ep_ConfVer (GetRegionEpoch (pf_region p')) = ep_ConfVer (GetRegionEpoch (pf_region p)) + 1 \<and>
    ep_Version (GetRegionEpoch (pf_region p')) = ep_Version (GetRegionEpoch (pf_region p)) \<and>
    in_region (pf_region p') = in_region (pf_region p) \<and> cpr_Region r = pf_region p' \<and>
    (pf_stopped p' \<longleftrightarrow> pf_stopped p \<or> (t = ConfChangeRemoveNode \<and> n = pf_peerID p)) \<and> pf_peerID p' = pf_peerID p"
  proof (cases t)
    case ConfChangeRemoveNode
    have "map peer_Id (filter (\<lambda>q. peer_Id q \<noteq> n) ?ps) = filter (\<lambda>x. x \<noteq> n) (map peer_Id ?ps)" by (simp add: filter_map comp_def)
    then show ?thesis
      using assms ConfChangeRemoveNode rm removePeerByNodeID_eq(1) [of ?ps n]
      by (cases "removePeerByNodeID ?ps n") (auto simp: d fun_eq_iff)
  next
    case ConfChangeUpdateNode
    then show ?thesis using assms by (auto simp: d fun_eq_iff)
  next
    case ConfChangeAddNode
    then show ?thesis
      using assms fd dc by (cases "List.find (\<lambda>q. peer_Id q = n) ?ps") (auto simp: d fun_eq_iff Let_def)
  next
    case ConfChangeAddLearnerNode
    then show ?thesis
      using assms fd dc by (cases "List.find (\<lambda>q. peer_Id q = n) ?ps") (auto simp: d fun_eq_iff Let_def)
  qed
  then show "distinct (peer_ids (pf_region p'))" "set (peer_ids (pf_region p')) = conf_effect (t, n) (set (peer_ids (pf_region p)))"
    "ep_ConfVer (GetRegionEpoch (pf_region p')) = ep_ConfVer (GetRegionEpoch (pf_region p)) + 1"
    "ep_Version (GetRegionEpoch (pf_region p')) = ep_Version (GetRegionEpoch (pf_region p))"
    "in_region (pf_region p') = in_region (pf_region p)" "cpr_Region r = pf_region p'"
    "pf_stopped p' \<longleftrightarrow> pf_stopped p \<or> (t = ConfChangeRemoveNode \<and> n = pf_peerID p)"
    "pf_peerID p' = pf_peerID p" by blast+
qed

lemma runConfChanges_effect:
  assumes "distinct (peer_ids (pf_region p))" "p' = runConfChanges cs p"
  shows "distinct (peer_ids (pf_region p')) \<and>
    set (peer_ids (pf_region p')) = fold (\<lambda>(t, n, _). conf_effect (t, n)) cs (set (peer_ids (pf_region p))) \<and>
    ep_ConfVer (GetRegionEpoch (pf_region p')) = ep_ConfVer (GetRegionEpoch (pf_region p)) + of_nat (length cs) \<and>
    ep_Version (GetRegionEpoch (pf_region p')) = ep_Version (GetRegionEpoch (pf_region p)) \<and>
    in_region (pf_region p') = in_region (pf_region p) \<and>
    (pf_stopped p' \<longleftrightarrow> pf_stopped p \<or> (\<exists>i c. (ConfChangeRemoveNode, pf_peerID p, i, c) \<in> set cs))"
  using assms
proof (induction cs arbitrary: p)
  case (Cons x cs)
  obtain t n i c where x: "x = (t, n, i, c)" by (metis prod_cases4)
  obtain r p1 where p1: "processConfChange t n i c p = (r, p1)" by force
  note e = processConfChange_effect [OF Cons.prems(1) p1]
  have "p' = runConfChanges cs p1" using Cons.prems(2) by (simp add: x p1)
  note ih = Cons.IH [OF e(1) this]
  show ?case using ih e by (auto simp: x algebra_simps)
qed simp

subsection \<open>Splits partition the key space\<close>

definition region_ok :: "Region \<Rightarrow> bool" where
  "region_ok r \<longleftrightarrow> rg_EndKey r = [] \<or> rg_StartKey r < rg_EndKey r"

definition holders :: "Region list \<Rightarrow> bytes \<Rightarrow> nat" where
  "holders rs k = length (filter (\<lambda>r. in_region r k) rs)"

lemma holders_Cons: "holders (r # rs) k = (if in_region r k then 1 else 0) + holders rs k"
  by (simp add: holders_def)

lemma nil_less: "([] :: bytes) < k \<longleftrightarrow> k \<noteq> []"
  by (cases k) simp_all

lemma validateSplitKeys_None:
  "validateSplitKeys region prev keys = None \<Longrightarrow>
   sorted_wrt (<) keys \<and> (\<forall>k \<in> set keys. (rg_StartKey region = [] \<or> rg_StartKey region < k) \<and>
     (rg_EndKey region = [] \<or> k < rg_EndKey region) \<and> (\<forall>p. prev = Some p \<longrightarrow> p < k))"
proof (induction keys arbitrary: prev)
  case (Cons k keys)
  have v: "rg_StartKey region = [] \<or> rg_StartKey region < k" "rg_EndKey region = [] \<or> k < rg_EndKey region"
      "\<forall>p. prev = Some p \<longrightarrow> p < k" "validateSplitKeys region (Some k) keys = None"
    using Cons.prems by (auto split: if_splits option.splits)
  note ih = Cons.IH [OF v(4)]
  show ?case using v(1-3) ih by (auto dest: less_trans)
qed simp

lemma newRegions_holders:
  assumes "sorted_wrt (<) (k # keys)" "k \<noteq> []" "\<forall>j \<in> set (k # keys). rg_EndKey region = [] \<or> j < rg_EndKey region"
    "length rids = Suc (length keys)"
  shows "holders (newRegions region e (k # keys) rids sets) x =
    (if k \<le> x \<and> (rg_EndKey region = [] \<or> x < rg_EndKey region) then 1 else 0)"
  using assms
proof (induction keys arbitrary: k rids sets)
  case Nil
  then obtain r where "rids = [r]" by (cases rids) auto
  then show ?case by (simp add: holders_def in_region_def)
next
  case (Cons k' keys)
  obtain r rids' where r: "rids = r # rids'" "length rids' = Suc (length keys)" using Cons.prems(4) by (cases rids) auto
  have k': "k < k'" "k' \<noteq> []" "rg_EndKey region = [] \<or> k' < rg_EndKey region"
    using Cons.prems(1-3) by (auto dest: less_trans)
  have "holders (newRegions region e (k' # keys) rids' (drop 1 sets)) x =
    (if k' \<le> x \<and> (rg_EndKey region = [] \<or> x < rg_EndKey region) then 1 else 0)"
    using Cons.IH [of k' rids' "drop 1 sets"] Cons.prems(1,3) k'(2) r(2) by simp
  moreover have "k \<le> x" if "k' \<le> x" using that k'(1) by simp
  moreover have "x < rg_EndKey region" if "x < k'" "rg_EndKey region \<noteq> []" using that k'(3) by auto
  ultimately show ?case using k'(1,2) by (auto simp: r(1) holders_Cons in_region_def not_le)
qed

lemma newRegions_fields:
  "length keys = length rids \<Longrightarrow> map rg_Id (newRegions region e keys rids sets) = rids \<and>
   (\<forall>r \<in> set (newRegions region e keys rids sets). rg_RegionEpoch r = Some e \<and>
      (\<exists>ps. rg_Peers r = newPeers ps (rg_Peers region)))"
proof (induction keys arbitrary: rids sets)
  case (Cons k keys)
  obtain r rids' where r: "rids = r # rids'" "length keys = length rids'" using Cons.prems by (cases rids) auto
  have "\<exists>ps. (case sets of [] \<Rightarrow> [] | ps # _ \<Rightarrow> newPeers ps (rg_Peers region)) = newPeers ps (rg_Peers region)"
    by (cases sets) (auto intro: exI [of _ "[]"] simp: newPeers_def)
  then show ?case using Cons.IH [OF r(2), of "drop 1 sets"] by (simp add: r(1))
qed simp

lemma newRegions_ok:
  "sorted_wrt (<) keys \<Longrightarrow> \<forall>k \<in> set keys. k \<noteq> [] \<and> (rg_EndKey region = [] \<or> k < rg_EndKey region) \<Longrightarrow>
   \<forall>r \<in> set (newRegions region e keys rids sets). region_ok r"
proof (induction keys arbitrary: rids sets)
  case (Cons k keys)
  then show ?case by (cases rids; cases keys) (auto simp: region_ok_def)
qed simp

lemma ExecBatchSplit_partition:
  assumes s: "ExecBatchSplit region keys rids sets = Inr r" and k: "hd keys \<noteq> []"
  shows "holders (srr_Derived r # srr_Regions r) x = (if in_region region x then 1 else 0)"
    "\<forall>q \<in> set (srr_Derived r # srr_Regions r). region_ok q \<and>
       GetRegionEpoch q = (ensureEpoch region)\<lparr>ep_Version := ep_Version (ensureEpoch region) + of_nat (length keys)\<rparr>"
    "rg_Id (srr_Derived r) = rg_Id region" "map rg_Id (srr_Regions r) = rids" "rg_Peers (srr_Derived r) = rg_Peers region"
    "\<forall>q \<in> set (srr_Regions r). map peer_StoreId (rg_Peers q) = take (length (rg_Peers q)) (map peer_StoreId (rg_Peers region))"
proof -
  let ?e = "(ensureEpoch region)\<lparr>ep_Version := ep_Version (ensureEpoch region) + of_nat (length keys)\<rparr>"
  have v: "validateSplitKeys region None keys = None" "keys \<noteq> []" "length keys = length rids"
    and r: "srr_Derived r = region\<lparr>rg_RegionEpoch := Some ?e, rg_EndKey := hd keys\<rparr>" "srr_Regions r = newRegions region ?e keys rids sets"
    using s by (auto simp: ExecBatchSplit_def Let_def split: if_splits option.splits)
  have sk: "sorted_wrt (<) keys" "\<forall>j \<in> set keys. rg_EndKey region = [] \<or> j < rg_EndKey region"
    "\<forall>j \<in> set keys. rg_StartKey region = [] \<or> rg_StartKey region < j"
    using validateSplitKeys_None [OF v(1)] by auto
  obtain k0 ks where ks: "keys = k0 # ks" using v(2) by (cases keys) auto
  have ne: "j \<noteq> []" if "j \<in> set keys" for j using sk(1) k that by (auto simp: ks)
  have st: "rg_StartKey region < k0" using sk(3) k by (auto simp: ks nil_less)
  have h: "holders (srr_Regions r) x = (if k0 \<le> x \<and> (rg_EndKey region = [] \<or> x < rg_EndKey region) then 1 else 0)"
    unfolding r(2) ks using sk(1,2) k v(3) by (intro newRegions_holders) (auto simp: ks)
  have d: "in_region (srr_Derived r) x \<longleftrightarrow> rg_StartKey region \<le> x \<and> x < k0" using k by (simp add: r(1) in_region_def ks)
  have "rg_EndKey region = [] \<or> k0 < rg_EndKey region" using sk(2) by (auto simp: ks)
  then show "holders (srr_Derived r # srr_Regions r) x = (if in_region region x then 1 else 0)"
    using st unfolding holders_Cons h d by (auto simp: in_region_def not_le)
  have "region_ok (srr_Derived r)" using st by (simp add: r(1) region_ok_def ks)
  then show "\<forall>q \<in> set (srr_Derived r # srr_Regions r). region_ok q \<and> GetRegionEpoch q = ?e"
    using newRegions_ok [OF sk(1), of region ?e rids sets] sk(2) ne newRegions_fields [OF v(3), of region ?e sets]
    by (auto simp: r GetRegionEpoch_def)
  show "rg_Id (srr_Derived r) = rg_Id region" "map rg_Id (srr_Regions r) = rids" "rg_Peers (srr_Derived r) = rg_Peers region"
    using newRegions_fields [OF v(3), of region ?e sets] by (simp_all add: r)
  have "map peer_StoreId (newPeers ps (rg_Peers region)) = take (length (newPeers ps (rg_Peers region))) (map peer_StoreId (rg_Peers region))" for ps
    by (rule nth_equalityI) (auto simp: newPeers_def)
  then show "\<forall>q \<in> set (srr_Regions r). map peer_StoreId (rg_Peers q) = take (length (rg_Peers q)) (map peer_StoreId (rg_Peers region))"
    using newRegions_fields [OF v(3), of region ?e sets] by (metis r(2))
qed

subsection \<open>Merges\<close>

lemma ExecCommitMerge_joins:
  assumes m: "ExecCommitMerge (Some t) (Some s) = Inr r" and ok: "region_ok t" "region_ok s"
  shows "in_region (cmr_Region r) x \<longleftrightarrow> in_region t x \<or> in_region s x" "\<not> (in_region t x \<and> in_region s x)"
    "region_ok (cmr_Region r)" "rg_Id (cmr_Region r) = rg_Id t" "rg_Peers (cmr_Region r) = rg_Peers t"
    "ep_Version (GetRegionEpoch (cmr_Region r)) = max (ep_Version (GetRegionEpoch t)) (ep_Version (GetRegionEpoch s)) + 1"
proof -
  have e: "ensureEpoch t = GetRegionEpoch t" by (simp add: ensureEpoch_def GetRegionEpoch_def)
  consider (right) "rg_StartKey s \<noteq> []" "rg_EndKey t = rg_StartKey s" "rg_StartKey (cmr_Region r) = rg_StartKey t" "rg_EndKey (cmr_Region r) = rg_EndKey s"
    | (left) "rg_EndKey s \<noteq> []" "rg_StartKey t = rg_EndKey s" "rg_StartKey (cmr_Region r) = rg_StartKey s" "rg_EndKey (cmr_Region r) = rg_EndKey t"
    using m by (auto simp: ExecCommitMerge_def Let_def split: if_splits)
  then have "(in_region (cmr_Region r) x \<longleftrightarrow> in_region t x \<or> in_region s x) \<and> \<not> (in_region t x \<and> in_region s x) \<and> region_ok (cmr_Region r)"
  proof cases
    case right
    have "rg_StartKey t < rg_StartKey s" using ok(1) right(1,2) by (simp add: region_ok_def)
    then show ?thesis using ok(2) right by (auto simp: in_region_def region_ok_def not_le)
  next
    case left
    have "rg_StartKey s < rg_StartKey t" using ok(2) left(1,2) by (simp add: region_ok_def)
    then show ?thesis using ok(1) left by (auto simp: in_region_def region_ok_def not_le)
  qed
  then show "in_region (cmr_Region r) x \<longleftrightarrow> in_region t x \<or> in_region s x" "\<not> (in_region t x \<and> in_region s x)"
    "region_ok (cmr_Region r)" by blast+
  show "rg_Id (cmr_Region r) = rg_Id t" "rg_Peers (cmr_Region r) = rg_Peers t"
    using m by (auto simp: ExecCommitMerge_def Let_def split: if_splits)
  show "ep_Version (GetRegionEpoch (cmr_Region r)) = max (ep_Version (GetRegionEpoch t)) (ep_Version (GetRegionEpoch s)) + 1"
    using m by (auto simp: ExecCommitMerge_def Let_def e max_def split: if_splits) (auto simp: GetRegionEpoch_def)
qed

lemma merge_after_split:
  assumes "ExecBatchSplit region [k] [rid] sets = Inr r" "k \<noteq> []"
  shows "\<exists>m. ExecCommitMerge (Some (srr_Derived r)) (Some (hd (srr_Regions r))) = Inr m \<and>
    cmr_Region m = region\<lparr>rg_RegionEpoch := Some ((ensureEpoch region)\<lparr>ep_Version := ep_Version (ensureEpoch region) + 2\<rparr>)\<rparr>"
proof -
  let ?e = "(ensureEpoch region)\<lparr>ep_Version := ep_Version (ensureEpoch region) + 1\<rparr>"
  have r: "srr_Derived r = region\<lparr>rg_RegionEpoch := Some ?e, rg_EndKey := k\<rparr>"
    "hd (srr_Regions r) = hd (newRegions region ?e [k] [rid] sets)"
    using assms(1) by (auto simp: ExecBatchSplit_def Let_def split: if_splits option.splits)
  show ?thesis using assms(2) by (auto simp: r ExecCommitMerge_def Let_def ensureEpoch_def GetRegionEpoch_def)
qed

subsection \<open>The split command\<close>

lemma readU64s_put: "readU64s (length ps) (concat (map PutUint64 ps) @ rest) = Inr (ps, rest)"
  by (induction ps) simp_all

lemma readSplitRegions_marshal:
  "marshalSplitRegions rids sets = Some d \<Longrightarrow> length rids = length sets \<Longrightarrow> \<forall>ps \<in> set sets. length ps < 2 ^ 32 \<Longrightarrow>
   readSplitRegions (length rids) (d @ rest) = Inr (zip rids sets)"
proof (induction rids sets arbitrary: d rule: marshalSplitRegions.induct)
  case (3 r rs ps sets)
  obtain d' where d: "marshalSplitRegions rs sets = Some d'"
    "d = PutUint64 r @ PutUint32 (of_nat (length ps)) @ concat (map PutUint64 ps) @ d'"
    using "3.prems"(1) by auto
  have "unat (of_nat (length ps) :: 32 word) = length ps" using "3.prems"(3) by (simp add: unat_of_nat)
  moreover have "readSplitRegions (length rs) (d' @ rest) = Inr (zip rs sets)" using "3.IH" [OF d(1)] "3.prems" by simp
  ultimately show ?case by (simp add: d(2) readU64s_put Let_def)
qed simp_all

lemma length_concat_PutUint64: "length (concat (map PutUint64 ps)) = 8 * length ps"
  by (induction ps) simp_all

lemma marshalSplitRegions_length:
  "marshalSplitRegions rids sets = Some d \<Longrightarrow> length rids = length sets \<Longrightarrow> length d = sum_list (map (\<lambda>ps. 8 + 4 + 8 * length ps) sets)"
proof (induction rids sets arbitrary: d rule: marshalSplitRegions.induct)
  case (3 r rs ps sets)
  then show ?case by (auto simp: length_concat_PutUint64)
qed simp_all

definition split_request_ok :: "SplitAdminRequest \<Rightarrow> bool" where
  "split_request_ok req \<longleftrightarrow> length (sar_NewRegionIDs req) = length (sar_NewPeerIDSets req) \<and> length (sar_SplitKey req) < 2 ^ 32 \<and>
     length (sar_NewRegionIDs req) < 2 ^ 32 \<and> (\<forall>ps \<in> set (sar_NewPeerIDSets req). length ps < 2 ^ 32)"

lemma marshalSplitRegions_Some: "length rids = length sets \<Longrightarrow> \<exists>d. marshalSplitRegions rids sets = Some d"
  by (induction rids sets rule: marshalSplitRegions.induct) auto

lemma SplitAdmin_roundtrip_lemma:
  assumes "split_request_ok req"
  shows "\<exists>d. MarshalSplitAdminRequest req = Some d \<and> IsSplitAdmin d \<and> UnmarshalSplitAdminRequest d = Inr req"
proof -
  obtain d where d: "marshalSplitRegions (sar_NewRegionIDs req) (sar_NewPeerIDSets req) = Some d"
    using marshalSplitRegions_Some assms unfolding split_request_ok_def by blast
  have r: "readSplitRegions (length (sar_NewRegionIDs req)) d = Inr (zip (sar_NewRegionIDs req) (sar_NewPeerIDSets req))"
    using readSplitRegions_marshal [OF d, of "[]"] assms by (simp add: split_request_ok_def)
  have l: "length d = sum_list (map (\<lambda>ps. 8 + 4 + 8 * length ps) (sar_NewPeerIDSets req))"
    using marshalSplitRegions_length [OF d] assms by (simp add: split_request_ok_def)
  have u: "unat (of_nat (length (sar_SplitKey req)) :: 32 word) = length (sar_SplitKey req)"
    "unat (of_nat (length (sar_NewRegionIDs req)) :: 32 word) = length (sar_NewRegionIDs req)"
    using assms by (simp_all add: split_request_ok_def unat_of_nat)
  have z: "map fst (zip (sar_NewRegionIDs req) (sar_NewPeerIDSets req)) = sar_NewRegionIDs req"
    "map snd (zip (sar_NewRegionIDs req) (sar_NewPeerIDSets req)) = sar_NewPeerIDSets req"
    using assms by (simp_all add: split_request_ok_def)
  let ?data = "TagSplitAdmin # PutUint32 (of_nat (length (sar_SplitKey req))) @ sar_SplitKey req @
    PutUint32 (of_nat (length (sar_NewRegionIDs req))) @ d"
  have "MarshalSplitAdminRequest req = Some ?data"
    using l by (simp add: MarshalSplitAdminRequest_def d Let_def)
  moreover have "UnmarshalSplitAdminRequest ?data = Inr req"
    by (simp add: UnmarshalSplitAdminRequest_def Let_def u r z)
  ultimately show ?thesis by (simp add: IsSplitAdmin_def)
qed

lemma applySplitAdminEntry_marshalled:
  assumes "split_request_ok req" "MarshalSplitAdminRequest req = Some d" "en_Data e = d"
  shows "applySplitAdminEntry e p =
    (case ExecBatchSplit (pf_region p) [sar_SplitKey req] (sar_NewRegionIDs req) (sar_NewPeerIDSets req) of
       Inl _ \<Rightarrow> (None, p\<lparr>pf_leaseValid := False\<rparr>)
     | Inr r \<Rightarrow> (Some r, p\<lparr>pf_leaseValid := False, pf_region := srr_Derived r\<rparr>))"
proof -
  have "IsSplitAdmin d" "UnmarshalSplitAdminRequest d = Inr req" using SplitAdmin_roundtrip_lemma [OF assms(1)] assms(2) by auto
  then show ?thesis by (simp add: applySplitAdminEntry_def assms(3) ExecSplitAdmin_def Let_def split: sum.split)
qed

subsection \<open>Where the checker cuts\<close>

definition user_entry :: "entry \<Rightarrow> bool" where
  "user_entry e \<longleftrightarrow> (\<exists>k rest. fst e = EncodeLockKey k @ rest)"

lemma splitKeyOf_user: "splitKeyOf (EncodeLockKey k @ rest) = EncodeLockKey k"
  by (auto simp: splitKeyOf_def DecodeKey_def EncodeLockKey_def bytes_codec.dec_enc DecodeUint64Desc_def)

lemma mvcc_user_entries:
  assumes "mvcc_ok st" "c \<in> {CFDefault, CFWrite, CFLock}" "e \<in> set (st c)"
  shows "user_entry e"
proof -
  have pair: "\<exists>k rest. d = EncodeLockKey k @ rest" if p: "dec_pair DecodeBytes DecodeUint64Desc d = Inr p" for d p
    using p bytes_codec.dec_canonical by (fastforce simp: dec_pair_def EncodeLockKey_def split: sum.splits)
  consider "value_entry_ok e" | "write_entry_ok e" | "lock_entry_ok e"
    using assms by (auto simp: mvcc_ok_def write_cf_ok_def list_all_iff)
  then show ?thesis
  proof cases
    case 1
    then show ?thesis using pair by (fastforce simp: value_entry_ok_def user_entry_def split: sum.splits)
  next
    case 2
    then show ?thesis using pair by (fastforce simp: write_entry_ok_def user_entry_def split: sum.splits)
  next
    case 3
    then show ?thesis using bytes_codec.dec_canonical [of "fst e"]
      by (fastforce simp: lock_entry_ok_def user_entry_def EncodeLockKey_def split: sum.splits)
  qed
qed

text \<open>A boundary of a region: none, or an encoded user key.\<close>

definition boundary :: "bytes \<Rightarrow> bool" where
  "boundary b \<longleftrightarrow> b = [] \<or> (\<exists>k. b = EncodeLockKey k)"

definition in_range :: "bytes \<Rightarrow> bytes \<Rightarrow> bytes \<Rightarrow> bool" where
  "in_range s e k \<longleftrightarrow> s \<le> k \<and> (e = [] \<or> k < e)"

lemma lock_key_prefix_le: "EncodeLockKey k \<le> EncodeLockKey k @ rest"
  by (metis append_Nil2 bytes_codec.enc_append_less leI less_asym' nil_less not_less_iff_gr_or_eq EncodeLockKey_def)

lemma splitKeyOf_in_range:
  assumes "user_entry e" "boundary s" "in_range s t (fst e)"
  shows "in_range s t (splitKeyOf (fst e))" "\<exists>k. splitKeyOf (fst e) = EncodeLockKey k"
proof -
  obtain k rest where e: "fst e = EncodeLockKey k @ rest" using assms(1) by (auto simp: user_entry_def)
  have sk: "splitKeyOf (fst e) = EncodeLockKey k" by (simp add: e splitKeyOf_user)
  then show "\<exists>k. splitKeyOf (fst e) = EncodeLockKey k" by blast
  have le: "EncodeLockKey k \<le> fst e" by (simp add: e lock_key_prefix_le)
  have "s \<le> EncodeLockKey k"
  proof (cases "s = []")
    case False
    then obtain j where j: "s = EncodeLockKey j" using assms(2) by (auto simp: boundary_def)
    have "\<not> k < j"
    proof
      assume "k < j"
      then have "EncodeLockKey k @ rest < EncodeLockKey j @ []" by (simp add: EncodeLockKey_def bytes_codec.enc_append_less del: append_Nil2)
      then show False using assms(3) by (auto simp: in_range_def e j)
    qed
    then show ?thesis by (simp add: j not_less EncodeLockKey_def) (metis bytes_codec.enc_less not_le)
  qed simp
  then show "in_range s t (splitKeyOf (fst e))" using le assms(3) by (auto simp: in_range_def sk)
qed

lemma scanCF_key:
  assumes "\<forall>e \<in> set es. P (splitKeyOf (fst e))" "\<forall>k. snd acc = Some k \<longrightarrow> P k"
    "scanCF cfg es acc = Inl acc' \<or> scanCF cfg es acc = Inr acc'"
  shows "\<forall>k. snd acc' = Some k \<longrightarrow> P k"
  using assms
proof (induction es arbitrary: acc)
  case (Cons e es)
  let ?t = "fst acc + of_nat (length (fst e) + length (snd e))"
  let ?k = "if snd acc = None \<and> scc_SplitSize cfg div 2 \<le> ?t then Some (splitKeyOf (fst e)) else snd acc"
  have k: "\<forall>k. ?k = Some k \<longrightarrow> P k" using Cons.prems(1,2) by auto
  show ?case
  proof (cases "scc_MaxSize cfg \<le> ?t")
    case True
    then have "acc' = (?t, ?k)" using Cons.prems(3) by (auto simp: Let_def)
    then show ?thesis using k by simp
  next
    case False
    then have "scanCF cfg es (?t, ?k) = Inl acc' \<or> scanCF cfg es (?t, ?k) = Inr acc'" using Cons.prems(3) by (simp add: Let_def)
    then show ?thesis using Cons.IH [of "(?t, ?k)"] Cons.prems(1) k by simp
  qed
qed auto

lemma scanCFs_key:
  assumes "\<And>c e. c \<in> set cs \<Longrightarrow> e \<in> set (eng c) \<Longrightarrow> in_range s t (fst e) \<Longrightarrow> P (splitKeyOf (fst e))" "\<forall>k. snd acc = Some k \<longrightarrow> P k"
  shows "\<forall>k. snd (scanCFs cfg eng s t cs acc) = Some k \<longrightarrow> P k"
  using assms
proof (induction cs arbitrary: acc)
  case (Cons c cs)
  let ?es = "it_rest (SeekToFirst (NewIterator (eng c) \<lparr>opt_LowerBound = Some s, opt_UpperBound = (if t \<noteq> [] then Some t else None)\<rparr>))"
  have es: "\<forall>e \<in> set ?es. P (splitKeyOf (fst e))"
    using Cons.prems(1) [of c] by (auto simp: NewIterator_def SeekToFirst_def in_bounds_def it_all_def in_range_def)
  show ?case
  proof (cases "scanCF cfg ?es acc")
    case (Inl a)
    then show ?thesis using scanCF_key [OF es Cons.prems(2), of cfg a] by (simp add: Let_def)
  next
    case (Inr a)
    have "P (splitKeyOf (fst e))" if "d \<in> set cs" "e \<in> set (eng d)" "in_range s t (fst e)" for d e
      using Cons.prems(1) [of d e] that by simp
    moreover have "\<forall>k. snd a = Some k \<longrightarrow> P k" using scanCF_key [OF es Cons.prems(2), of cfg a] Inr by simp
    ultimately have "\<forall>k. snd (scanCFs cfg eng s t cs a) = Some k \<longrightarrow> P k" by (rule Cons.IH)
    then show ?thesis by (simp add: Let_def Inr)
  qed
qed simp

subsection \<open>Properties\<close>

definition sampleRegionFull :: Region where
  "sampleRegionFull = \<lparr>rg_Id = 1, rg_StartKey = [], rg_EndKey = [], rg_RegionEpoch = Some \<lparr>ep_ConfVer = 1, ep_Version = 1\<rparr>,
     rg_Peers = [\<lparr>peer_Id = 1, peer_StoreId = 1, peer_Role = 0\<rparr>, \<lparr>peer_Id = 2, peer_StoreId = 2, peer_Role = 0\<rparr>]\<rparr>"

definition samplePeerCore :: PeerCore where
  "samplePeerCore = \<lparr>pf_regionID = 1, pf_peerID = 1, pf_region = sampleRegionFull, pf_stopped = False, pf_leaseValid = True\<rparr>"

definition sampleSplitRequest :: SplitAdminRequest where
  "sampleSplitRequest = \<lparr>sar_SplitKey = [5], sar_NewRegionIDs = [1000], sar_NewPeerIDSets = [[1001, 1002]]\<rparr>"

definition sampleSplitEntry :: Entry where
  "sampleSplitEntry = \<lparr>en_Type = EntryNormal, en_Term = 1, en_Index = 6,
     en_Data = (case MarshalSplitAdminRequest sampleSplitRequest of None \<Rightarrow> [] | Some d \<Rightarrow> d)\<rparr>"



text \<open>C35: Merging two adjacent regions joins their key ranges without overlap, with a version above both, and merging the two halves
  of a split gives the region back with a version raised by two.\<close>

theorem merge_joins:
  assumes "ExecCommitMerge (Some t) (Some s) = Inr r" "region_ok t" "region_ok s"
    "ExecBatchSplit region [k] [rid] sets = Inr sp" "k \<noteq> []"
  shows "(in_region (cmr_Region r) x \<longleftrightarrow> in_region t x \<or> in_region s x) \<and> \<not> (in_region t x \<and> in_region s x) \<and>
    region_ok (cmr_Region r) \<and> rg_Id (cmr_Region r) = rg_Id t \<and>
    ep_Version (GetRegionEpoch (cmr_Region r)) = max (ep_Version (GetRegionEpoch t)) (ep_Version (GetRegionEpoch s)) + 1 \<and>
    (\<exists>m. ExecCommitMerge (Some (srr_Derived sp)) (Some (hd (srr_Regions sp))) = Inr m \<and>
       cmr_Region m = region\<lparr>rg_RegionEpoch := Some ((GetRegionEpoch region)\<lparr>ep_Version := ep_Version (GetRegionEpoch region) + 2\<rparr>)\<rparr>)"
proof -
  have e: "ensureEpoch region = GetRegionEpoch region" by (simp add: ensureEpoch_def GetRegionEpoch_def)
  show ?thesis using ExecCommitMerge_joins [OF assms(1-3)] merge_after_split [OF assms(4,5)] unfolding e by blast
qed

definition sampleLeft :: Region where
  "sampleLeft = sampleRegionFull\<lparr>rg_EndKey := [5]\<rparr>"

definition sampleRight :: Region where
  "sampleRight = sampleRegionFull\<lparr>rg_Id := 2, rg_StartKey := [5]\<rparr>"

theorem merge_joins_witness:
  "\<exists>r. ExecCommitMerge (Some sampleLeft) (Some sampleRight) = Inr r \<and> in_region (cmr_Region r) [9] \<and>
     ep_Version (GetRegionEpoch (cmr_Region r)) = 2"
proof -
  obtain r where r: "ExecCommitMerge (Some sampleLeft) (Some sampleRight) = Inr r"
    by (simp add: ExecCommitMerge_def Let_def sampleLeft_def sampleRight_def sampleRegionFull_def)
  obtain sp where sp: "ExecBatchSplit sampleRegionFull [[5]] [1000] [] = Inr sp"
    by (simp add: ExecBatchSplit_def Let_def sampleRegionFull_def)
  have ok: "region_ok sampleLeft" "region_ok sampleRight" by (simp_all add: region_ok_def sampleLeft_def sampleRight_def sampleRegionFull_def)
  have "in_region sampleRight [9]" by (simp add: in_region_def sampleRight_def sampleRegionFull_def)
  moreover have "ep_Version (GetRegionEpoch sampleLeft) = 1" "ep_Version (GetRegionEpoch sampleRight) = 1"
    by (simp_all add: GetRegionEpoch_def sampleLeft_def sampleRight_def sampleRegionFull_def)
  ultimately show ?thesis using merge_joins [OF r ok sp, of "[9]"] r by auto
qed

text \<open>C36: Through any sequence of membership changes the peers of a region have distinct identifiers, exactly those the changes
  add and do not remove; the configuration version counts the changes, the version and the key range stay, and the peer stops exactly
  when one of the changes removes it.\<close>

theorem conf_changes_tracked:
  assumes "distinct (peer_ids (pf_region p))" "p' = runConfChanges cs p"
  shows "distinct (peer_ids (pf_region p')) \<and>
    set (peer_ids (pf_region p')) = fold (\<lambda>(t, n, _). conf_effect (t, n)) cs (set (peer_ids (pf_region p))) \<and>
    ep_ConfVer (GetRegionEpoch (pf_region p')) = ep_ConfVer (GetRegionEpoch (pf_region p)) + of_nat (length cs) \<and>
    ep_Version (GetRegionEpoch (pf_region p')) = ep_Version (GetRegionEpoch (pf_region p)) \<and>
    in_region (pf_region p') = in_region (pf_region p) \<and>
    (pf_stopped p' \<longleftrightarrow> pf_stopped p \<or> (\<exists>i c. (ConfChangeRemoveNode, pf_peerID p, i, c) \<in> set cs))"
  by (rule runConfChanges_effect [OF assms])

theorem conf_changes_tracked_witness:
  "set (peer_ids (pf_region (runConfChanges [(ConfChangeAddNode, 3, 7, EncodePeerContext 3), (ConfChangeRemoveNode, 1, 8, [])] samplePeerCore))) = {2, 3}"
proof -
  have "distinct (peer_ids (pf_region samplePeerCore))" by (simp add: peer_ids_def samplePeerCore_def sampleRegionFull_def)
  from conf_changes_tracked [OF this refl, of "[(ConfChangeAddNode, 3, 7, EncodePeerContext 3), (ConfChangeRemoveNode, 1, 8, [])]"]
  have e: "set (peer_ids (pf_region (runConfChanges [(ConfChangeAddNode, 3, 7, EncodePeerContext 3), (ConfChangeRemoveNode, 1, 8, [])] samplePeerCore))) =
    insert 3 (set (peer_ids (pf_region samplePeerCore))) - {1}" by (simp del: runConfChanges.simps)
  show ?thesis unfolding e by (auto simp: peer_ids_def samplePeerCore_def sampleRegionFull_def)
qed

text \<open>C37: The split checker proposes a key the region can be split at. On well-formed column families and between region boundaries, the proposed
  key is the encoding of a user key inside the region, and the split at that key succeeds unless it is the first key of
  the region; then it is refused and the region stays as it is.\<close>

theorem split_check_key:
  assumes "mvcc_ok eng" "boundary (rg_StartKey region)"
    "task = \<lparr>sct_RegionID = rg_Id region, sct_StartKey = rg_StartKey region, sct_EndKey = rg_EndKey region\<rparr>"
    "scr_SplitKey (checkRegion cfg eng task) = Some k"
  shows "in_region region k \<and> (\<exists>u. k = EncodeLockKey u) \<and> scc_SplitSize cfg \<le> scr_RegionSize (checkRegion cfg eng task) \<and>
    (if k = rg_StartKey region then ExecBatchSplit region [k] [rid] sets = Inl ErrSplitBeforeStart
     else \<exists>r. ExecBatchSplit region [k] [rid] sets = Inr r)"
proof -
  let ?s = "rg_StartKey region" let ?t = "rg_EndKey region"
  have sc: "snd (scanRegionSize cfg eng ?s ?t) = Some k" "scc_SplitSize cfg \<le> scr_RegionSize (checkRegion cfg eng task)"
    using assms(3,4) by (auto simp: checkRegion_def split: prod.splits if_splits)
  have "\<forall>k. snd (scanCFs cfg eng ?s ?t [CFDefault, CFWrite, CFLock] (0, None)) = Some k \<longrightarrow> in_range ?s ?t k \<and> (\<exists>u. k = EncodeLockKey u)"
  proof (rule scanCFs_key)
    fix c e assume "c \<in> set [CFDefault, CFWrite, CFLock]" "e \<in> set (eng c)" "in_range ?s ?t (fst e)"
    then show "in_range ?s ?t (splitKeyOf (fst e)) \<and> (\<exists>u. splitKeyOf (fst e) = EncodeLockKey u)"
      using splitKeyOf_in_range [OF mvcc_user_entries [OF assms(1)] assms(2)] by auto
  qed simp
  then have k: "in_range ?s ?t k" "\<exists>u. k = EncodeLockKey u" using sc(1) by (auto simp: scanRegionSize_def)
  obtain u where u: "k = EncodeLockKey u" using k(2) by blast
  have "k \<noteq> []" using bytes_codec.dec_enc [of u "[]"] by (auto simp: u EncodeLockKey_def DecodeBytes_def DecodeBytes_loop.simps [of "[]" "[]"] encGroupSize_def)
  then have "if k = ?s then ExecBatchSplit region [k] [rid] sets = Inl ErrSplitBeforeStart
     else \<exists>r. ExecBatchSplit region [k] [rid] sets = Inr r"
    using k(1) by (auto simp: ExecBatchSplit_def in_range_def Let_def)
  then show ?thesis using k sc(2) by (simp add: in_region_def in_range_def)
qed

definition sampleDataEngine :: store where
  "sampleDataEngine = (\<lambda>_. [])(CFDefault := [(EncodeKey [1] 5, [9])])"

theorem split_check_key_witness:
  "\<exists>r. ExecBatchSplit sampleRegionFull [EncodeLockKey [1]] [1000] [] = Inr r"
proof -
  let ?cfg = "\<lparr>scc_SplitSize = 1, scc_MaxSize = 1000\<rparr>"
  let ?task = "\<lparr>sct_RegionID = rg_Id sampleRegionFull, sct_StartKey = rg_StartKey sampleRegionFull, sct_EndKey = rg_EndKey sampleRegionFull\<rparr>"
  have ok: "mvcc_ok sampleDataEngine"
    using key_codec.pair.dec_enc [of "([1], 5)" "[]"]
    by (simp add: mvcc_ok_def sampleDataEngine_def write_cf_ok_def cf_sorted_def value_entry_ok_def cf_names EncodeKey_pair)
  have b: "boundary (rg_StartKey sampleRegionFull)" by (simp add: boundary_def sampleRegionFull_def)
  have l: "length (EncodeKey [1] 5) = 17" by (simp add: EncodeKey_def EncodeUint64Desc_def EncodeBytes_def EncodeBytes_loop.simps encGroupSize_def)
  have k: "splitKeyOf (EncodeKey [1] 5) = EncodeLockKey [1]" by (simp add: splitKeyOf_def)
  have "scr_SplitKey (checkRegion ?cfg sampleDataEngine ?task) = Some (EncodeLockKey [1])"
    by (simp add: checkRegion_def scanRegionSize_def sampleDataEngine_def NewIterator_def SeekToFirst_def in_bounds_def it_all_def
        sampleRegionFull_def cf_names l k Let_def)
  moreover have "EncodeLockKey [1] \<noteq> rg_StartKey sampleRegionFull"
    by (simp add: sampleRegionFull_def EncodeLockKey_def EncodeBytes_def EncodeBytes_loop.simps encGroupSize_def)
  ultimately show ?thesis using split_check_key [OF ok b refl, of ?cfg "EncodeLockKey [1]" 1000 "[]"] by simp
qed

end
