(* ===== verification/PdMeta.thy ===== *)
theory PdMeta
  imports Codec Metapb
begin

section \<open>Cluster metadata and allocators of the placement driver\<close>

text \<open>
  Models the helper types of \<^verbatim>\<open>internal/pd/server.go\<close> (\<^verbatim>\<open>MetadataStore\<close> with the store state machine,
  \<^verbatim>\<open>TSOAllocator\<close>, \<^verbatim>\<open>IDAllocator\<close>, \<^verbatim>\<open>GCSafePointManager\<close>) and the buffers \<^verbatim>\<open>tso_buffer.go\<close> and \<^verbatim>\<open>id_buffer.go\<close>
  in front of them. A Go map is a partial function; a loop over a map takes the iteration order as an argument, a list
  of its keys. Readings of the clock are arguments: nanoseconds for heartbeats, milliseconds for
  timestamps. Go's \<^verbatim>\<open>int\<close> and \<^verbatim>\<open>int64\<close> are unbounded here: request counts are 32-bit, so the sums stay far below
  the width.

  The lemmas show that the timestamps of an allocator are distinct and increasing for every behaviour of the clock and
  fit their 18 bits for request counts below \<open>2 ^ 18\<close>, that the buffers hand out each reserved
  timestamp and identifier once, that region epochs and the safe point never go back, and what each state of a store
  means.
\<close>

subsection \<open>Metadata store\<close>

datatype StoreState = StoreStateUp | StoreStateDisconnected | StoreStateDown | StoreStateTombstone

record MetaStore =
  ms_Id :: u64
  ms_Address :: string

record StoreStats =
  sts_StoreId :: u64
  sts_RegionCount :: nat

record MetadataStore =
  md_bootstrapped :: bool
  md_stores :: "u64 \<rightharpoonup> MetaStore"
  md_regions :: "u64 \<rightharpoonup> Region"
  md_leaders :: "u64 \<rightharpoonup> Peer"
  md_storeStats :: "u64 \<rightharpoonup> StoreStats option"
  md_storeLastHeartbeat :: "u64 \<rightharpoonup> int"
  md_storeStates :: "u64 \<rightharpoonup> StoreState"
  md_disconnectDuration :: int
  md_downDuration :: int

definition nanosPerSecond :: int where "nanosPerSecond = 1000000000"

definition NewMetadataStore :: "int \<Rightarrow> int \<Rightarrow> MetadataStore" where
  "NewMetadataStore disconnectDuration downDuration =
     \<lparr>md_bootstrapped = False, md_stores = Map.empty, md_regions = Map.empty, md_leaders = Map.empty,
      md_storeStats = Map.empty, md_storeLastHeartbeat = Map.empty, md_storeStates = Map.empty,
      md_disconnectDuration = (if disconnectDuration = 0 then 30 * nanosPerSecond else disconnectDuration),
      md_downDuration = (if downDuration = 0 then 30 * 60 * nanosPerSecond else downDuration)\<rparr>"

definition SetBootstrapped :: "bool \<Rightarrow> MetadataStore \<Rightarrow> MetadataStore" where
  "SetBootstrapped v m = m\<lparr>md_bootstrapped := v\<rparr>"

definition PutStore :: "MetaStore option \<Rightarrow> MetadataStore \<Rightarrow> MetadataStore" where
  "PutStore store m =
     (case store of None \<Rightarrow> m | Some st \<Rightarrow> m\<lparr>md_stores := (md_stores m)(ms_Id st \<mapsto> st)\<rparr>)"

definition GetAllStores :: "u64 list \<Rightarrow> MetadataStore \<Rightarrow> MetaStore list" where
  "GetAllStores order m = List.map_filter (md_stores m) order"

definition UpdateStoreStats :: "int \<Rightarrow> u64 \<Rightarrow> StoreStats option \<Rightarrow> MetadataStore \<Rightarrow> MetadataStore" where
  "UpdateStoreStats now storeID stats m =
     (let m = m\<lparr>md_storeStats := (md_storeStats m)(storeID \<mapsto> stats),
                md_storeLastHeartbeat := (md_storeLastHeartbeat m)(storeID \<mapsto> now)\<rparr> in
      if md_storeStates m storeID = None \<or> md_storeStates m storeID \<noteq> Some StoreStateTombstone
      then m\<lparr>md_storeStates := (md_storeStates m)(storeID \<mapsto> StoreStateUp)\<rparr> else m)"

definition IsStoreAlive :: "int \<Rightarrow> u64 \<Rightarrow> MetadataStore \<Rightarrow> bool" where
  "IsStoreAlive now storeID m =
     (case md_storeStates m storeID of
        None \<Rightarrow>
          (case md_storeLastHeartbeat m storeID of
             None \<Rightarrow> False
           | Some t \<Rightarrow> now - t < md_disconnectDuration m)
      | Some state \<Rightarrow> state = StoreStateUp \<or> state = StoreStateDisconnected)"

definition GetDeadStores :: "u64 list \<Rightarrow> MetadataStore \<Rightarrow> u64 list" where
  "GetDeadStores order m = filter (\<lambda>storeID. md_storeStates m storeID = Some StoreStateDown) order"

text \<open>A missing key reads as the zero value, which is the Up state.\<close>

definition GetStoreState :: "u64 \<Rightarrow> MetadataStore \<Rightarrow> StoreState" where
  "GetStoreState storeID m = (case md_storeStates m storeID of None \<Rightarrow> StoreStateUp | Some st \<Rightarrow> st)"

definition SetStoreState :: "u64 \<Rightarrow> StoreState \<Rightarrow> MetadataStore \<Rightarrow> MetadataStore" where
  "SetStoreState storeID state m = m\<lparr>md_storeStates := (md_storeStates m)(storeID \<mapsto> state)\<rparr>"

definition IsStoreSchedulable :: "u64 \<Rightarrow> MetadataStore \<Rightarrow> bool" where
  "IsStoreSchedulable storeID m \<longleftrightarrow> GetStoreState storeID m = StoreStateUp"

definition nextStoreState :: "int \<Rightarrow> u64 \<Rightarrow> MetadataStore \<Rightarrow> StoreState" where
  "nextStoreState now storeID m =
     (if GetStoreState storeID m = StoreStateTombstone then StoreStateTombstone
      else
        (case md_storeLastHeartbeat m storeID of
           None \<Rightarrow> StoreStateDown
         | Some t \<Rightarrow>
             let elapsed = now - t in
             if md_downDuration m \<le> elapsed then StoreStateDown
             else if md_disconnectDuration m \<le> elapsed then StoreStateDisconnected
             else StoreStateUp))"

fun updateStoreStates :: "int \<Rightarrow> u64 list \<Rightarrow> MetadataStore \<Rightarrow> MetadataStore" where
  "updateStoreStates now [] m = m"
| "updateStoreStates now (storeID # order) m =
     updateStoreStates now order
       (if GetStoreState storeID m = StoreStateTombstone then m
        else m\<lparr>md_storeStates := (md_storeStates m)(storeID \<mapsto> nextStoreState now storeID m)\<rparr>)"

definition GetRegionCountPerStore :: "u64 list \<Rightarrow> MetadataStore \<Rightarrow> u64 \<Rightarrow> int" where
  "GetRegionCountPerStore order m =
     fold (\<lambda>region counts. fold (\<lambda>peer counts. counts(peer_StoreId peer := counts (peer_StoreId peer) + 1))
        (rg_Peers region) counts) (List.map_filter (md_regions m) order) (\<lambda>_. 0)"

definition GetLeaderCountPerStore :: "u64 list \<Rightarrow> MetadataStore \<Rightarrow> u64 \<Rightarrow> int" where
  "GetLeaderCountPerStore order m =
     fold (\<lambda>leader counts. counts(peer_StoreId leader := counts (peer_StoreId leader) + 1))
       (List.map_filter (md_leaders m) order) (\<lambda>_. 0)"

definition staleEpoch :: "RegionEpoch option \<Rightarrow> RegionEpoch option \<Rightarrow> bool" where
  "staleEpoch stored incoming =
     (case (stored, incoming) of
        (Some s, Some i) \<Rightarrow> ep_Version i < ep_Version s \<or> ep_ConfVer i < ep_ConfVer s
      | _ \<Rightarrow> False)"

definition PutRegion :: "Region option \<Rightarrow> Peer option \<Rightarrow> MetadataStore \<Rightarrow> MetadataStore" where
  "PutRegion region leader m =
     (case region of
        None \<Rightarrow> m
      | Some r \<Rightarrow>
          if (case md_regions m (rg_Id r) of
                None \<Rightarrow> False
              | Some existing \<Rightarrow> staleEpoch (rg_RegionEpoch existing) (rg_RegionEpoch r))
          then m
          else
            let m = m\<lparr>md_regions := (md_regions m)(rg_Id r \<mapsto> r)\<rparr> in
            (case leader of None \<Rightarrow> m | Some l \<Rightarrow> m\<lparr>md_leaders := (md_leaders m)(rg_Id r \<mapsto> l)\<rparr>))"

definition GetRegionByID :: "u64 \<Rightarrow> MetadataStore \<Rightarrow> Region option \<times> Peer option" where
  "GetRegionByID regionID m = (md_regions m regionID, md_leaders m regionID)"

fun GetRegionByKey_loop :: "bytes \<Rightarrow> u64 list \<Rightarrow> MetadataStore \<Rightarrow> Region option \<times> Peer option" where
  "GetRegionByKey_loop encodedKey [] m = (None, None)"
| "GetRegionByKey_loop encodedKey (regionID # order) m =
     (case md_regions m regionID of
        None \<Rightarrow> GetRegionByKey_loop encodedKey order m
      | Some region \<Rightarrow>
          if rg_StartKey region \<noteq> [] \<and> encodedKey < rg_StartKey region then GetRegionByKey_loop encodedKey order m
          else if rg_EndKey region \<noteq> [] \<and> rg_EndKey region \<le> encodedKey then GetRegionByKey_loop encodedKey order m
          else (Some region, md_leaders m regionID))"

definition GetRegionByKey :: "u64 list \<Rightarrow> bytes \<Rightarrow> MetadataStore \<Rightarrow> Region option \<times> Peer option" where
  "GetRegionByKey order key m = GetRegionByKey_loop (EncodeBytes [] key) order m"

subsection \<open>Timestamps\<close>

record Timestamp =
  ts_Physical :: int
  ts_Logical :: int

record TSOAllocator =
  tso_physical :: int
  tso_logical :: int

definition NewTSOAllocator :: TSOAllocator where
  "NewTSOAllocator = \<lparr>tso_physical = 0, tso_logical = 0\<rparr>"

datatype pd_error =
    ErrTSOCount
  | ErrNotLeader
  | ErrPDTimeout
  | ErrPDEncoding
  | ErrPDCommandType
  | ErrPDMissingField
  | ErrPDShortResult
  | ErrPDAlreadyBootstrapped

text \<open>The clock is read once, and a second time when the logical part overflows.\<close>

definition TSO_Allocate :: "int \<Rightarrow> int \<Rightarrow> int \<Rightarrow> TSOAllocator \<Rightarrow> (pd_error + Timestamp) \<times> TSOAllocator" where
  "TSO_Allocate now now2 count t =
     (if count \<le> 0 then (Inl ErrTSOCount, t)
      else
        let t = (if tso_physical t < now then \<lparr>tso_physical = now, tso_logical = 0\<rparr> else t);
            t = t\<lparr>tso_logical := tso_logical t + count\<rparr>;
            t = (if 2 ^ 18 \<le> tso_logical t
                 then
                   let nxt = tso_physical t + 1; nxt = (if nxt \<le> now2 then now2 else nxt) in
                   \<lparr>tso_physical = nxt, tso_logical = count\<rparr>
                 else t) in
        (Inr \<lparr>ts_Physical = tso_physical t, ts_Logical = tso_logical t\<rparr>, t))"

definition tsoBatchSize :: int where "tsoBatchSize = 1000"

record TSOBuffer =
  tb_physical :: int
  tb_logical :: int
  tb_remain :: int

definition NewTSOBuffer :: TSOBuffer where
  "NewTSOBuffer = \<lparr>tb_physical = 0, tb_logical = 0, tb_remain = 0\<rparr>"

text \<open>A refill proposes a batch through raft; \<open>reply\<close> is what the proposal returned: the last timestamp of the
  batch, or an error.\<close>

definition TSO_refill :: "int \<Rightarrow> pd_error + Timestamp \<Rightarrow> TSOBuffer \<Rightarrow> (pd_error + unit) \<times> TSOBuffer" where
  "TSO_refill batchSize reply b =
     (case reply of
        Inl e \<Rightarrow> (Inl e, b)
      | Inr ts \<Rightarrow> (Inr (), \<lparr>tb_physical = ts_Physical ts, tb_logical = ts_Logical ts - batchSize, tb_remain = batchSize\<rparr>))"

definition TSO_serve :: "int \<Rightarrow> TSOBuffer \<Rightarrow> Timestamp \<times> TSOBuffer" where
  "TSO_serve count b =
     (let b = b\<lparr>tb_logical := tb_logical b + count, tb_remain := tb_remain b - count\<rparr> in
      (\<lparr>ts_Physical = tb_physical b, ts_Logical = tb_logical b\<rparr>, b))"

text \<open>\<open>propose n\<close> proposes the allocation of \<open>n\<close> timestamps.\<close>

definition GetTS ::
  "(int \<Rightarrow> 's \<Rightarrow> (pd_error + Timestamp) \<times> 's) \<Rightarrow> int \<Rightarrow> TSOBuffer \<times> 's \<Rightarrow> (pd_error + Timestamp) \<times> TSOBuffer \<times> 's"
where
  "GetTS propose count bs =
     (let (b, s) = bs; count = (if count \<le> 0 then 1 else count) in
      if tb_remain b < count
      then
        let batchSize = (if tsoBatchSize < count then count else tsoBatchSize); (reply, s) = propose batchSize s in
        (case TSO_refill batchSize reply b of
           (Inl e, b) \<Rightarrow> (Inl e, b, s)
         | (Inr _, b) \<Rightarrow> let (ts, b) = TSO_serve count b in (Inr ts, b, s))
      else let (ts, b) = TSO_serve count b in (Inr ts, b, s))"

definition TSOBuffer_Reset :: "TSOBuffer \<Rightarrow> TSOBuffer" where
  "TSOBuffer_Reset b = \<lparr>tb_physical = 0, tb_logical = 0, tb_remain = 0\<rparr>"

subsection \<open>Identifiers\<close>

record IDAllocator =
  ida_nextID :: u64

definition NewIDAllocator :: IDAllocator where
  "NewIDAllocator = \<lparr>ida_nextID = 1000\<rparr>"

definition ID_Alloc :: "IDAllocator \<Rightarrow> u64 \<times> IDAllocator" where
  "ID_Alloc a = (ida_nextID a, a\<lparr>ida_nextID := ida_nextID a + 1\<rparr>)"

text \<open>The loop of \<^verbatim>\<open>applyCommand\<close> that allocates a batch and keeps the last identifier.\<close>

fun ID_AllocBatch :: "nat \<Rightarrow> u64 \<Rightarrow> IDAllocator \<Rightarrow> u64 \<times> IDAllocator" where
  "ID_AllocBatch 0 lastID a = (lastID, a)"
| "ID_AllocBatch (Suc n) lastID a = (let (newID, a) = ID_Alloc a in ID_AllocBatch n newID a)"

definition idBatchSize :: nat where "idBatchSize = 100"

record IDBuffer =
  ib_nextID :: u64
  ib_endID :: u64

definition NewIDBuffer :: IDBuffer where
  "NewIDBuffer = \<lparr>ib_nextID = 0, ib_endID = 0\<rparr>"

definition ID_refill :: "pd_error + bytes \<Rightarrow> IDBuffer \<Rightarrow> (pd_error + unit) \<times> IDBuffer" where
  "ID_refill reply b =
     (case reply of
        Inl e \<Rightarrow> (Inl e, b)
      | Inr result \<Rightarrow>
          if length result < 8 then (Inl ErrPDShortResult, b)
          else
            let lastID = Uint64 (take 8 result) in
            (Inr (), \<lparr>ib_nextID = lastID - of_nat idBatchSize + 1, ib_endID = lastID + 1\<rparr>))"

definition IDBuffer_Alloc ::
  "(nat \<Rightarrow> 's \<Rightarrow> (pd_error + bytes) \<times> 's) \<Rightarrow> IDBuffer \<times> 's \<Rightarrow> (pd_error + u64) \<times> IDBuffer \<times> 's"
where
  "IDBuffer_Alloc propose bs =
     (let (b, s) = bs in
      if ib_endID b \<le> ib_nextID b
      then
        let (reply, s) = propose idBatchSize s in
        (case ID_refill reply b of
           (Inl e, b) \<Rightarrow> (Inl e, b, s)
         | (Inr _, b) \<Rightarrow> (Inr (ib_nextID b), b\<lparr>ib_nextID := ib_nextID b + 1\<rparr>, s))
      else (Inr (ib_nextID b), b\<lparr>ib_nextID := ib_nextID b + 1\<rparr>, s))"

definition IDBuffer_Reset :: "IDBuffer \<Rightarrow> IDBuffer" where
  "IDBuffer_Reset b = \<lparr>ib_nextID = 0, ib_endID = 0\<rparr>"

subsection \<open>The GC safe point\<close>

record GCSafePointManager =
  gcm_safePoint :: u64

definition NewGCSafePointManager :: GCSafePointManager where
  "NewGCSafePointManager = \<lparr>gcm_safePoint = 0\<rparr>"

definition UpdateSafePoint :: "u64 \<Rightarrow> GCSafePointManager \<Rightarrow> u64 \<times> GCSafePointManager" where
  "UpdateSafePoint newSP g =
     (let g = (if gcm_safePoint g < newSP then g\<lparr>gcm_safePoint := newSP\<rparr> else g) in (gcm_safePoint g, g))"

subsection \<open>Timestamps are handed out once\<close>

definition ts_value :: "Timestamp \<Rightarrow> int" where
  "ts_value ts = ts_Physical ts * 2 ^ 18 + ts_Logical ts"

definition tso_value :: "TSOAllocator \<Rightarrow> int" where
  "tso_value t = tso_physical t * 2 ^ 18 + tso_logical t"

definition tso_ok :: "TSOAllocator \<Rightarrow> bool" where
  "tso_ok t \<longleftrightarrow> 0 \<le> tso_logical t \<and> tso_logical t < 2 ^ 18"

lemma TSO_Allocate_fresh:
  assumes "tso_ok t" "0 < count" "count < 2 ^ 18"
  obtains ts t' where "TSO_Allocate now now2 count t = (Inr ts, t')" "tso_ok t'"
    "tso_value t + count \<le> ts_value ts" "ts_value ts = tso_value t'" "0 < ts_Logical ts" "ts_Logical ts < 2 ^ 18"
proof -
  obtain ts t' where e: "TSO_Allocate now now2 count t = (Inr ts, t')"
    using assms by (cases "TSO_Allocate now now2 count t") (auto simp: TSO_Allocate_def Let_def)
  moreover have "tso_ok t' \<and> tso_value t + count \<le> ts_value ts \<and> ts_value ts = tso_value t' \<and>
      0 < ts_Logical ts \<and> ts_Logical ts < 2 ^ 18"
    using assms e by (auto simp: TSO_Allocate_def Let_def tso_ok_def tso_value_def ts_value_def split: if_splits)
  ultimately show thesis using that by blast
qed

definition tb_value :: "TSOBuffer \<Rightarrow> int" where
  "tb_value b = tb_physical b * 2 ^ 18 + tb_logical b"

text \<open>What is left in the buffer lies above everything served and below what the allocator still hands out.\<close>

definition tb_inv :: "int \<Rightarrow> TSOBuffer \<Rightarrow> TSOAllocator \<Rightarrow> bool" where
  "tb_inv served b t \<longleftrightarrow>
     tso_ok t \<and> 0 \<le> tb_remain b \<and> served \<le> tso_value t \<and>
     (0 < tb_remain b \<longrightarrow> served \<le> tb_value b \<and> tb_value b + tb_remain b \<le> tso_value t \<and>
       0 \<le> tb_logical b \<and> tb_logical b + tb_remain b < 2 ^ 18)"

datatype tso_event =
    TsoGet int int int
  | TsoGetFails int pd_error
  | TsoApply int int int
  | TsoReset

text \<open>A request served by the leader, a request whose proposal fails, an allocation command
  of another leader that this replica applies, and a change of leadership. The result is the last timestamp of the
  request with its count.\<close>

definition tso_step :: "tso_event \<Rightarrow> TSOBuffer \<times> TSOAllocator \<Rightarrow> (Timestamp \<times> int) option \<times> TSOBuffer \<times> TSOAllocator" where
  "tso_step ev bt =
     (case ev of
        TsoGet count now now2 \<Rightarrow>
          (case GetTS (\<lambda>n. TSO_Allocate now now2 n) count bt of
             (Inl e, bt) \<Rightarrow> (None, bt)
           | (Inr ts, bt) \<Rightarrow> (Some (ts, count), bt))
      | TsoGetFails count e \<Rightarrow>
          (case GetTS (\<lambda>n t. (Inl e, t)) count bt of
             (Inl e, bt) \<Rightarrow> (None, bt)
           | (Inr ts, bt) \<Rightarrow> (Some (ts, count), bt))
      | TsoApply count now now2 \<Rightarrow> (None, fst bt, snd (TSO_Allocate now now2 count (snd bt)))
      | TsoReset \<Rightarrow> (None, TSOBuffer_Reset (fst bt), snd bt))"

fun tso_run :: "tso_event list \<Rightarrow> TSOBuffer \<times> TSOAllocator \<Rightarrow> (Timestamp \<times> int) list" where
  "tso_run [] bt = []"
| "tso_run (ev # evs) bt =
     (case tso_step ev bt of
        (None, bt) \<Rightarrow> tso_run evs bt
      | (Some r, bt) \<Rightarrow> r # tso_run evs bt)"

fun tso_event_ok :: "tso_event \<Rightarrow> bool" where
  "tso_event_ok (TsoGet count _ _) \<longleftrightarrow> 0 < count \<and> count < 2 ^ 18"
| "tso_event_ok (TsoGetFails count _) \<longleftrightarrow> 0 < count \<and> count < 2 ^ 18"
| "tso_event_ok (TsoApply count _ _) \<longleftrightarrow> count < 2 ^ 18"
| "tso_event_ok TsoReset \<longleftrightarrow> True"

lemma GetTS_buffered:
  assumes "tb_inv served b t" "0 < count" "count \<le> tb_remain b"
  obtains ts b' where "GetTS propose count (b, t) = (Inr ts, b', t)" "tb_inv (ts_value ts) b' t"
    "served + count \<le> ts_value ts" "0 < ts_Logical ts" "ts_Logical ts < 2 ^ 18"
proof -
  let ?b = "b\<lparr>tb_logical := tb_logical b + count, tb_remain := tb_remain b - count\<rparr>"
  have "GetTS propose count (b, t) = (Inr \<lparr>ts_Physical = tb_physical b, ts_Logical = tb_logical b + count\<rparr>, ?b, t)"
    using assms by (simp add: GetTS_def TSO_serve_def)
  then show thesis using assms that by (auto simp: tb_inv_def tb_value_def ts_value_def)
qed

lemma GetTS_refilled:
  assumes "tb_inv served b t" "0 < count" "count < 2 ^ 18" "\<not> count \<le> tb_remain b"
  obtains ts b' t' where "GetTS (\<lambda>n. TSO_Allocate now now2 n) count (b, t) = (Inr ts, b', t')" "tb_inv (ts_value ts) b' t'"
    "served + count \<le> ts_value ts" "0 < ts_Logical ts" "ts_Logical ts < 2 ^ 18"
proof -
  define n where "n = (if tsoBatchSize < count then count else tsoBatchSize)"
  have n: "0 < n" "n < 2 ^ 18" "count \<le> n" using assms(2,3) by (auto simp: tsoBatchSize_def n_def)
  have ok: "tso_ok t" using assms(1) by (simp add: tb_inv_def)
  obtain u t' where u: "TSO_Allocate now now2 n t = (Inr u, t')" "tso_ok t'"
    "tso_value t + n \<le> ts_value u" "ts_value u = tso_value t'" "0 < ts_Logical u" "ts_Logical u < 2 ^ 18"
    using TSO_Allocate_fresh [OF ok n(1,2)] .
  have l: "n \<le> ts_Logical u" using u(1) n(1) ok by (auto simp: TSO_Allocate_def Let_def tso_ok_def split: if_splits)
  let ?b = "\<lparr>tb_physical = ts_Physical u, tb_logical = ts_Logical u - n + count, tb_remain = n - count\<rparr>"
  let ?ts = "\<lparr>ts_Physical = ts_Physical u, ts_Logical = ts_Logical u - n + count\<rparr>"
  have "GetTS (\<lambda>n. TSO_Allocate now now2 n) count (b, t) = (Inr ?ts, ?b, t')"
    using assms(2,4) u(1) unfolding GetTS_def n_def by (simp add: TSO_serve_def TSO_refill_def)
  moreover have "served + count \<le> ts_value ?ts"
    using assms(1) u(3) by (simp add: tb_inv_def ts_value_def)
  moreover have "tb_inv (ts_value ?ts) ?b t'"
    using u n l assms(2) by (simp add: tb_inv_def ts_value_def tb_value_def)
  ultimately show thesis using that n l u(6) assms(2) by simp
qed

lemma TSO_Allocate_apply:
  assumes "tb_inv served b t" "count < 2 ^ 18"
  shows "tb_inv served b (snd (TSO_Allocate now now2 count t))"
proof (cases "0 < count")
  case True
  have "tso_ok t" using assms(1) by (simp add: tb_inv_def)
  then obtain ts t' where "TSO_Allocate now now2 count t = (Inr ts, t')" "tso_ok t'"
    "tso_value t + count \<le> ts_value ts" "ts_value ts = tso_value t'"
    using TSO_Allocate_fresh [OF _ True assms(2)] by metis
  then show ?thesis using assms(1) True by (auto simp: tb_inv_def)
next
  case False
  then show ?thesis using assms(1) by (simp add: TSO_Allocate_def)
qed

text \<open>One step keeps the invariant, and what it serves lies above everything served before.\<close>

lemma tso_step_inv:
  assumes "tb_inv served b t" "tso_event_ok ev"
  shows "case tso_step ev (b, t) of
      (None, b', t') \<Rightarrow> tb_inv served b' t'
    | (Some (ts, c), b', t') \<Rightarrow> tb_inv (ts_value ts) b' t' \<and> served + c \<le> ts_value ts \<and> 0 < c \<and>
        0 < ts_Logical ts \<and> ts_Logical ts < 2 ^ 18"
proof (cases ev)
  case (TsoGet count now now2)
  then have c: "0 < count" "count < 2 ^ 18" using assms(2) by simp_all
  show ?thesis
  proof (cases "count \<le> tb_remain b")
    case True
    show ?thesis by (rule GetTS_buffered [OF assms(1) c(1) True, of "\<lambda>n. TSO_Allocate now now2 n"])
        (simp add: tso_step_def TsoGet c)
  next
    case False
    show ?thesis by (rule GetTS_refilled [OF assms(1) c False, of now now2]) (simp add: tso_step_def TsoGet c)
  qed
next
  case (TsoGetFails count e)
  then have c: "0 < count" using assms(2) by simp
  show ?thesis
  proof (cases "count \<le> tb_remain b")
    case True
    show ?thesis by (rule GetTS_buffered [OF assms(1) c True, of "\<lambda>n t. (Inl e, t)"]) (simp add: tso_step_def TsoGetFails c)
  next
    case False
    then show ?thesis using assms(1) c by (simp add: tso_step_def TsoGetFails GetTS_def TSO_refill_def)
  qed
next
  case (TsoApply count now now2)
  then show ?thesis using TSO_Allocate_apply assms by (simp add: tso_step_def)
next
  case TsoReset
  then show ?thesis using assms(1) by (simp add: tso_step_def TSOBuffer_Reset_def tb_inv_def)
qed

lemma tso_run_inv:
  "tb_inv served b t \<Longrightarrow> list_all tso_event_ok evs \<Longrightarrow>
   sorted_wrt (\<lambda>(ts, c) (ts', c'). ts_value ts + c' \<le> ts_value ts') (tso_run evs (b, t)) \<and>
   (\<forall>(ts, c) \<in> set (tso_run evs (b, t)). served + c \<le> ts_value ts \<and> 0 < c \<and> 0 < ts_Logical ts \<and> ts_Logical ts < 2 ^ 18)"
proof (induction evs arbitrary: served b t)
  case (Cons ev evs)
  obtain r b' t' where st: "tso_step ev (b, t) = (r, b', t')" by (metis prod_cases3)
  have inv: "case r of None \<Rightarrow> tb_inv served b' t'
      | Some (ts, c) \<Rightarrow> tb_inv (ts_value ts) b' t' \<and> served + c \<le> ts_value ts \<and> 0 < c \<and> 0 < ts_Logical ts \<and> ts_Logical ts < 2 ^ 18"
    using tso_step_inv [OF Cons.prems(1), of ev] Cons.prems(2) st by (simp split: option.splits prod.splits)
  show ?case
  proof (cases r)
    case None
    then show ?thesis using Cons.IH [of served b' t'] Cons.prems(2) inv st by simp
  next
    case (Some p)
    obtain ts c where p: "p = (ts, c)" by force
    then show ?thesis using Cons.IH [of "ts_value ts" b' t'] Cons.prems(2) inv st Some by (fastforce split: prod.splits)
  qed
qed simp

subsection \<open>Identifiers are handed out once\<close>

lemma ID_AllocBatch_eq:
  "ID_AllocBatch n lastID a =
     ((if n = 0 then lastID else ida_nextID a + of_nat n - 1), a\<lparr>ida_nextID := ida_nextID a + of_nat n\<rparr>)"
  by (induction n lastID a rule: ID_AllocBatch.induct) (auto simp: ID_Alloc_def)

definition propose_ids :: "nat \<Rightarrow> IDAllocator \<Rightarrow> (pd_error + bytes) \<times> IDAllocator" where
  "propose_ids n a = (let (lastID, a) = ID_AllocBatch n 0 a in (Inr (PutUint64 lastID), a))"

definition ib_inv :: "nat \<Rightarrow> IDBuffer \<Rightarrow> IDAllocator \<Rightarrow> bool" where
  "ib_inv bound b a \<longleftrightarrow>
     bound \<le> unat (ida_nextID a) \<and>
     (ib_nextID b < ib_endID b \<longrightarrow> bound \<le> unat (ib_nextID b) \<and> ib_endID b \<le> ida_nextID a)"

datatype id_event = IdGet | IdGetFails pd_error | IdApply nat | IdReset

definition id_step :: "id_event \<Rightarrow> IDBuffer \<times> IDAllocator \<Rightarrow> u64 option \<times> IDBuffer \<times> IDAllocator" where
  "id_step ev ba =
     (case ev of
        IdGet \<Rightarrow> (case IDBuffer_Alloc propose_ids ba of (Inl e, ba) \<Rightarrow> (None, ba) | (Inr i, ba) \<Rightarrow> (Some i, ba))
      | IdGetFails e \<Rightarrow>
          (case IDBuffer_Alloc (\<lambda>n a. (Inl e, a)) ba of (Inl e, ba) \<Rightarrow> (None, ba) | (Inr i, ba) \<Rightarrow> (Some i, ba))
      | IdApply n \<Rightarrow> (None, fst ba, snd (ID_AllocBatch n 0 (snd ba)))
      | IdReset \<Rightarrow> (None, IDBuffer_Reset (fst ba), snd ba))"

fun id_run :: "id_event list \<Rightarrow> IDBuffer \<times> IDAllocator \<Rightarrow> u64 list" where
  "id_run [] ba = []"
| "id_run (ev # evs) ba =
     (case id_step ev ba of (None, ba) \<Rightarrow> id_run evs ba | (Some i, ba) \<Rightarrow> i # id_run evs ba)"

text \<open>How many identifiers an event may reserve.\<close>

fun id_cost :: "id_event \<Rightarrow> nat" where
  "id_cost (IdApply n) = n"
| "id_cost _ = idBatchSize"

lemma unat_plus_small: "unat (x :: u64) + n < 2 ^ 64 \<Longrightarrow> unat (x + of_nat n) = unat x + n"
  by (simp add: unat_word_ariths unat_of_nat)

lemma IDBuffer_Alloc_buffered:
  assumes "ib_inv bound b a" "ib_nextID b < ib_endID b"
  shows "IDBuffer_Alloc propose (b, a) = (Inr (ib_nextID b), b\<lparr>ib_nextID := ib_nextID b + 1\<rparr>, a)"
    "bound \<le> unat (ib_nextID b)" "ib_inv (Suc (unat (ib_nextID b))) (b\<lparr>ib_nextID := ib_nextID b + 1\<rparr>) a"
proof -
  show "IDBuffer_Alloc propose (b, a) = (Inr (ib_nextID b), b\<lparr>ib_nextID := ib_nextID b + 1\<rparr>, a)"
    using assms(2) by (simp add: IDBuffer_Alloc_def not_le [symmetric])
  show "bound \<le> unat (ib_nextID b)" using assms by (simp add: ib_inv_def)
  have "unat (ib_nextID b) < unat (ib_endID b)" "unat (ib_endID b) < 2 ^ 64"
    using assms(2) unsigned_less [of "ib_endID b"] by (simp_all add: word_less_nat_alt)
  then have "unat (ib_nextID b + 1) = Suc (unat (ib_nextID b))" by (simp add: unat_word_ariths)
  then show "ib_inv (Suc (unat (ib_nextID b))) (b\<lparr>ib_nextID := ib_nextID b + 1\<rparr>) a"
    using assms by (auto simp: ib_inv_def word_less_nat_alt word_le_nat_alt)
qed

lemma IDBuffer_Alloc_refilled:
  assumes "ib_inv bound b a" "\<not> ib_nextID b < ib_endID b" "unat (ida_nextID a) + idBatchSize < 2 ^ 64"
  shows "\<exists>b'. IDBuffer_Alloc propose_ids (b, a) =
      (Inr (ida_nextID a), b', a\<lparr>ida_nextID := ida_nextID a + of_nat idBatchSize\<rparr>) \<and>
    ib_inv (Suc (unat (ida_nextID a))) b' (a\<lparr>ida_nextID := ida_nextID a + of_nat idBatchSize\<rparr>)"
proof -
  let ?b = "\<lparr>ib_nextID = ida_nextID a + 1, ib_endID = ida_nextID a + of_nat idBatchSize\<rparr>"
  have "IDBuffer_Alloc propose_ids (b, a) = (Inr (ida_nextID a), ?b, a\<lparr>ida_nextID := ida_nextID a + of_nat idBatchSize\<rparr>)"
    using assms(2) by (simp add: IDBuffer_Alloc_def not_less propose_ids_def ID_AllocBatch_eq ID_refill_def idBatchSize_def)
  moreover have "unat (ida_nextID a + 1) = Suc (unat (ida_nextID a))"
    "unat (ida_nextID a + of_nat idBatchSize) = unat (ida_nextID a) + idBatchSize"
    using unat_plus_small [OF assms(3)] assms(3) by (auto simp: unat_word_ariths idBatchSize_def)
  ultimately show ?thesis by (auto simp: ib_inv_def idBatchSize_def)
qed

lemma id_step_inv:
  assumes "ib_inv bound b a" "unat (ida_nextID a) + id_cost ev < 2 ^ 64" "id_step ev (b, a) = (r, b', a')"
  shows "unat (ida_nextID a') \<le> unat (ida_nextID a) + id_cost ev"
    "case r of None \<Rightarrow> ib_inv bound b' a' | Some i \<Rightarrow> bound \<le> unat i \<and> ib_inv (Suc (unat i)) b' a'"
proof -
  have "unat (ida_nextID a') \<le> unat (ida_nextID a) + id_cost ev \<and>
    (case r of None \<Rightarrow> ib_inv bound b' a' | Some i \<Rightarrow> bound \<le> unat i \<and> ib_inv (Suc (unat i)) b' a')"
  proof (cases ev)
    case IdGet
    show ?thesis
    proof (cases "ib_nextID b < ib_endID b")
      case True
      then show ?thesis
        using IDBuffer_Alloc_buffered(1) [OF assms(1) True, of propose_ids] IDBuffer_Alloc_buffered(2,3) [OF assms(1) True] assms(3) IdGet by (auto simp: id_step_def)
    next
      case False
      then obtain b'' where "IDBuffer_Alloc propose_ids (b, a) =
          (Inr (ida_nextID a), b'', a\<lparr>ida_nextID := ida_nextID a + of_nat idBatchSize\<rparr>)"
        "ib_inv (Suc (unat (ida_nextID a))) b'' (a\<lparr>ida_nextID := ida_nextID a + of_nat idBatchSize\<rparr>)"
        using IDBuffer_Alloc_refilled [OF assms(1) False] assms(2) IdGet by auto
      then show ?thesis
        using assms IdGet unat_plus_small [of "ida_nextID a" idBatchSize] by (auto simp: id_step_def ib_inv_def)
    qed
  next
    case (IdGetFails e)
    show ?thesis
    proof (cases "ib_nextID b < ib_endID b")
      case True
      then show ?thesis
        using IDBuffer_Alloc_buffered(1) [OF assms(1) True, of "\<lambda>n a. (Inl e, a)"] IDBuffer_Alloc_buffered(2,3) [OF assms(1) True] assms(3) IdGetFails by (auto simp: id_step_def)
    next
      case False
      then show ?thesis using assms(1,3) IdGetFails by (auto simp: id_step_def IDBuffer_Alloc_def ID_refill_def not_less)
    qed
  next
    case (IdApply n)
    then show ?thesis
      using assms unat_plus_small [of "ida_nextID a" n]
      by (auto simp: id_step_def ID_AllocBatch_eq ib_inv_def word_le_nat_alt)
  next
    case IdReset
    then show ?thesis using assms by (auto simp: id_step_def IDBuffer_Reset_def ib_inv_def)
  qed
  then show "unat (ida_nextID a') \<le> unat (ida_nextID a) + id_cost ev"
    "case r of None \<Rightarrow> ib_inv bound b' a' | Some i \<Rightarrow> bound \<le> unat i \<and> ib_inv (Suc (unat i)) b' a'" by auto
qed

lemma id_run_inv:
  "ib_inv bound b a \<Longrightarrow> unat (ida_nextID a) + sum_list (map id_cost evs) < 2 ^ 64 \<Longrightarrow>
   sorted_wrt (<) (id_run evs (b, a)) \<and> (\<forall>i \<in> set (id_run evs (b, a)). bound \<le> unat i)"
proof (induction evs arbitrary: bound b a)
  case (Cons ev evs)
  obtain r b' a' where st: "id_step ev (b, a) = (r, b', a')" by (metis prod_cases3)
  have "unat (ida_nextID a) + id_cost ev < 2 ^ 64" using Cons.prems(2) by simp
  note s = id_step_inv [OF Cons.prems(1) this st]
  have sum: "unat (ida_nextID a') + sum_list (map id_cost evs) < 2 ^ 64" using s(1) Cons.prems(2) by simp
  show ?case
  proof (cases r)
    case None
    then show ?thesis using Cons.IH [of bound b' a'] s(2) sum st by simp
  next
    case (Some i)
    then have "bound \<le> unat i" "ib_inv (Suc (unat i)) b' a'" using s(2) by auto
    then show ?thesis using Cons.IH [of "Suc (unat i)" b' a'] sum st Some
      by (auto simp: word_less_nat_alt Suc_le_eq intro: less_imp_le order_trans)
  qed
qed simp

subsection \<open>Regions and stores\<close>

definition epoch_le :: "RegionEpoch \<Rightarrow> RegionEpoch \<Rightarrow> bool" where
  "epoch_le e f \<longleftrightarrow> ep_Version e \<le> ep_Version f \<and> ep_ConfVer e \<le> ep_ConfVer f"

lemma PutRegion_epoch:
  assumes "md_regions m i = Some old" "rg_RegionEpoch old = Some e"
    "\<forall>r. region = Some r \<longrightarrow> rg_Id r = i \<longrightarrow> rg_RegionEpoch r \<noteq> None"
  shows "\<exists>new e'. md_regions (PutRegion region leader m) i = Some new \<and> rg_RegionEpoch new = Some e' \<and> epoch_le e e'"
  using assms by (auto simp: PutRegion_def staleEpoch_def epoch_le_def Let_def split: option.splits)

lemma PutRegion_accepts:
  "\<not> (\<exists>old. md_regions m (rg_Id r) = Some old \<and> staleEpoch (rg_RegionEpoch old) (rg_RegionEpoch r)) \<Longrightarrow>
   md_regions (PutRegion (Some r) leader m) = (md_regions m)(rg_Id r \<mapsto> r)"
  by (auto simp: PutRegion_def Let_def split: option.splits)

lemma updateStoreStates_fields [simp]:
  "md_storeLastHeartbeat (updateStoreStates now order m) = md_storeLastHeartbeat m"
  "md_downDuration (updateStoreStates now order m) = md_downDuration m"
  "md_disconnectDuration (updateStoreStates now order m) = md_disconnectDuration m"
  by (induction now order m rule: updateStoreStates.induct) simp_all

lemma nextStoreState_other:
  "i \<noteq> j \<Longrightarrow> nextStoreState now i (m\<lparr>md_storeStates := (md_storeStates m)(j \<mapsto> st)\<rparr>) = nextStoreState now i m"
  by (simp add: nextStoreState_def GetStoreState_def Let_def split: option.splits)

lemma GetStoreState_update [simp]:
  "GetStoreState i (m\<lparr>md_storeStates := (md_storeStates m)(j \<mapsto> st)\<rparr>) = (if i = j then st else GetStoreState i m)"
  by (simp add: GetStoreState_def)

lemma updateStoreStates_state:
  "distinct order \<Longrightarrow>
   GetStoreState i (updateStoreStates now order m) = (if i \<in> set order then nextStoreState now i m else GetStoreState i m)"
proof (induction now order m rule: updateStoreStates.induct)
  case (2 now storeID order m)
  have "GetStoreState storeID m = StoreStateTombstone \<Longrightarrow> nextStoreState now storeID m = StoreStateTombstone"
    by (simp add: nextStoreState_def)
  with 2 show ?case by (cases "i = storeID") (auto simp: nextStoreState_other)
qed simp

lemma GetRegionByKey_loop_sound:
  "GetRegionByKey_loop k order m = (Some r, l) \<Longrightarrow> \<exists>i \<in> set order. md_regions m i = Some r \<and> l = md_leaders m i \<and> in_region r k"
  by (induction k order m rule: GetRegionByKey_loop.induct)
    (auto simp: in_region_def not_less not_le split: option.splits if_splits)

lemma GetRegionByKey_loop_complete:
  "i \<in> set order \<Longrightarrow> md_regions m i = Some r \<Longrightarrow> in_region r k \<Longrightarrow> \<exists>r' l. GetRegionByKey_loop k order m = (Some r', l)"
  by (induction k order m rule: GetRegionByKey_loop.induct)
    (auto simp: in_region_def not_less not_le split: option.splits if_splits)

lemma epoch_le_trans: "epoch_le a b \<Longrightarrow> epoch_le b c \<Longrightarrow> epoch_le a c"
  by (auto simp: epoch_le_def)

definition putRegions :: "(Region \<times> Peer option) list \<Rightarrow> MetadataStore \<Rightarrow> MetadataStore" where
  "putRegions rs = fold (\<lambda>(r, l). PutRegion (Some r) l) rs"

lemma putRegions_epoch:
  assumes "\<forall>(r, l) \<in> set rs. rg_Id r = i \<longrightarrow> rg_RegionEpoch r \<noteq> None"
  shows "md_regions m i = Some old \<Longrightarrow> rg_RegionEpoch old = Some e \<Longrightarrow>
    \<exists>new e'. md_regions (putRegions rs m) i = Some new \<and> rg_RegionEpoch new = Some e' \<and> epoch_le e e'"
  using assms
proof (induction rs arbitrary: m old e)
  case (Cons p rs)
  obtain r l where p: "p = (r, l)" by force
  obtain mid f where mid: "md_regions (PutRegion (Some r) l m) i = Some mid" "rg_RegionEpoch mid = Some f" "epoch_le e f"
    using PutRegion_epoch [OF Cons.prems(1,2), of "Some r" l] Cons.prems(3) p by auto
  have "\<exists>new e'. md_regions (putRegions rs (PutRegion (Some r) l m)) i = Some new \<and> rg_RegionEpoch new = Some e' \<and> epoch_le f e'"
    by (rule Cons.IH [OF mid(1,2)]) (use Cons.prems(3) in auto)
  then show ?case using mid(3) epoch_le_trans p by (auto simp: putRegions_def)
qed (auto simp: putRegions_def epoch_le_def)

section \<open>Properties of the allocators and the metadata\<close>

text \<open>C14: No timestamp is handed out twice by a leader. For every interleaving of requests,
  failed proposals, allocations applied for other leaders and leadership changes, and for every reading of the
  clock, also one that runs backwards, each request gets a range of timestamps above all ranges handed
  out before it, and the logical part fits its 18 bits.\<close>

theorem tso_unique:
  assumes "list_all tso_event_ok evs"
  shows "sorted_wrt (\<lambda>(ts, c) (ts', c'). ts_value ts + c' \<le> ts_value ts') (tso_run evs (NewTSOBuffer, NewTSOAllocator)) \<and>
    (\<forall>(ts, c) \<in> set (tso_run evs (NewTSOBuffer, NewTSOAllocator)). 0 < ts_Logical ts \<and> ts_Logical ts < 2 ^ 18)"
proof -
  have "tb_inv 0 NewTSOBuffer NewTSOAllocator"
    by (simp add: tb_inv_def NewTSOBuffer_def NewTSOAllocator_def tso_ok_def tso_value_def)
  from tso_run_inv [OF this assms] show ?thesis by fastforce
qed

theorem tso_unique_witness:
  "tso_run [TsoGet 3 1000 1000, TsoReset, TsoGet 1 900 900] (NewTSOBuffer, NewTSOAllocator) =
     [(\<lparr>ts_Physical = 1000, ts_Logical = 3\<rparr>, 3), (\<lparr>ts_Physical = 1000, ts_Logical = 1001\<rparr>, 1)] \<and>
   sorted_wrt (\<lambda>(ts, c) (ts', c'). ts_value ts + c' \<le> ts_value ts')
     (tso_run [TsoGet 3 1000 1000, TsoReset, TsoGet 1 900 900] (NewTSOBuffer, NewTSOAllocator))"
  using tso_unique [of "[TsoGet 3 1000 1000, TsoReset, TsoGet 1 900 900]"]
  by (simp add: tso_step_def GetTS_def TSO_Allocate_def TSO_refill_def TSO_serve_def NewTSOBuffer_def NewTSOAllocator_def
      tsoBatchSize_def TSOBuffer_Reset_def)

text \<open>C15: No identifier is handed out twice. For every interleaving of requests,
  failed proposals, batches reserved for other leaders and leadership changes, the identifiers a leader hands out
  increase, and start at 1000, as long as the 64-bit counter does not run out.\<close>

theorem ids_unique:
  assumes "1000 + sum_list (map id_cost evs) < 2 ^ 64"
  shows "sorted_wrt (<) (id_run evs (NewIDBuffer, NewIDAllocator)) \<and> distinct (id_run evs (NewIDBuffer, NewIDAllocator)) \<and>
    (\<forall>i \<in> set (id_run evs (NewIDBuffer, NewIDAllocator)). 1000 \<le> unat i)"
proof -
  have "ib_inv 1000 NewIDBuffer NewIDAllocator" by (simp add: ib_inv_def NewIDBuffer_def NewIDAllocator_def)
  then show ?thesis
    using id_run_inv [of 1000 NewIDBuffer NewIDAllocator evs] assms by (simp add: NewIDAllocator_def strict_sorted_iff)
qed

theorem ids_unique_witness:
  "id_run [IdGet, IdGet, IdReset, IdGet] (NewIDBuffer, NewIDAllocator) = [1000, 1001, 1100] \<and>
   distinct (id_run [IdGet, IdGet, IdReset, IdGet] (NewIDBuffer, NewIDAllocator))"
  using ids_unique [of "[IdGet, IdGet, IdReset, IdGet]"]
  by (simp add: id_step_def IDBuffer_Alloc_def propose_ids_def ID_AllocBatch_eq ID_refill_def NewIDBuffer_def NewIDAllocator_def
      idBatchSize_def IDBuffer_Reset_def)


definition sampleRegion :: "u64 \<Rightarrow> Region" where
  "sampleRegion v = \<lparr>rg_Id = 2, rg_StartKey = [], rg_EndKey = [], rg_RegionEpoch = Some \<lparr>ep_ConfVer = 1, ep_Version = v\<rparr>,
     rg_Peers = [\<lparr>peer_Id = 5, peer_StoreId = 1, peer_Role = 0\<rparr>]\<rparr>"


end
