(* ===== verification/PdSchedule.thy ===== *)
theory PdSchedule
  imports PdMeta "HOL-Library.AList"
begin

section \<open>The scheduler of the placement driver\<close>

text \<open>
  Models \<^verbatim>\<open>internal/pd/move_tracker.go\<close> and \<^verbatim>\<open>internal/pd/scheduler.go\<close>: the state machine of a region move
  (adding, stabilizing, transferring, removing) and the scheduler that answers a region heartbeat with at most one
  command. The maps of the tracker are association lists. The scheduler compares counts with a floating point mean; the
  operations on floats are the argument \<open>fl\<close>, and no lemma depends on them.

  The lemmas show what a command of the scheduler may do: a peer is only added on an Up store that holds none of the
  region, with an identifier fresh from the allocator; a peer is only removed by a move that has seen the new peer and
  waited three more heartbeats, or when the region has too many peers, and then never the leader; a pending move blocks
  every other command.
\<close>

datatype ConfChangeType = AddNode | RemoveNode

record ChangePeer =
  cp_Peer :: "Peer option"
  cp_ChangeType :: ConfChangeType

record ScheduleCommand =
  sc_RegionID :: u64
  sc_TransferLeader :: "Peer option"
  sc_ChangePeer :: "ChangePeer option"

definition changePeerCmd :: "u64 \<Rightarrow> Peer option \<Rightarrow> ConfChangeType \<Rightarrow> ScheduleCommand" where
  "changePeerCmd regionID p ct =
     \<lparr>sc_RegionID = regionID, sc_TransferLeader = None,
      sc_ChangePeer = Some \<lparr>cp_Peer = p, cp_ChangeType = ct\<rparr>\<rparr>"

definition transferCmd :: "u64 \<Rightarrow> Peer \<Rightarrow> ScheduleCommand" where
  "transferCmd regionID p = \<lparr>sc_RegionID = regionID, sc_TransferLeader = Some p, sc_ChangePeer = None\<rparr>"

definition storeOf :: "Peer option \<Rightarrow> u64" where
  "storeOf p = (case p of None \<Rightarrow> 0 | Some p \<Rightarrow> peer_StoreId p)"

subsection \<open>Region moves\<close>

definition stabilizeHeartbeats :: int where "stabilizeHeartbeats = 3"
definition moveCooldownHeartbeats :: int where "moveCooldownHeartbeats = 10"

datatype MoveState = MoveStateAdding | MoveStateStabilizing | MoveStateTransferring | MoveStateRemoving

record PendingMove =
  pm_RegionID :: u64
  pm_SourcePeer :: "Peer option"
  pm_TargetStoreID :: u64
  pm_TargetPeerID :: u64
  pm_State :: MoveState
  pm_StartedAt :: int
  pm_StabilizeCount :: int

record moveCooldown =
  mc_completedAt :: int
  mc_cooldownExpiry :: int

record MoveTracker =
  mt_moves :: "(u64 \<times> PendingMove) list"
  mt_cooldowns :: "(u64 \<times> moveCooldown) list"
  mt_heartbeatCount :: int

definition NewMoveTracker :: MoveTracker where
  "NewMoveTracker = \<lparr>mt_moves = [], mt_cooldowns = [], mt_heartbeatCount = 0\<rparr>"

definition StartMove :: "int \<Rightarrow> u64 \<Rightarrow> Peer option \<Rightarrow> u64 \<Rightarrow> MoveTracker \<Rightarrow> MoveTracker" where
  "StartMove now regionID sourcePeer targetStoreID t =
     t\<lparr>mt_moves := AList.update regionID
         \<lparr>pm_RegionID = regionID, pm_SourcePeer = sourcePeer, pm_TargetStoreID = targetStoreID, pm_TargetPeerID = 0,
          pm_State = MoveStateAdding, pm_StartedAt = now, pm_StabilizeCount = 0\<rparr> (mt_moves t)\<rparr>"

definition HasPendingMove :: "u64 \<Rightarrow> MoveTracker \<Rightarrow> bool \<times> MoveTracker" where
  "HasPendingMove regionID t =
     (if map_of (mt_moves t) regionID \<noteq> None then (True, t)
      else
        (case map_of (mt_cooldowns t) regionID of
           None \<Rightarrow> (False, t)
         | Some cd \<Rightarrow>
             if mt_heartbeatCount t < mc_cooldownExpiry cd then (True, t)
             else (False, t\<lparr>mt_cooldowns := AList.delete regionID (mt_cooldowns t)\<rparr>)))"

definition ActiveMoveCount :: "MoveTracker \<Rightarrow> int" where
  "ActiveMoveCount t =
     int (length (mt_moves t)) +
     int (length (filter (\<lambda>(_, cd). mt_heartbeatCount t < mc_cooldownExpiry cd) (mt_cooldowns t)))"

definition hasPeerOnStore :: "Region \<Rightarrow> u64 \<Rightarrow> bool" where
  "hasPeerOnStore region storeID = list_ex (\<lambda>p. peer_StoreId p = storeID) (rg_Peers region)"

definition pickTransferTarget :: "Region \<Rightarrow> u64 \<Rightarrow> u64 \<Rightarrow> Peer option" where
  "pickTransferTarget region excludeStore1 excludeStore2 =
     find (\<lambda>p. peer_StoreId p \<noteq> excludeStore1 \<and> peer_StoreId p \<noteq> excludeStore2) (rg_Peers region)"

definition advanceMove :: "u64 \<Rightarrow> Region \<Rightarrow> Peer option \<Rightarrow> PendingMove \<Rightarrow> ScheduleCommand option \<times> PendingMove option" where
  "advanceMove regionID region leader move =
     (let sourceStoreID = storeOf (pm_SourcePeer move);
          remove = changePeerCmd regionID (pm_SourcePeer move) RemoveNode in
      case pm_State move of
        MoveStateAdding \<Rightarrow>
          if \<not> hasPeerOnStore region (pm_TargetStoreID move) then (None, Some move)
          else
            let move = (case find (\<lambda>p. peer_StoreId p = pm_TargetStoreID move) (rg_Peers region) of
                          None \<Rightarrow> move | Some p \<Rightarrow> move\<lparr>pm_TargetPeerID := peer_Id p\<rparr>) in
            (None, Some (move\<lparr>pm_State := MoveStateStabilizing, pm_StabilizeCount := 0\<rparr>))
      | MoveStateStabilizing \<Rightarrow>
          let move = move\<lparr>pm_StabilizeCount := pm_StabilizeCount move + 1\<rparr> in
          if pm_StabilizeCount move < stabilizeHeartbeats then (None, Some move)
          else if leader \<noteq> None \<and> storeOf leader = sourceStoreID
          then
            (case pickTransferTarget region sourceStoreID 0 of
               None \<Rightarrow> (Some remove, Some (move\<lparr>pm_State := MoveStateRemoving\<rparr>))
             | Some p \<Rightarrow> (Some (transferCmd regionID p), Some (move\<lparr>pm_State := MoveStateTransferring\<rparr>)))
          else (Some remove, Some (move\<lparr>pm_State := MoveStateRemoving\<rparr>))
      | MoveStateTransferring \<Rightarrow>
          if leader \<noteq> None \<and> storeOf leader \<noteq> sourceStoreID
          then (Some remove, Some (move\<lparr>pm_State := MoveStateRemoving\<rparr>))
          else
            (case pickTransferTarget region sourceStoreID 0 of
               None \<Rightarrow> (None, Some move)
             | Some p \<Rightarrow> (Some (transferCmd regionID p), Some move))
      | MoveStateRemoving \<Rightarrow>
          if \<not> hasPeerOnStore region sourceStoreID then (None, None) else (Some remove, Some move))"

definition Advance ::
  "u64 \<Rightarrow> Region option \<Rightarrow> Peer option \<Rightarrow> MoveTracker \<Rightarrow> ScheduleCommand option \<times> MoveTracker"
where
  "Advance regionID region leader t =
     (case region of
        None \<Rightarrow> (None, t)
      | Some r \<Rightarrow>
          let t = t\<lparr>mt_heartbeatCount := mt_heartbeatCount t + 1\<rparr> in
          (case map_of (mt_moves t) regionID of
             None \<Rightarrow> (None, t)
           | Some move \<Rightarrow>
               (case advanceMove regionID r leader move of
                  (cmd, Some move) \<Rightarrow> (cmd, t\<lparr>mt_moves := AList.update regionID move (mt_moves t)\<rparr>)
                | (cmd, None) \<Rightarrow>
                    (cmd, t\<lparr>mt_moves := AList.delete regionID (mt_moves t),
                            mt_cooldowns := AList.update regionID
                              \<lparr>mc_completedAt = mt_heartbeatCount t,
                               mc_cooldownExpiry = mt_heartbeatCount t + moveCooldownHeartbeats\<rparr> (mt_cooldowns t)\<rparr>))))"

definition CleanupStale :: "int \<Rightarrow> int \<Rightarrow> MoveTracker \<Rightarrow> MoveTracker" where
  "CleanupStale now timeout t =
     t\<lparr>mt_moves := filter (\<lambda>(_, move). \<not> timeout < now - pm_StartedAt move) (mt_moves t)\<rparr>"

subsection \<open>The scheduler\<close>

record 'f floats =
  fl_mean :: "int \<Rightarrow> int \<Rightarrow> 'f"
  fl_trunc :: "'f \<Rightarrow> int"
  fl_above :: "int \<Rightarrow> 'f \<Rightarrow> bool"
  fl_below :: "int \<Rightarrow> 'f \<Rightarrow> bool"

text \<open>The scheduler's configuration, and the orders in which its loops visit the maps of the
  metadata store.\<close>

record SchedulerCfg =
  sg_maxPeerCount :: int
  sg_regionBalanceRateLimit :: int

definition NewSchedulerCfg :: "int \<Rightarrow> int \<Rightarrow> SchedulerCfg" where
  "NewSchedulerCfg maxPeerCount rateLimit =
     \<lparr>sg_maxPeerCount = (if maxPeerCount \<le> 0 then 3 else maxPeerCount),
      sg_regionBalanceRateLimit = (if rateLimit \<le> 0 then 4 else rateLimit)\<rparr>"

record map_orders =
  mo_stores :: "u64 list"
  mo_regions :: "u64 list"
  mo_leaders :: "u64 list"

record SchedState =
  ss_idAlloc :: IDAllocator
  ss_moveTracker :: "MoveTracker option"

definition pickStoreForRegion :: "map_orders \<Rightarrow> MetadataStore \<Rightarrow> Region \<Rightarrow> u64" where
  "pickStoreForRegion ord m region =
     (case find (\<lambda>st. \<not> hasPeerOnStore region (ms_Id st) \<and> IsStoreSchedulable (ms_Id st) m) (GetAllStores (mo_stores ord) m) of
        None \<Rightarrow> 0
      | Some st \<Rightarrow> ms_Id st)"

definition scheduleReplicaRepair ::
  "SchedulerCfg \<Rightarrow> map_orders \<Rightarrow> MetadataStore \<Rightarrow> u64 \<Rightarrow> Region \<Rightarrow> SchedState \<Rightarrow> ScheduleCommand option \<times> SchedState"
where
  "scheduleReplicaRepair cfg ord m regionID region s =
     (let healthyPeers = filter (\<lambda>p. GetStoreState (peer_StoreId p) m = StoreStateUp \<or>
             GetStoreState (peer_StoreId p) m = StoreStateDisconnected) (rg_Peers region) in
      if sg_maxPeerCount cfg \<le> int (length healthyPeers) then (None, s)
      else
        let targetStore = pickStoreForRegion ord m region in
        if targetStore = 0 then (None, s)
        else
          let (newPeerID, a) = ID_Alloc (ss_idAlloc s) in
          (Some (changePeerCmd regionID (Some \<lparr>peer_Id = newPeerID, peer_StoreId = targetStore, peer_Role = 0\<rparr>) AddNode),
           s\<lparr>ss_idAlloc := a\<rparr>))"

definition maxInt :: int where "maxInt = 2 ^ 63 - 1"

fun minLeader_loop :: "(u64 \<Rightarrow> int) \<Rightarrow> MetadataStore \<Rightarrow> Peer list \<Rightarrow> u64 \<times> int \<Rightarrow> u64 \<times> int" where
  "minLeader_loop counts m [] acc = acc"
| "minLeader_loop counts m (p # ps) acc =
     minLeader_loop counts m ps
       (if \<not> IsStoreSchedulable (peer_StoreId p) m then acc
        else if counts (peer_StoreId p) < snd acc then (peer_StoreId p, counts (peer_StoreId p)) else acc)"

definition scheduleLeaderBalance ::
  "map_orders \<Rightarrow> MetadataStore \<Rightarrow> u64 \<Rightarrow> Region \<Rightarrow> Peer option \<Rightarrow> ScheduleCommand option"
where
  "scheduleLeaderBalance ord m regionID region leader =
     (case leader of
        None \<Rightarrow> None
      | Some l \<Rightarrow>
          let leaderCounts = GetLeaderCountPerStore (mo_leaders ord) m;
              (minStore, minCount) = minLeader_loop leaderCounts m (rg_Peers region) (0, maxInt) in
          if minStore \<noteq> 0 \<and> minStore \<noteq> peer_StoreId l \<and> leaderCounts (peer_StoreId l) - minCount > 1
          then Some (transferCmd regionID \<lparr>peer_Id = 0, peer_StoreId = minStore, peer_Role = 0\<rparr>)
          else None)"

fun maxPeer_loop :: "(u64 \<Rightarrow> int) \<Rightarrow> Peer option \<Rightarrow> Peer list \<Rightarrow> Peer option \<times> int \<Rightarrow> Peer option \<times> int" where
  "maxPeer_loop counts leader [] acc = acc"
| "maxPeer_loop counts leader (p # ps) acc =
     maxPeer_loop counts leader ps
       (if (case leader of None \<Rightarrow> False | Some l \<Rightarrow> peer_Id p = peer_Id l) then acc
        else if snd acc < counts (peer_StoreId p) then (Some p, counts (peer_StoreId p)) else acc)"

definition scheduleExcessReplicaShedding ::
  "SchedulerCfg \<Rightarrow> map_orders \<Rightarrow> MetadataStore \<Rightarrow> u64 \<Rightarrow> Region \<Rightarrow> Peer option \<Rightarrow> ScheduleCommand option"
where
  "scheduleExcessReplicaShedding cfg ord m regionID region leader =
     (if int (length (rg_Peers region)) \<le> sg_maxPeerCount cfg then None
      else
        (case fst (maxPeer_loop (GetRegionCountPerStore (mo_regions ord) m) leader (rg_Peers region) (None, - 1)) of
           None \<Rightarrow> None
         | Some p \<Rightarrow> Some (changePeerCmd regionID (Some p) RemoveNode)))"

definition overloadedPeer :: "'f floats \<Rightarrow> (u64 \<Rightarrow> int) \<Rightarrow> 'f \<Rightarrow> Region \<Rightarrow> Peer option" where
  "overloadedPeer fl counts mean region =
     find (\<lambda>p. fl_trunc fl mean + 1 < counts (peer_StoreId p) \<and> fl_above fl (counts (peer_StoreId p)) mean) (rg_Peers region)"

definition scheduleRegionBalance ::
  "'f floats \<Rightarrow> SchedulerCfg \<Rightarrow> int \<Rightarrow> map_orders \<Rightarrow> MetadataStore \<Rightarrow> u64 \<Rightarrow> Region \<Rightarrow> Peer option \<Rightarrow> SchedState \<Rightarrow>
   ScheduleCommand option \<times> SchedState"
where
  "scheduleRegionBalance fl cfg now ord m regionID region leader s =
     (if leader = None then (None, s)
      else
        let (blocked, s) =
          (case ss_moveTracker s of
             None \<Rightarrow> (False, s)
           | Some t \<Rightarrow>
               if sg_regionBalanceRateLimit cfg \<le> ActiveMoveCount t then (True, s)
               else let (pending, t) = HasPendingMove regionID t in (pending, s\<lparr>ss_moveTracker := Some t\<rparr>)) in
        if blocked then (None, s)
        else
          let regionCounts = GetRegionCountPerStore (mo_regions ord) m;
              stores = GetAllStores (mo_stores ord) m;
              schedulable = filter (\<lambda>st. IsStoreSchedulable (ms_Id st) m) stores in
          if schedulable = [] then (None, s)
          else
            let mean = fl_mean fl (sum_list (map (\<lambda>st. regionCounts (ms_Id st)) schedulable)) (int (length schedulable)) in
            (case overloadedPeer fl regionCounts mean region of
               None \<Rightarrow> (None, s)
             | Some sourcePeer \<Rightarrow>
                 let targetStoreID =
                   (case find (\<lambda>st. \<not> hasPeerOnStore region (ms_Id st) \<and> IsStoreSchedulable (ms_Id st) m \<and>
                        regionCounts (ms_Id st) < fl_trunc fl mean \<and> fl_below fl (regionCounts (ms_Id st)) mean) stores of
                      None \<Rightarrow> 0 | Some st \<Rightarrow> ms_Id st) in
                 if targetStoreID = 0 then (None, s)
                 else
                   let (newPeerID, a) = ID_Alloc (ss_idAlloc s);
                       s = s\<lparr>ss_idAlloc := a,
                         ss_moveTracker := map_option (StartMove now regionID (Some sourcePeer) targetStoreID) (ss_moveTracker s)\<rparr> in
                   (Some (changePeerCmd regionID (Some \<lparr>peer_Id = newPeerID, peer_StoreId = targetStoreID, peer_Role = 0\<rparr>) AddNode), s)))"

definition scheduleOthers ::
  "'f floats \<Rightarrow> SchedulerCfg \<Rightarrow> int \<Rightarrow> map_orders \<Rightarrow> MetadataStore \<Rightarrow> u64 \<Rightarrow> Region \<Rightarrow> Peer option \<Rightarrow> SchedState \<Rightarrow>
   ScheduleCommand option \<times> SchedState"
where
  "scheduleOthers fl cfg now ord m regionID region leader s =
     (case scheduleExcessReplicaShedding cfg ord m regionID region leader of
        Some cmd \<Rightarrow> (Some cmd, s)
      | None \<Rightarrow>
          (case scheduleReplicaRepair cfg ord m regionID region s of
             (Some cmd, s) \<Rightarrow> (Some cmd, s)
           | (None, s) \<Rightarrow>
               (case scheduleRegionBalance fl cfg now ord m regionID region leader s of
                  (Some cmd, s) \<Rightarrow> (Some cmd, s)
                | (None, s) \<Rightarrow> (scheduleLeaderBalance ord m regionID region leader, s))))"

definition Schedule_cmd ::
  "'f floats \<Rightarrow> SchedulerCfg \<Rightarrow> int \<Rightarrow> map_orders \<Rightarrow> MetadataStore \<Rightarrow> u64 \<Rightarrow> Region \<Rightarrow> Peer option \<Rightarrow> SchedState \<Rightarrow>
   ScheduleCommand option \<times> SchedState"
where
  "Schedule_cmd fl cfg now ord m regionID region leader s =
     (case ss_moveTracker s of
        None \<Rightarrow> scheduleOthers fl cfg now ord m regionID region leader s
      | Some t \<Rightarrow>
          (case Advance regionID (Some region) leader t of
             (Some cmd, t) \<Rightarrow> (Some cmd, s\<lparr>ss_moveTracker := Some t\<rparr>)
           | (None, t) \<Rightarrow>
               let (pending, t) = HasPendingMove regionID t; s = s\<lparr>ss_moveTracker := Some t\<rparr> in
               if pending then (None, s)
               else scheduleOthers fl cfg now ord m regionID region leader s))"

subsection \<open>What a command may do\<close>

definition is_remove :: "ScheduleCommand option \<Rightarrow> bool" where
  "is_remove cmd \<longleftrightarrow> (\<exists>c cp. cmd = Some c \<and> sc_ChangePeer c = Some cp \<and> cp_ChangeType cp = RemoveNode)"

lemma changePeerCmd_simps [simp]:
  "sc_ChangePeer (changePeerCmd r p ct) = Some \<lparr>cp_Peer = p, cp_ChangeType = ct\<rparr>"
  "sc_TransferLeader (changePeerCmd r p ct) = None"
  "sc_ChangePeer (transferCmd r q) = None" "sc_TransferLeader (transferCmd r q) = Some q"
  by (simp_all add: changePeerCmd_def transferCmd_def)

lemma schedule_cmd_inject [simp]:
  "changePeerCmd r p ct = changePeerCmd r' p' ct' \<longleftrightarrow> r = r' \<and> p = p' \<and> ct = ct'"
  "transferCmd r q = transferCmd r' q' \<longleftrightarrow> r = r' \<and> q = q'"
  "changePeerCmd r p ct \<noteq> transferCmd r' q" "transferCmd r' q \<noteq> changePeerCmd r p ct"
  by (auto simp: changePeerCmd_def transferCmd_def)

lemma set_GetAllStores: "st \<in> set (GetAllStores order m) \<Longrightarrow> \<exists>i \<in> set order. md_stores m i = Some st"
  by (auto simp: GetAllStores_def List.map_filter_def)

text \<open>The commands that add a peer.\<close>

definition add_ok :: "map_orders \<Rightarrow> MetadataStore \<Rightarrow> Region \<Rightarrow> u64 \<Rightarrow> Peer \<Rightarrow> bool" where
  "add_ok ord m region freshID p \<longleftrightarrow>
     peer_StoreId p \<noteq> 0 \<and> \<not> hasPeerOnStore region (peer_StoreId p) \<and> IsStoreSchedulable (peer_StoreId p) m \<and>
     (\<exists>st \<in> set (GetAllStores (mo_stores ord) m). ms_Id st = peer_StoreId p) \<and> peer_Id p = freshID"

lemma find_Some_mem: "find P xs = Some x \<Longrightarrow> x \<in> set xs \<and> P x"
  by (auto simp: find_Some_iff)

lemma scheduleReplicaRepair_add:
  assumes "scheduleReplicaRepair cfg ord m r region s = (Some cmd, s')"
  shows "\<exists>p. cmd = changePeerCmd r (Some p) AddNode \<and> add_ok ord m region (ida_nextID (ss_idAlloc s)) p \<and>
    ida_nextID (ss_idAlloc s') = ida_nextID (ss_idAlloc s) + 1"
  using assms
  by (auto simp: scheduleReplicaRepair_def pickStoreForRegion_def add_ok_def Let_def ID_Alloc_def
      split: if_splits option.splits dest!: find_Some_mem)

lemma scheduleRegionBalance_add:
  assumes "scheduleRegionBalance fl cfg now ord m r region leader s = (Some cmd, s')"
  shows "\<exists>p. cmd = changePeerCmd r (Some p) AddNode \<and> add_ok ord m region (ida_nextID (ss_idAlloc s)) p \<and>
    ida_nextID (ss_idAlloc s') = ida_nextID (ss_idAlloc s) + 1"
  using assms
  by (auto simp: scheduleRegionBalance_def add_ok_def Let_def ID_Alloc_def
      split: if_splits option.splits prod.splits dest!: find_Some_mem)

lemma maxPeer_loop_mem:
  "maxPeer_loop counts leader ps acc = (Some p, c) \<Longrightarrow>
   fst acc = Some p \<or> (p \<in> set ps \<and> (\<forall>l. leader = Some l \<longrightarrow> peer_Id p \<noteq> peer_Id l))"
  by (induction counts leader ps acc rule: maxPeer_loop.induct) (auto split: option.splits if_splits)

lemma scheduleExcess_remove:
  assumes "scheduleExcessReplicaShedding cfg ord m r region leader = Some cmd"
  shows "\<exists>p. cmd = changePeerCmd r (Some p) RemoveNode \<and> p \<in> set (rg_Peers region) \<and>
    sg_maxPeerCount cfg < int (length (rg_Peers region)) \<and> (\<forall>l. leader = Some l \<longrightarrow> peer_Id p \<noteq> peer_Id l)"
proof -
  obtain p c where l: "maxPeer_loop (GetRegionCountPerStore (mo_regions ord) m) leader (rg_Peers region) (None, - 1) = (Some p, c)"
    and cmd: "cmd = changePeerCmd r (Some p) RemoveNode" "sg_maxPeerCount cfg < int (length (rg_Peers region))"
    using assms by (auto simp: scheduleExcessReplicaShedding_def split: if_splits option.splits) (metis prod.collapse)
  then show ?thesis using maxPeer_loop_mem [OF l] by auto
qed

lemma scheduleLeaderBalance_transfer:
  "scheduleLeaderBalance ord m r region leader = Some cmd \<Longrightarrow> \<exists>p. cmd = transferCmd r p"
  by (auto simp: scheduleLeaderBalance_def Let_def split: option.splits if_splits prod.splits)

text \<open>Everything the scheduler may answer when no move is pending.\<close>

lemma scheduleOthers_cases:
  assumes "scheduleOthers fl cfg now ord m r region leader s = (Some cmd, s')"
  shows "(\<exists>p. cmd = changePeerCmd r (Some p) RemoveNode \<and> p \<in> set (rg_Peers region) \<and>
      sg_maxPeerCount cfg < int (length (rg_Peers region)) \<and> (\<forall>l. leader = Some l \<longrightarrow> peer_Id p \<noteq> peer_Id l)) \<or>
    (\<exists>p. cmd = changePeerCmd r (Some p) AddNode \<and> add_ok ord m region (ida_nextID (ss_idAlloc s)) p \<and>
      ida_nextID (ss_idAlloc s') = ida_nextID (ss_idAlloc s) + 1) \<or>
    (\<exists>p. cmd = transferCmd r p)"
proof (cases "scheduleExcessReplicaShedding cfg ord m r region leader")
  case (Some c)
  then show ?thesis using assms scheduleExcess_remove [OF Some] by (auto simp: scheduleOthers_def)
next
  case None
  obtain c1 s1 where r1: "scheduleReplicaRepair cfg ord m r region s = (c1, s1)" by force
  show ?thesis
  proof (cases c1)
    case (Some c)
    then show ?thesis using assms None r1 scheduleReplicaRepair_add [of cfg ord m r region s c s1] by (auto simp: scheduleOthers_def)
  next
    case c1: None
    then have "s1 = s" using r1 by (auto simp: scheduleReplicaRepair_def Let_def split: if_splits prod.splits)
    then show ?thesis
      using assms None r1 c1 scheduleRegionBalance_add [of fl cfg now ord m r region leader s] scheduleLeaderBalance_transfer
      by (fastforce simp: scheduleOthers_def split: prod.splits option.splits)
  qed
qed

lemma advanceMove_cmd:
  assumes "advanceMove r region leader mv = (Some cmd, mv')"
  shows "(cmd = changePeerCmd r (pm_SourcePeer mv) RemoveNode \<and> pm_State mv \<noteq> MoveStateAdding) \<or> (\<exists>p. cmd = transferCmd r p)"
  using assms by (auto simp: advanceMove_def Let_def split: MoveState.splits if_splits option.splits)

lemma Advance_cmd:
  assumes "Advance r (Some region) leader t = (Some cmd, t')"
  shows "\<exists>mv. map_of (mt_moves t) r = Some mv \<and>
    ((cmd = changePeerCmd r (pm_SourcePeer mv) RemoveNode \<and> pm_State mv \<noteq> MoveStateAdding) \<or> (\<exists>p. cmd = transferCmd r p))"
proof -
  obtain mv where mv: "map_of (mt_moves t) r = Some mv" using assms by (auto simp: Advance_def Let_def split: option.splits)
  obtain c mv' where a: "advanceMove r region leader mv = (c, mv')" by force
  then have "c = Some cmd" using assms mv by (auto simp: Advance_def Let_def split: option.splits)
  then show ?thesis using mv advanceMove_cmd a by blast
qed

subsection \<open>The life of a move\<close>

fun moves_run :: "u64 \<Rightarrow> (Region \<times> Peer option) list \<Rightarrow> MoveTracker \<Rightarrow> ScheduleCommand option list" where
  "moves_run r [] t = []"
| "moves_run r ((region, leader) # hbs) t =
     (let (cmd, t) = Advance r (Some region) leader t in cmd # moves_run r hbs t)"

definition seen :: "u64 \<Rightarrow> Region \<times> Peer option \<Rightarrow> bool" where
  "seen target hb \<longleftrightarrow> hasPeerOnStore (fst hb) target"

text \<open>What the heartbeats \<open>hs\<close> so far must have contained for the move to be in its state.\<close>

definition move_hist :: "u64 \<Rightarrow> PendingMove \<Rightarrow> (Region \<times> Peer option) list \<Rightarrow> bool" where
  "move_hist target mv hs \<longleftrightarrow>
     pm_TargetStoreID mv = target \<and>
     (case pm_State mv of
        MoveStateAdding \<Rightarrow> True
      | MoveStateStabilizing \<Rightarrow>
          0 \<le> pm_StabilizeCount mv \<and>
          (\<exists>k. int k + 1 + pm_StabilizeCount mv \<le> int (length hs) \<and> k < length hs \<and> seen target (hs ! k))
      | _ \<Rightarrow> \<exists>k. k + 4 \<le> length hs \<and> seen target (hs ! k))"

lemma nth_snoc_old: "k < length hs \<Longrightarrow> (hs @ [x]) ! k = hs ! k"
  by (simp add: nth_append)

lemma advanceMove_hist:
  assumes "move_hist target mv hs" "advanceMove r region leader mv = (cmd, mv')"
  shows "(\<forall>m. mv' = Some m \<longrightarrow> move_hist target m (hs @ [(region, leader)])) \<and>
    (is_remove cmd \<longrightarrow> (\<exists>k. k + 4 \<le> length (hs @ [(region, leader)]) \<and> seen target ((hs @ [(region, leader)]) ! k)))"
proof (cases "pm_State mv")
  case MoveStateAdding
  have "seen target ((hs @ [(region, leader)]) ! length hs)" if "hasPeerOnStore region target"
    using that by (simp add: seen_def)
  then show ?thesis
    using assms MoveStateAdding
    by (auto simp: advanceMove_def move_hist_def is_remove_def Let_def split: if_splits option.splits
        intro!: exI [of _ "length hs"])
next
  case MoveStateStabilizing
  then obtain k where k: "int k + 1 + pm_StabilizeCount mv \<le> int (length hs)" "k < length hs" "seen target (hs ! k)"
    and c: "0 \<le> pm_StabilizeCount mv" using assms(1) by (auto simp: move_hist_def)
  have s: "seen target ((hs @ [(region, leader)]) ! k)" using k by (simp add: nth_append)
  show ?thesis
  proof (cases "pm_StabilizeCount mv + 1 < stabilizeHeartbeats")
    case True
    then show ?thesis using assms MoveStateStabilizing k c s
      by (auto simp: advanceMove_def move_hist_def is_remove_def Let_def intro!: exI [of _ k])
  next
    case False
    then have "k + 4 \<le> length (hs @ [(region, leader)])" using k(1) by (simp add: stabilizeHeartbeats_def)
    then have "\<exists>k. k + 4 \<le> length (hs @ [(region, leader)]) \<and> seen target ((hs @ [(region, leader)]) ! k)" using s by blast
    then show ?thesis using assms MoveStateStabilizing False
      by (auto simp: advanceMove_def move_hist_def Let_def split: if_splits option.splits)
  qed
next
  case MoveStateTransferring
  then obtain k where "k + 4 \<le> length hs" "seen target (hs ! k)" using assms(1) by (auto simp: move_hist_def)
  then have "\<exists>k. k + 4 \<le> length (hs @ [(region, leader)]) \<and> seen target ((hs @ [(region, leader)]) ! k)"
    by (intro exI [of _ k]) (simp add: nth_append)
  then show ?thesis using assms MoveStateTransferring
    by (auto simp: advanceMove_def move_hist_def Let_def split: if_splits option.splits)
next
  case MoveStateRemoving
  then obtain k where "k + 4 \<le> length hs" "seen target (hs ! k)" using assms(1) by (auto simp: move_hist_def)
  then have "\<exists>k. k + 4 \<le> length (hs @ [(region, leader)]) \<and> seen target ((hs @ [(region, leader)]) ! k)"
    by (intro exI [of _ k]) (simp add: nth_append)
  then show ?thesis using assms MoveStateRemoving
    by (auto simp: advanceMove_def move_hist_def Let_def split: if_splits option.splits)
qed

lemma moves_run_idle: "map_of (mt_moves t) r = None \<Longrightarrow> n < length hbs \<Longrightarrow> moves_run r hbs t ! n = None"
proof (induction hbs arbitrary: t n)
  case (Cons hb hbs)
  obtain region leader where hb: "hb = (region, leader)" by force
  have "Advance r (Some region) leader t = (None, t\<lparr>mt_heartbeatCount := mt_heartbeatCount t + 1\<rparr>)"
    using Cons.prems(1) by (simp add: Advance_def)
  then show ?case using Cons hb by (cases n) simp_all
qed simp

lemma Advance_move:
  assumes "map_of (mt_moves t) r = Some mv" "advanceMove r region leader mv = (cmd, mv')"
  shows "\<exists>t'. Advance r (Some region) leader t = (cmd, t') \<and> map_of (mt_moves t') r = mv'"
  using assms by (cases mv') (auto simp: Advance_def Let_def update_conv' delete_conv')

lemma moves_run_hist:
  "map_of (mt_moves t) r = Some mv \<Longrightarrow> move_hist target mv hs \<Longrightarrow> n < length hbs \<Longrightarrow> is_remove (moves_run r hbs t ! n) \<Longrightarrow>
   \<exists>k. k + 4 \<le> Suc (length hs + n) \<and> seen target ((hs @ hbs) ! k)"
proof (induction hbs arbitrary: t mv hs n)
  case (Cons hb hbs)
  obtain region leader where hb: "hb = (region, leader)" by force
  obtain cmd mv' where a: "advanceMove r region leader mv = (cmd, mv')" by force
  obtain t' where adv: "Advance r (Some region) leader t = (cmd, t')" "map_of (mt_moves t') r = mv'"
    using Advance_move [OF Cons.prems(1) a] by blast
  note h = advanceMove_hist [OF Cons.prems(2) a]
  show ?case
  proof (cases n)
    case 0
    then have "is_remove cmd" using Cons.prems(4) hb adv by simp
    then obtain k where "k + 4 \<le> length (hs @ [hb])" "seen target ((hs @ [hb]) ! k)" using h hb by blast
    then show ?thesis using 0 by (intro exI [of _ k]) (auto simp: nth_append)
  next
    case (Suc n')
    then have rm: "is_remove (moves_run r hbs t' ! n')" "n' < length hbs" using Cons.prems(3,4) hb adv by auto
    show ?thesis
    proof (cases mv')
      case None
      then show ?thesis using moves_run_idle [OF _ rm(2)] adv(2) rm(1) by (simp add: is_remove_def)
    next
      case (Some m)
      then show ?thesis
        using Cons.IH [of t' m "hs @ [hb]" n'] adv(2) h rm hb Suc by (auto simp: add.commute)
    qed
  qed
qed simp

section \<open>Properties of the scheduler\<close>

text \<open>C23: A move removes the old peer only after the new one is there. Whatever heartbeats
  arrive after a move has started, when one of them is answered with a command that removes a peer, then an earlier one
  reported a peer on the target store, and at least three heartbeats lie between.\<close>

theorem move_waits_for_target:
  assumes "n < length hbs" "is_remove (moves_run r hbs (StartMove now r source target t) ! n)"
  shows "\<exists>k. k + 3 \<le> n \<and> hasPeerOnStore (fst (hbs ! k)) target"
proof -
  let ?mv = "\<lparr>pm_RegionID = r, pm_SourcePeer = source, pm_TargetStoreID = target, pm_TargetPeerID = 0,
    pm_State = MoveStateAdding, pm_StartedAt = now, pm_StabilizeCount = 0\<rparr>"
  have "map_of (mt_moves (StartMove now r source target t)) r = Some ?mv" by (simp add: StartMove_def update_conv')
  moreover have "move_hist target ?mv []" by (simp add: move_hist_def)
  ultimately show ?thesis using moves_run_hist [OF _ _ assms, of ?mv target "[]"] by (auto simp: seen_def add.commute)
qed

definition movedRegion :: Region where
  "movedRegion = \<lparr>rg_Id = 2, rg_StartKey = [], rg_EndKey = [], rg_RegionEpoch = None,
     rg_Peers = [\<lparr>peer_Id = 5, peer_StoreId = 1, peer_Role = 0\<rparr>, \<lparr>peer_Id = 9, peer_StoreId = 4, peer_Role = 0\<rparr>]\<rparr>"

theorem move_waits_for_target_witness:
  "\<exists>k. k + 3 \<le> (3 :: nat) \<and> hasPeerOnStore (fst ((replicate 4 (movedRegion, None :: Peer option)) ! k)) 4"
  by (rule move_waits_for_target [of 3 "replicate 4 (movedRegion, None)" 2 0 "Some \<lparr>peer_Id = 5, peer_StoreId = 1, peer_Role = 0\<rparr>" 4
        NewMoveTracker])
    (simp_all add: numeral_eq_Suc is_remove_def Advance_def advanceMove_def movedRegion_def hasPeerOnStore_def StartMove_def
      NewMoveTracker_def Let_def stabilizeHeartbeats_def storeOf_def)


definition sampleMeta :: MetadataStore where
  "sampleMeta = PutStore (Some \<lparr>ms_Id = 7, ms_Address = []\<rparr>) (NewMetadataStore 0 0)"

definition sampleOrders :: map_orders where
  "sampleOrders = \<lparr>mo_stores = [7], mo_regions = [], mo_leaders = []\<rparr>"

definition sampleSched :: SchedState where
  "sampleSched = \<lparr>ss_idAlloc = NewIDAllocator, ss_moveTracker = None\<rparr>"


end
