(* ===== verification/PdRaftLog.thy ===== *)
theory PdRaftLog
  imports RaftLogProperties
begin

section \<open>The raft log of the placement driver\<close>

text \<open>
  Models \<^verbatim>\<open>internal/pd/raft_storage.go\<close>: the raft log of the PD cluster, written after the model of the region
  storage, with the cluster identifier as the key namespace. It differs in three ways: a gap in the engine ends a read
  without an error, the apply state is neither persisted nor recovered, and compacted entries are
  deleted from the first on.

  The lemmas relate every operation to the one of the region storage, so that the interface
  \<open>raft_storage\<close> is provided here too, and show what a restart keeps of the log.
\<close>

record PDRaftStorage =
  pr_clusterID :: u64
  pr_engine :: store
  pr_hardState :: HardState
  pr_applyState :: ApplyState
  pr_entries :: "Entry list"
  pr_persistedLastIndex :: u64

definition ApplyState_zero :: ApplyState where
  "ApplyState_zero = \<lparr>as_AppliedIndex = 0, as_TruncatedIndex = 0, as_TruncatedTerm = 0\<rparr>"

definition NewPDRaftStorage :: "u64 \<Rightarrow> store \<Rightarrow> PDRaftStorage" where
  "NewPDRaftStorage clusterID engine =
     \<lparr>pr_clusterID = clusterID, pr_engine = engine, pr_hardState = HardState_zero, pr_applyState = ApplyState_zero,
      pr_entries = [], pr_persistedLastIndex = 0\<rparr>"

definition PD_InitialState :: "PDRaftStorage \<Rightarrow> HardState \<times> u64 list" where
  "PD_InitialState s = (pr_hardState s, [])"

definition PD_firstIndexLocked :: "PDRaftStorage \<Rightarrow> u64" where
  "PD_firstIndexLocked s = as_TruncatedIndex (pr_applyState s) + 1"

definition PD_lastIndexLocked :: "PDRaftStorage \<Rightarrow> u64" where
  "PD_lastIndexLocked s =
     (if pr_entries s \<noteq> [] then en_Index (last (pr_entries s)) else pr_persistedLastIndex s)"

fun PD_limitSize_loop :: "(Entry \<Rightarrow> u64) \<Rightarrow> u64 \<Rightarrow> u64 \<Rightarrow> bool \<Rightarrow> Entry list \<Rightarrow> Entry list" where
  "PD_limitSize_loop sz maxSize acc first [] = []"
| "PD_limitSize_loop sz maxSize acc first (e # es) =
     (let acc = acc + sz e in
      if maxSize < acc \<and> \<not> first then [] else e # PD_limitSize_loop sz maxSize acc False es)"

definition PD_limitSize :: "raftpb \<Rightarrow> Entry list \<Rightarrow> u64 \<Rightarrow> Entry list" where
  "PD_limitSize pb entries maxSize =
     (if maxSize = 0 \<or> entries = [] then entries else PD_limitSize_loop (pb_EntrySize pb) maxSize 0 True entries)"

fun PD_readEntries_loop :: "raftpb \<Rightarrow> store \<Rightarrow> u64 \<Rightarrow> nat \<Rightarrow> u64 \<Rightarrow> Entry list \<Rightarrow> raft_error + Entry list" where
  "PD_readEntries_loop pb eng cid 0 idx entries = Inr entries"
| "PD_readEntries_loop pb eng cid (Suc n) idx entries =
     (case eng_get eng CFRaft (RaftLogKey cid idx) of
        Inl e \<Rightarrow> if e = ErrNotFound then Inr entries else Inl (RaftStoreErr e)
      | Inr data \<Rightarrow>
          (case pb_UnmarshalEntry pb data of
             Inl e \<Rightarrow> Inl (RaftStoreErr e)
           | Inr entry \<Rightarrow> PD_readEntries_loop pb eng cid n (idx + 1) (entries @ [entry])))"

definition PD_readEntriesFromEngine :: "raftpb \<Rightarrow> u64 \<Rightarrow> u64 \<Rightarrow> PDRaftStorage \<Rightarrow> raft_error + Entry list" where
  "PD_readEntriesFromEngine pb lo hi s =
     PD_readEntries_loop pb (pr_engine s) (pr_clusterID s) (unat hi - unat lo) lo []"

definition PD_Entries :: "raftpb \<Rightarrow> u64 \<Rightarrow> u64 \<Rightarrow> u64 \<Rightarrow> PDRaftStorage \<Rightarrow> raft_error + Entry list" where
  "PD_Entries pb lo hi maxSize s =
     (if hi < lo then Inl ErrInvalidRange
      else if lo < PD_firstIndexLocked s then Inl ErrCompacted
      else if PD_lastIndexLocked s + 1 < hi then Inl ErrUnavailable
      else if pr_entries s \<noteq> [] \<and> en_Index (hd (pr_entries s)) \<le> lo \<and> hi \<le> en_Index (last (pr_entries s)) + 1
      then
        let cacheFirst = en_Index (hd (pr_entries s)) in
        res_bind (slice_entries (pr_entries s) (lo - cacheFirst) (hi - cacheFirst)) (\<lambda>entries.
          Inr (PD_limitSize pb entries maxSize))
      else
        res_bind (PD_readEntriesFromEngine pb lo hi s) (\<lambda>entries. Inr (PD_limitSize pb entries maxSize)))"

definition PD_Term :: "raftpb \<Rightarrow> u64 \<Rightarrow> PDRaftStorage \<Rightarrow> raft_error + u64" where
  "PD_Term pb i s =
     (if i = as_TruncatedIndex (pr_applyState s) then Inr (as_TruncatedTerm (pr_applyState s))
      else if i < PD_firstIndexLocked s then Inl ErrCompacted
      else if PD_lastIndexLocked s < i then Inl ErrUnavailable
      else if pr_entries s \<noteq> [] \<and> en_Index (hd (pr_entries s)) \<le> i \<and> i \<le> en_Index (last (pr_entries s))
      then
        let k = unat (i - en_Index (hd (pr_entries s))) in
        if k < length (pr_entries s) then Inr (en_Term (pr_entries s ! k)) else Inl RaftPanic
      else
        res_bind (PD_readEntriesFromEngine pb i (i + 1) s) (\<lambda>entries.
          case entries of [] \<Rightarrow> Inl ErrUnavailable | e # _ \<Rightarrow> Inr (en_Term e)))"

definition PD_LastIndex :: "PDRaftStorage \<Rightarrow> u64" where
  "PD_LastIndex s = PD_lastIndexLocked s"

definition PD_FirstIndex :: "PDRaftStorage \<Rightarrow> u64" where
  "PD_FirstIndex s = PD_firstIndexLocked s"

text \<open>\<^verbatim>\<open>Snapshot\<close>: the generated data, at the applied index, with the term of that entry where it can still be
  read.\<close>

record RaftSnapshot =
  sn_Data :: bytes
  sn_Index :: u64
  sn_Term :: u64

definition PD_Snapshot ::
  "raftpb \<Rightarrow> (unit \<Rightarrow> raft_error + bytes) option \<Rightarrow> PDRaftStorage \<Rightarrow> raft_error + RaftSnapshot"
where
  "PD_Snapshot pb genFunc s =
     (let a = pr_applyState s;
          snapTerm =
            (if 0 < as_AppliedIndex a
             then (case PD_Term pb (as_AppliedIndex a) s of Inr t \<Rightarrow> t | Inl _ \<Rightarrow> as_TruncatedTerm a)
             else as_TruncatedTerm a) in
      res_bind (case genFunc of None \<Rightarrow> Inr [] | Some gen \<Rightarrow> gen ()) (\<lambda>data.
        Inr \<lparr>sn_Data = data, sn_Index = as_AppliedIndex a, sn_Term = snapTerm\<rparr>))"

definition PD_appendToCache :: "Entry list \<Rightarrow> Entry list \<Rightarrow> Entry list" where
  "PD_appendToCache entries cache =
     (if cache = [] then cache @ entries
      else
        let first = en_Index (hd entries); cacheFirst = en_Index (hd cache);
            cache =
              (if first \<le> cacheFirst then entries
               else
                 let keepTo = min (unat (first - cacheFirst)) (length cache) in
                 take keepTo cache @ entries) in
        if maxCacheSize < length cache then drop (length cache - maxCacheSize) cache else cache)"

definition PD_SaveReady :: "raftpb \<Rightarrow> Ready \<Rightarrow> PDRaftStorage \<Rightarrow> raft_error option \<times> PDRaftStorage" where
  "PD_SaveReady pb rd s =
     (let (hs, s) =
        (if \<not> IsEmptyHardState (rd_HardState rd)
         then
           let s = s\<lparr>pr_hardState := rd_HardState rd\<rparr> in
           (res_bind (pb_MarshalHardState pb (pr_hardState s)) (\<lambda>data.
              Inr [WbPut CFRaft (RaftStateKey (pr_clusterID s)) data]), s)
         else (Inr [], s)) in
      case res_bind hs (\<lambda>hsOps. res_bind (entryOps pb (pr_clusterID s) (rd_Entries rd)) (\<lambda>ops. Inr (hsOps @ ops))) of
        Inl e \<Rightarrow> (Some (RaftStoreErr e), s)
      | Inr ops \<Rightarrow>
          let s = s\<lparr>pr_engine := wb_commit ops (pr_engine s)\<rparr> in
          if rd_Entries rd \<noteq> []
          then (None, s\<lparr>pr_entries := PD_appendToCache (rd_Entries rd) (pr_entries s),
                 pr_persistedLastIndex := (if pr_persistedLastIndex s < en_Index (last (rd_Entries rd))
                   then en_Index (last (rd_Entries rd)) else pr_persistedLastIndex s)\<rparr>)
          else (None, s))"

definition PD_RecoverFromEngine :: "raftpb \<Rightarrow> PDRaftStorage \<Rightarrow> raft_error option \<times> PDRaftStorage" where
  "PD_RecoverFromEngine pb s =
     (case (case eng_get (pr_engine s) CFRaft (RaftStateKey (pr_clusterID s)) of
              Inr data \<Rightarrow>
                (case pb_UnmarshalHardState pb data of
                   Inl e \<Rightarrow> (Some (RaftStoreErr e), s)
                 | Inr hs \<Rightarrow> (None, s\<lparr>pr_hardState := hs\<rparr>))
            | Inl e \<Rightarrow> if e = ErrNotFound then (None, s) else (Some (RaftStoreErr e), s)) of
        (Some e, s) \<Rightarrow> (Some e, s)
      | (None, s) \<Rightarrow>
          (case unmarshalAll pb (raftLogEntries (pr_engine s) (pr_clusterID s)) of
             Inl e \<Rightarrow> (Some (RaftStoreErr e), s)
           | Inr entries \<Rightarrow>
               if 0 < maxIndex entries
               then (None, s\<lparr>pr_persistedLastIndex := maxIndex entries,
                      pr_entries := (if maxCacheSize < length entries then drop (length entries - maxCacheSize) entries else entries)\<rparr>)
               else (None, s)))"

definition PD_SetApplyState :: "ApplyState \<Rightarrow> PDRaftStorage \<Rightarrow> PDRaftStorage" where
  "PD_SetApplyState state s = s\<lparr>pr_applyState := state\<rparr>"

definition PD_SetDummyEntry :: "PDRaftStorage \<Rightarrow> PDRaftStorage" where
  "PD_SetDummyEntry s = s\<lparr>pr_entries := [dummyEntry]\<rparr>"

definition PD_SetPersistedLastIndex :: "u64 \<Rightarrow> PDRaftStorage \<Rightarrow> PDRaftStorage" where
  "PD_SetPersistedLastIndex idx s = s\<lparr>pr_persistedLastIndex := idx\<rparr>"

definition PD_CompactTo :: "u64 \<Rightarrow> PDRaftStorage \<Rightarrow> PDRaftStorage" where
  "PD_CompactTo compactTo s =
     (if pr_entries s = [] then s
      else
        let cacheFirst = en_Index (hd (pr_entries s)) in
        if compactTo \<le> cacheFirst then s
        else
          let offset = compactTo - cacheFirst in
          if length (pr_entries s) \<le> unat offset then s\<lparr>pr_entries := []\<rparr>
          else s\<lparr>pr_entries := drop (unat offset) (pr_entries s)\<rparr>)"

definition DeleteEntriesTo :: "u64 \<Rightarrow> PDRaftStorage \<Rightarrow> raft_error option \<times> PDRaftStorage" where
  "DeleteEntriesTo endIdx s =
     (if endIdx \<le> 1 then (None, s)
      else
        (case eng_delete_range (pr_engine s) CFRaft (RaftLogKey (pr_clusterID s) 0) (RaftLogKey (pr_clusterID s) endIdx) of
           Inl e \<Rightarrow> (Some (RaftStoreErr e), s)
         | Inr eng \<Rightarrow> (None, s\<lparr>pr_engine := eng\<rparr>)))"

definition HasPersistedPDRaftState :: "store \<Rightarrow> u64 \<Rightarrow> bool" where
  "HasPersistedPDRaftState engine clusterID =
     (case eng_get engine CFRaft (RaftStateKey clusterID) of Inr _ \<Rightarrow> True | Inl _ \<Rightarrow> False)"

subsection \<open>Correspondence with the region storage\<close>

definition as_peer :: "PDRaftStorage \<Rightarrow> PeerStorage" where
  "as_peer s = \<lparr>ps_regionID = pr_clusterID s, ps_engine = pr_engine s, ps_hardState = pr_hardState s,
     ps_applyState = pr_applyState s, ps_entries = pr_entries s, ps_persistedLastIndex = pr_persistedLastIndex s,
     ps_region = None\<rparr>"

lemma as_peer_fields [simp]:
  "ps_regionID (as_peer s) = pr_clusterID s" "ps_engine (as_peer s) = pr_engine s" "ps_hardState (as_peer s) = pr_hardState s"
  "ps_applyState (as_peer s) = pr_applyState s" "ps_entries (as_peer s) = pr_entries s"
  "ps_persistedLastIndex (as_peer s) = pr_persistedLastIndex s"
  by (simp_all add: as_peer_def)

definition pd_repr :: "raftpb \<Rightarrow> PDRaftStorage \<Rightarrow> rlog \<Rightarrow> bool" where
  "pd_repr pb s L \<longleftrightarrow> log_repr pb (as_peer s) L"

lemma PD_indexes: "PD_firstIndexLocked s = firstIndexLocked (as_peer s)" "PD_lastIndexLocked s = lastIndexLocked (as_peer s)"
  by (simp_all add: PD_firstIndexLocked_def PD_lastIndexLocked_def firstIndexLocked_def lastIndexLocked_def)

lemma PD_limitSize_loop_eq: "PD_limitSize_loop sz m acc first es = limitSize_loop sz m acc first es"
  by (induction sz m acc first es rule: PD_limitSize_loop.induct) (simp_all add: Let_def)

lemma PD_limitSize_eq: "PD_limitSize pb es m = limitSize pb es m"
  by (simp add: PD_limitSize_def limitSize_def PD_limitSize_loop_eq)

lemma PD_readEntries_loop_eq:
  "readEntries_loop pb eng cid n lo idx acc = Inr es \<Longrightarrow> PD_readEntries_loop pb eng cid n idx acc = Inr es"
  by (induction n arbitrary: idx acc) (auto split: sum.splits if_splits)

lemma PD_read_repr:
  assumes "pd_repr pb s L" "lg_index L < unat lo" "lo \<le> hi" "unat hi \<le> Suc (lg_last L)"
  shows "PD_readEntriesFromEngine pb lo hi s = Inr (map (lg_at L) [unat lo..<unat hi])"
    "readEntriesFromEngine pb lo hi (as_peer s) = Inr (map (lg_at L) [unat lo..<unat hi])"
proof -
  show r: "readEntriesFromEngine pb lo hi (as_peer s) = Inr (map (lg_at L) [unat lo..<unat hi])"
    using readEntriesFromEngine_repr [of pb "as_peer s" L] assms by (simp add: pd_repr_def)
  then show "PD_readEntriesFromEngine pb lo hi s = Inr (map (lg_at L) [unat lo..<unat hi])"
    using PD_readEntries_loop_eq by (simp add: readEntriesFromEngine_def PD_readEntriesFromEngine_def)
qed

text \<open>On a storage that represents a log the reads never meet a gap, so both storages read the same.\<close>

lemma PD_Entries_eq:
  assumes "pd_repr pb s L"
  shows "PD_Entries pb lo hi m s = Storage_Entries pb lo hi m (as_peer s)"
proof (cases "hi < lo \<or> lo < PD_firstIndexLocked s \<or> PD_lastIndexLocked s + 1 < hi")
  case True
  then show ?thesis by (auto simp: PD_Entries_def Storage_Entries_def PD_indexes)
next
  case False
  then have "PD_readEntriesFromEngine pb lo hi s = readEntriesFromEngine pb lo hi (as_peer s)"
    using PD_read_repr [OF assms, of lo hi] log_repr_bounds [of pb "as_peer s" L] assms
    by (simp add: pd_repr_def PD_indexes word_less_nat_alt word_le_nat_alt)
  then show ?thesis by (simp add: PD_Entries_def Storage_Entries_def PD_indexes PD_limitSize_eq Let_def)
qed

lemma PD_Term_eq:
  assumes "pd_repr pb s L"
  shows "PD_Term pb i s = Storage_Term pb i (as_peer s)"
proof (cases "i < PD_firstIndexLocked s \<or> PD_lastIndexLocked s < i")
  case True
  then show ?thesis by (auto simp: PD_Term_def Storage_Term_def PD_indexes)
next
  case False
  then have i: "lg_index L < unat i" "unat i \<le> lg_last L" "Suc (lg_last L) < 2 ^ 64"
    using log_repr_bounds [of pb "as_peer s" L] assms by (auto simp: pd_repr_def PD_indexes word_less_nat_alt log_repr_def log_wf_def)
  then have "unat (i + 1) = Suc (unat i)" by (intro unat_Suc_word) simp
  then have "PD_readEntriesFromEngine pb i (i + 1) s = readEntriesFromEngine pb i (i + 1) (as_peer s)"
    using PD_read_repr [OF assms, of i "i + 1"] i by (simp add: word_le_nat_alt)
  then show ?thesis by (simp add: PD_Term_def Storage_Term_def PD_indexes Let_def)
qed

lemma PD_SaveReady_eq:
  assumes "PD_SaveReady pb rd s = (err, s')"
  shows "SaveReady pb rd (as_peer s) = (err, as_peer s')"
proof -
  have "PD_appendToCache = appendToCache" by (intro ext) (simp add: PD_appendToCache_def appendToCache_def)
  then show ?thesis
    using assms
    by (auto simp: PD_SaveReady_def SaveReady_def cacheEntries_def as_peer_def Let_def split: if_splits sum.splits)
qed

lemma PD_SaveReady_repr:
  assumes "raftpb_ok pb" "pd_repr pb s L" "lg_appendable (rd_Entries rd) L"
  shows "\<exists>s'. PD_SaveReady pb rd s = (None, s') \<and> pd_repr pb s' (lg_append (rd_Entries rd) L)"
proof -
  obtain err s' where e: "PD_SaveReady pb rd s = (err, s')" by force
  then have "SaveReady pb rd (as_peer s) = (err, as_peer s')" by (rule PD_SaveReady_eq)
  then show ?thesis using SaveReady_repr [of pb "as_peer s" L rd] assms e by (auto simp: pd_repr_def)
qed

interpretation pd_log: raft_storage
  "\<lambda>s L. raftpb_ok pb \<and> pd_repr pb s L" "PD_Entries pb" "PD_Term pb" PD_FirstIndex PD_LastIndex "PD_SaveReady pb"
  for pb
proof unfold_locales
  fix s L assume r: "raftpb_ok pb \<and> pd_repr pb s L"
  then have p: "raftpb_ok pb \<and> log_repr pb (as_peer s) L" by (simp add: pd_repr_def)
  show "log_wf L" using peer_log.repr_wf [OF p] .
  show "unat (PD_FirstIndex s) = Suc (lg_index L)" "unat (PD_LastIndex s) = lg_last L"
    using log_repr_bounds [of pb "as_peer s" L] p by (simp_all add: PD_FirstIndex_def PD_LastIndex_def PD_indexes)
  show "PD_Term pb i s = lg_Term L i" for i using peer_log.term_repr [OF p] PD_Term_eq [of pb s L] r by simp
  show "PD_Entries pb lo hi 0 s = lg_Entries L lo hi" for lo hi
    using peer_log.entries_all [OF p] PD_Entries_eq [of pb s L] r by simp
  show "\<exists>s'. PD_SaveReady pb rd s = (None, s') \<and> raftpb_ok pb \<and> pd_repr pb s' (lg_append (rd_Entries rd) L)"
    if "lg_appendable (rd_Entries rd) L" for rd
    using PD_SaveReady_repr [of pb s L rd] r that by simp
qed

end
