(* ===== verification/PdServer.thy ===== *)
theory PdServer
  imports PdSchedule PdRaftLog
begin

section \<open>The replicated state machine of the placement driver\<close>

text \<open>
  Models \<^verbatim>\<open>internal/pd/command.go\<close>, \<^verbatim>\<open>apply.go\<close>, \<^verbatim>\<open>snapshot.go\<close>, the request handlers and the log replay of
  \<^verbatim>\<open>server.go\<close>, and the proposal queue and the application of committed entries of \<^verbatim>\<open>raft_peer.go\<close>. Commands, results and
  snapshots are encoded by \<^verbatim>\<open>encoding/json\<close>, which is the argument \<open>js\<close>; \<open>json_ok\<close> states that what it encodes it
  decodes. Each application of a command reads the local clock, given as \<open>clk\<close>. A proposal that succeeds applies
  its command on the leader.

  The lemmas show that commands and snapshots survive their encoding, that replicas that apply the same
  commands agree on all state that does not come from a clock, and that the handlers do the
  same with and without replication.
\<close>

subsection \<open>Commands\<close>

definition CmdSetBootstrapped :: byte where "CmdSetBootstrapped = 1"
definition CmdPutStore :: byte where "CmdPutStore = 2"
definition CmdPutRegion :: byte where "CmdPutRegion = 3"
definition CmdUpdateStoreStats :: byte where "CmdUpdateStoreStats = 4"
definition CmdSetStoreState :: byte where "CmdSetStoreState = 5"
definition CmdTSOAllocate :: byte where "CmdTSOAllocate = 6"
definition CmdIDAlloc :: byte where "CmdIDAlloc = 7"
definition CmdUpdateGCSafePoint :: byte where "CmdUpdateGCSafePoint = 8"
definition CmdStartMove :: byte where "CmdStartMove = 9"
definition CmdAdvanceMove :: byte where "CmdAdvanceMove = 10"
definition CmdCleanupStaleMove :: byte where "CmdCleanupStaleMove = 11"
definition CmdCompactLog :: byte where "CmdCompactLog = 12"
definition maxPDCommandType :: byte where "maxPDCommandType = CmdCompactLog"

lemmas cmd_types = CmdSetBootstrapped_def CmdPutStore_def CmdPutRegion_def CmdUpdateStoreStats_def CmdSetStoreState_def
  CmdTSOAllocate_def CmdIDAlloc_def CmdUpdateGCSafePoint_def CmdStartMove_def CmdAdvanceMove_def CmdCleanupStaleMove_def
  CmdCompactLog_def maxPDCommandType_def

record PDCommand =
  pc_Type :: byte
  pc_Bootstrapped :: "bool option"
  pc_Store :: "MetaStore option"
  pc_Region :: "Region option"
  pc_Leader :: "Peer option"
  pc_StoreStats :: "StoreStats option"
  pc_StoreID :: u64
  pc_StoreState :: "StoreState option"
  pc_TSOBatchSize :: int
  pc_IDBatchSize :: int
  pc_GCSafePoint :: u64
  pc_MoveRegionID :: u64
  pc_MoveSourcePeer :: "Peer option"
  pc_MoveTargetStoreID :: u64
  pc_AdvanceRegion :: "Region option"
  pc_AdvanceLeader :: "Peer option"
  pc_CleanupTimeout :: int
  pc_CompactIndex :: u64
  pc_CompactTerm :: u64

definition PDCommand_zero :: PDCommand where
  "PDCommand_zero = \<lparr>pc_Type = 0, pc_Bootstrapped = None, pc_Store = None, pc_Region = None, pc_Leader = None,
     pc_StoreStats = None, pc_StoreID = 0, pc_StoreState = None, pc_TSOBatchSize = 0, pc_IDBatchSize = 0,
     pc_GCSafePoint = 0, pc_MoveRegionID = 0, pc_MoveSourcePeer = None, pc_MoveTargetStoreID = 0,
     pc_AdvanceRegion = None, pc_AdvanceLeader = None, pc_CleanupTimeout = 0, pc_CompactIndex = 0, pc_CompactTerm = 0\<rparr>"

record PDSnapshot =
  sp_Bootstrapped :: bool
  sp_Stores :: "u64 \<rightharpoonup> MetaStore"
  sp_Regions :: "u64 \<rightharpoonup> Region"
  sp_Leaders :: "u64 \<rightharpoonup> Peer"
  sp_StoreStats :: "u64 \<rightharpoonup> StoreStats option"
  sp_StoreStates :: "u64 \<rightharpoonup> StoreState"
  sp_NextID :: u64
  sp_TSOState :: "int \<times> int"
  sp_GCSafePoint :: u64
  sp_PendingMoves :: "(u64 \<times> PendingMove) list"
  sp_StoreLastHeartbeat :: "u64 \<rightharpoonup> int"

record pdjson =
  js_MarshalCommand :: "PDCommand \<Rightarrow> pd_error + bytes"
  js_UnmarshalCommand :: "bytes \<Rightarrow> pd_error + PDCommand"
  js_MarshalTimestamp :: "Timestamp \<Rightarrow> pd_error + bytes"
  js_UnmarshalTimestamp :: "bytes \<Rightarrow> pd_error + Timestamp"
  js_MarshalSnapshot :: "PDSnapshot \<Rightarrow> pd_error + bytes"
  js_UnmarshalSnapshot :: "bytes \<Rightarrow> pd_error + PDSnapshot"

definition PDCommand_Marshal :: "pdjson \<Rightarrow> PDCommand \<Rightarrow> pd_error + bytes" where
  "PDCommand_Marshal js c =
     (if pc_Type c < 1 \<or> maxPDCommandType < pc_Type c then Inl ErrPDCommandType
      else res_bind (js_MarshalCommand js c) (\<lambda>payload. Inr (pc_Type c # payload)))"

definition UnmarshalPDCommand :: "pdjson \<Rightarrow> bytes \<Rightarrow> pd_error + PDCommand" where
  "UnmarshalPDCommand js data =
     (if length data < 2 then Inl ErrPDEncoding
      else
        let cmdType = hd data in
        if cmdType < 1 \<or> maxPDCommandType < cmdType then Inl ErrPDCommandType
        else res_bind (js_UnmarshalCommand js (drop 1 data)) (\<lambda>cmd. Inr (cmd\<lparr>pc_Type := cmdType\<rparr>)))"

subsection \<open>Applying commands\<close>

record PDServer =
  sv_meta :: MetadataStore
  sv_tso :: TSOAllocator
  sv_idAlloc :: IDAllocator
  sv_gcMgr :: GCSafePointManager
  sv_moveTracker :: MoveTracker
  sv_raftStorage :: PDRaftStorage

record pd_clock =
  ck_nanos :: int
  ck_millis :: int
  ck_millis2 :: int

text \<open>The background deletion a compaction starts is applied at once.\<close>

definition applyCompactLog :: "u64 \<Rightarrow> u64 \<Rightarrow> PDRaftStorage \<Rightarrow> PDRaftStorage" where
  "applyCompactLog compactIndex compactTerm st =
     (let a = pr_applyState st in
      if compactIndex \<le> as_TruncatedIndex a then st
      else
        let a = a\<lparr>as_TruncatedIndex := compactIndex, as_TruncatedTerm := compactTerm\<rparr> in
        snd (DeleteEntriesTo (compactIndex + 1) (PD_CompactTo (compactIndex + 1) (PD_SetApplyState a st))))"

definition applyCommand :: "pdjson \<Rightarrow> pd_clock \<Rightarrow> PDCommand \<Rightarrow> PDServer \<Rightarrow> (pd_error + bytes) \<times> PDServer" where
  "applyCommand js clk cmd s =
     (if pc_Type cmd = CmdSetBootstrapped
      then
        (case pc_Bootstrapped cmd of
           None \<Rightarrow> (Inl ErrPDMissingField, s)
         | Some b \<Rightarrow>
             let m = SetBootstrapped b (sv_meta s);
                 m = (if pc_Store cmd \<noteq> None then PutStore (pc_Store cmd) m else m);
                 m = (if pc_Region cmd \<noteq> None then PutRegion (pc_Region cmd) (pc_Leader cmd) m else m) in
             (Inr [], s\<lparr>sv_meta := m\<rparr>))
      else if pc_Type cmd = CmdPutStore then (Inr [], s\<lparr>sv_meta := PutStore (pc_Store cmd) (sv_meta s)\<rparr>)
      else if pc_Type cmd = CmdPutRegion then (Inr [], s\<lparr>sv_meta := PutRegion (pc_Region cmd) (pc_Leader cmd) (sv_meta s)\<rparr>)
      else if pc_Type cmd = CmdUpdateStoreStats
      then (Inr [], s\<lparr>sv_meta := UpdateStoreStats (ck_nanos clk) (pc_StoreID cmd) (pc_StoreStats cmd) (sv_meta s)\<rparr>)
      else if pc_Type cmd = CmdSetStoreState
      then
        (case pc_StoreState cmd of
           None \<Rightarrow> (Inl ErrPDMissingField, s)
         | Some st \<Rightarrow> (Inr [], s\<lparr>sv_meta := SetStoreState (pc_StoreID cmd) st (sv_meta s)\<rparr>))
      else if pc_Type cmd = CmdTSOAllocate
      then
        (case TSO_Allocate (ck_millis clk) (ck_millis2 clk) (pc_TSOBatchSize cmd) (sv_tso s) of
           (Inl e, t) \<Rightarrow> (Inl e, s\<lparr>sv_tso := t\<rparr>)
         | (Inr ts, t) \<Rightarrow> (js_MarshalTimestamp js ts, s\<lparr>sv_tso := t\<rparr>))
      else if pc_Type cmd = CmdIDAlloc
      then
        let batchSize = (if pc_IDBatchSize cmd \<le> 0 then 1 else pc_IDBatchSize cmd);
            (lastID, a) = ID_AllocBatch (nat batchSize) 0 (sv_idAlloc s) in
        (Inr (PutUint64 lastID), s\<lparr>sv_idAlloc := a\<rparr>)
      else if pc_Type cmd = CmdUpdateGCSafePoint
      then let (newSP, g) = UpdateSafePoint (pc_GCSafePoint cmd) (sv_gcMgr s) in (Inr (PutUint64 newSP), s\<lparr>sv_gcMgr := g\<rparr>)
      else if pc_Type cmd = CmdStartMove
      then (Inr [], s\<lparr>sv_moveTracker := StartMove (ck_nanos clk) (pc_MoveRegionID cmd) (pc_MoveSourcePeer cmd)
                        (pc_MoveTargetStoreID cmd) (sv_moveTracker s)\<rparr>)
      else if pc_Type cmd = CmdAdvanceMove
      then (Inr [], s\<lparr>sv_moveTracker := snd (Advance (pc_MoveRegionID cmd) (pc_AdvanceRegion cmd) (pc_AdvanceLeader cmd)
                        (sv_moveTracker s))\<rparr>)
      else if pc_Type cmd = CmdCleanupStaleMove
      then (Inr [], s\<lparr>sv_moveTracker := CleanupStale (ck_nanos clk) (pc_CleanupTimeout cmd) (sv_moveTracker s)\<rparr>)
      else if pc_Type cmd = CmdCompactLog
      then (Inr [], s\<lparr>sv_raftStorage := applyCompactLog (pc_CompactIndex cmd) (pc_CompactTerm cmd) (sv_raftStorage s)\<rparr>)
      else (Inl ErrPDCommandType, s))"

subsection \<open>Snapshots\<close>

definition snapshotOf :: "PDServer \<Rightarrow> PDSnapshot" where
  "snapshotOf s =
     \<lparr>sp_Bootstrapped = md_bootstrapped (sv_meta s), sp_Stores = md_stores (sv_meta s), sp_Regions = md_regions (sv_meta s),
      sp_Leaders = md_leaders (sv_meta s), sp_StoreStats = md_storeStats (sv_meta s),
      sp_StoreStates = md_storeStates (sv_meta s), sp_NextID = ida_nextID (sv_idAlloc s),
      sp_TSOState = (tso_physical (sv_tso s), tso_logical (sv_tso s)), sp_GCSafePoint = gcm_safePoint (sv_gcMgr s),
      sp_PendingMoves = mt_moves (sv_moveTracker s), sp_StoreLastHeartbeat = md_storeLastHeartbeat (sv_meta s)\<rparr>"

definition GenerateSnapshot :: "pdjson \<Rightarrow> PDServer \<Rightarrow> pd_error + bytes" where
  "GenerateSnapshot js s = js_MarshalSnapshot js (snapshotOf s)"

definition ApplySnapshot :: "pdjson \<Rightarrow> bytes \<Rightarrow> PDServer \<Rightarrow> pd_error option \<times> PDServer" where
  "ApplySnapshot js data s =
     (case js_UnmarshalSnapshot js data of
        Inl e \<Rightarrow> (Some e, s)
      | Inr snap \<Rightarrow>
          (None, s\<lparr>
             sv_meta := (sv_meta s)\<lparr>md_bootstrapped := sp_Bootstrapped snap, md_stores := sp_Stores snap,
               md_regions := sp_Regions snap, md_leaders := sp_Leaders snap, md_storeStats := sp_StoreStats snap,
               md_storeStates := sp_StoreStates snap, md_storeLastHeartbeat := sp_StoreLastHeartbeat snap\<rparr>,
             sv_tso := \<lparr>tso_physical = fst (sp_TSOState snap), tso_logical = snd (sp_TSOState snap)\<rparr>,
             sv_idAlloc := \<lparr>ida_nextID = sp_NextID snap\<rparr>,
             sv_gcMgr := \<lparr>gcm_safePoint = sp_GCSafePoint snap\<rparr>,
             sv_moveTracker := (sv_moveTracker s)\<lparr>mt_moves := sp_PendingMoves snap\<rparr>\<rparr>))"

subsection \<open>Committed entries and proposals\<close>

text \<open>The queue of callbacks of in-flight proposals; a callback is named by the proposal it belongs to, and a proposal
  without callback queues none. An event of \<^verbatim>\<open>applyCommitted\<close> is the call of a callback.\<close>

type_synonym pd_callback = "nat option"

fun applyCommitted ::
  "pdjson \<Rightarrow> (nat \<Rightarrow> pd_clock) \<Rightarrow> Entry list \<Rightarrow> pd_callback list \<Rightarrow> PDServer \<Rightarrow>
   (nat \<times> (pd_error + bytes)) list \<times> pd_callback list \<times> PDServer"
where
  "applyCommitted js clks [] pending s = ([], pending, s)"
| "applyCommitted js clks (e # es) pending s =
     (if en_Data e = [] then applyCommitted js clks es pending s
      else if en_Type e = EntryConfChange \<or> en_Type e = EntryConfChangeV2 then applyCommitted js clks es pending s
      else
        let (result, s) =
          (case UnmarshalPDCommand js (en_Data e) of
             Inl err \<Rightarrow> (Inl err, s)
           | Inr cmd \<Rightarrow> applyCommand js (clks (length es)) cmd s) in
        (case pending of
           [] \<Rightarrow> applyCommitted js clks es [] s
         | cb # pending \<Rightarrow>
             let (evs, r) = applyCommitted js clks es pending s in
             ((case cb of None \<Rightarrow> evs | Some c \<Rightarrow> (c, result) # evs), r)))"

text \<open>The part of \<^verbatim>\<open>handleReady\<close> that applies the committed entries.\<close>

definition handleCommitted ::
  "pdjson \<Rightarrow> (nat \<Rightarrow> pd_clock) \<Rightarrow> Entry list \<Rightarrow> pd_callback list \<Rightarrow> PDServer \<Rightarrow>
   (nat \<times> (pd_error + bytes)) list \<times> pd_callback list \<times> PDServer"
where
  "handleCommitted js clks committed pending s =
     (if committed = [] then ([], pending, s)
      else
        let (evs, pending, s) = applyCommitted js clks committed pending s;
            st = sv_raftStorage s in
        (evs, pending, s\<lparr>sv_raftStorage :=
           PD_SetApplyState ((pr_applyState st)\<lparr>as_AppliedIndex := en_Index (last committed)\<rparr>) st\<rparr>))"

definition propose_cmd :: "pdjson \<Rightarrow> (bytes \<Rightarrow> pd_error option) \<Rightarrow> PDCommand \<Rightarrow> pd_callback \<Rightarrow> pd_callback list \<Rightarrow>
  (pd_error + bytes) \<times> pd_callback list" where
  "propose_cmd js rawPropose cmd cb pending =
     (case PDCommand_Marshal js cmd of
        Inl e \<Rightarrow> (Inl e, pending)
      | Inr data \<Rightarrow>
          (case rawPropose data of
             Some e \<Rightarrow> (Inl e, pending)
           | None \<Rightarrow> (Inr data, pending @ [cb])))"

record PDRaftConfig =
  prc_RaftLogGCCountLimit :: u64
  prc_RaftLogGCThreshold :: u64

definition PD_onRaftLogGCTick :: "raftpb \<Rightarrow> PDRaftConfig \<Rightarrow> bool \<Rightarrow> u64 \<Rightarrow> PDRaftStorage \<Rightarrow> PDCommand option \<times> u64" where
  "PD_onRaftLogGCTick pb cfg isLeader lastCompactedIdx st =
     (if \<not> isLeader then (None, lastCompactedIdx)
      else
        let appliedIdx = as_AppliedIndex (pr_applyState st); firstIdx = as_TruncatedIndex (pr_applyState st) + 1 in
        if appliedIdx \<le> firstIdx then (None, lastCompactedIdx)
        else if appliedIdx - firstIdx < prc_RaftLogGCCountLimit cfg then (None, lastCompactedIdx)
        else
          let compactIdx = appliedIdx - prc_RaftLogGCThreshold cfg in
          if compactIdx \<le> lastCompactedIdx then (None, lastCompactedIdx)
          else
            (case PD_Term pb compactIdx st of
               Inl _ \<Rightarrow> (None, lastCompactedIdx)
             | Inr t \<Rightarrow>
                 (Some (PDCommand_zero\<lparr>pc_Type := CmdCompactLog, pc_CompactIndex := compactIdx, pc_CompactTerm := t\<rparr>), compactIdx)))"

fun replayEntries :: "pdjson \<Rightarrow> (nat \<Rightarrow> pd_clock) \<Rightarrow> Entry list \<Rightarrow> PDServer \<Rightarrow> PDServer" where
  "replayEntries js clks [] s = s"
| "replayEntries js clks (e # es) s =
     replayEntries js clks es
       (if en_Data e = [] then s
        else if en_Type e = EntryConfChange \<or> en_Type e = EntryConfChangeV2 then s
        else
          (case UnmarshalPDCommand js (en_Data e) of
             Inl _ \<Rightarrow> s
           | Inr cmd \<Rightarrow> snd (applyCommand js (clks (length es)) cmd s)))"

definition replayRaftLog :: "raftpb \<Rightarrow> pdjson \<Rightarrow> (nat \<Rightarrow> pd_clock) \<Rightarrow> PDServer \<Rightarrow> raft_error option \<times> PDServer" where
  "replayRaftLog pb js clks s =
     (let a = pr_applyState (sv_raftStorage s); lastIndex = PD_LastIndex (sv_raftStorage s) in
      if lastIndex \<le> as_AppliedIndex a then (None, s)
      else
        (case PD_Entries pb (as_AppliedIndex a + 1) (lastIndex + 1) 0 (sv_raftStorage s) of
           Inl e \<Rightarrow> (Some e, s)
         | Inr entries \<Rightarrow>
             let s = replayEntries js clks entries s in
             (None, s\<lparr>sv_raftStorage := PD_SetApplyState (a\<lparr>as_AppliedIndex := lastIndex\<rparr>) (sv_raftStorage s)\<rparr>)))"

record PDServerConfig =
  pcf_ClusterID :: u64
  pcf_MaxPeerCount :: nat
  pcf_StoreDisconnectDuration :: int
  pcf_StoreDownDuration :: int

definition DefaultPDServerConfig :: PDServerConfig where
  "DefaultPDServerConfig =
     \<lparr>pcf_ClusterID = 1, pcf_MaxPeerCount = 3, pcf_StoreDisconnectDuration = 30 * nanosPerSecond,
      pcf_StoreDownDuration = 30 * 60 * nanosPerSecond\<rparr>"

definition NewPDServer :: "PDServerConfig \<Rightarrow> store \<Rightarrow> PDServer" where
  "NewPDServer cfg eng =
     \<lparr>sv_meta = NewMetadataStore (pcf_StoreDisconnectDuration cfg) (pcf_StoreDownDuration cfg), sv_tso = NewTSOAllocator,
      sv_idAlloc = NewIDAllocator, sv_gcMgr = NewGCSafePointManager, sv_moveTracker = NewMoveTracker,
      sv_raftStorage = NewPDRaftStorage (pcf_ClusterID cfg) eng\<rparr>"

text \<open>\<^verbatim>\<open>initRaft\<close> on a node with persisted raft state: recover the storage, then replay the log.\<close>

definition restartPD :: "raftpb \<Rightarrow> pdjson \<Rightarrow> (nat \<Rightarrow> pd_clock) \<Rightarrow> PDServerConfig \<Rightarrow> store \<Rightarrow> raft_error option \<times> PDServer" where
  "restartPD pb js clks cfg eng =
     (let s = NewPDServer cfg eng in
      case PD_RecoverFromEngine pb (sv_raftStorage s) of
        (Some e, st) \<Rightarrow> (Some e, s\<lparr>sv_raftStorage := st\<rparr>)
      | (None, st) \<Rightarrow> replayRaftLog pb js clks (s\<lparr>sv_raftStorage := st\<rparr>))"

subsection \<open>Request handlers\<close>

text \<open>The handlers on a single node (\<open>raft\<close> false) and on the raft leader, where a state change is a command that
  \<^verbatim>\<open>ProposeAndWait\<close> replicates and applies. A follower forwards the request to the leader.\<close>

definition proposeAndWait :: "pdjson \<Rightarrow> pd_clock \<Rightarrow> PDCommand \<Rightarrow> PDServer \<Rightarrow> (pd_error + bytes) \<times> PDServer" where
  "proposeAndWait js clk cmd s =
     (case res_bind (PDCommand_Marshal js cmd) (UnmarshalPDCommand js) of
        Inl e \<Rightarrow> (Inl e, s)
      | Inr cmd \<Rightarrow> applyCommand js clk cmd s)"

definition PD_Bootstrap ::
  "bool \<Rightarrow> pdjson \<Rightarrow> pd_clock \<Rightarrow> MetaStore option \<Rightarrow> Region option \<Rightarrow> PDServer \<Rightarrow> (pd_error + unit) \<times> PDServer"
where
  "PD_Bootstrap raft js clk store region s =
     (if md_bootstrapped (sv_meta s) then (Inl ErrPDAlreadyBootstrapped, s)
      else if \<not> raft
      then
        let m = sv_meta s;
            m = (if store \<noteq> None then PutStore store m else m);
            m = (if region \<noteq> None then PutRegion region None m else m) in
        (Inr (), s\<lparr>sv_meta := SetBootstrapped True m\<rparr>)
      else
        (case proposeAndWait js clk (PDCommand_zero\<lparr>pc_Type := CmdSetBootstrapped, pc_Bootstrapped := Some True,
                pc_Store := store, pc_Region := region\<rparr>) s of
           (Inl e, s) \<Rightarrow> (Inl e, s)
         | (Inr _, s) \<Rightarrow> (Inr (), s)))"

definition PD_PutStore :: "bool \<Rightarrow> pdjson \<Rightarrow> pd_clock \<Rightarrow> MetaStore option \<Rightarrow> PDServer \<Rightarrow> (pd_error + unit) \<times> PDServer" where
  "PD_PutStore raft js clk store s =
     (if \<not> raft then (Inr (), s\<lparr>sv_meta := PutStore store (sv_meta s)\<rparr>)
      else
        (case proposeAndWait js clk (PDCommand_zero\<lparr>pc_Type := CmdPutStore, pc_Store := store\<rparr>) s of
           (Inl e, s) \<Rightarrow> (Inl e, s)
         | (Inr _, s) \<Rightarrow> (Inr (), s)))"

definition PD_StoreHeartbeat :: "bool \<Rightarrow> pdjson \<Rightarrow> pd_clock \<Rightarrow> StoreStats option \<Rightarrow> PDServer \<Rightarrow> (pd_error + unit) \<times> PDServer" where
  "PD_StoreHeartbeat raft js clk stats s =
     (case stats of
        None \<Rightarrow> (Inr (), s)
      | Some st \<Rightarrow>
          if \<not> raft then (Inr (), s\<lparr>sv_meta := UpdateStoreStats (ck_nanos clk) (sts_StoreId st) (Some st) (sv_meta s)\<rparr>)
          else
            (case proposeAndWait js clk (PDCommand_zero\<lparr>pc_Type := CmdUpdateStoreStats, pc_StoreID := sts_StoreId st,
                    pc_StoreStats := Some st\<rparr>) s of
               (Inl e, s) \<Rightarrow> (Inl e, s)
             | (Inr _, s) \<Rightarrow> (Inr (), s)))"

definition firstPeer :: "Region \<Rightarrow> Peer option" where
  "firstPeer r = (case rg_Peers r of [] \<Rightarrow> None | p # _ \<Rightarrow> Some p)"

fun PD_ReportBatchSplit :: "bool \<Rightarrow> pdjson \<Rightarrow> pd_clock \<Rightarrow> Region list \<Rightarrow> PDServer \<Rightarrow> (pd_error + unit) \<times> PDServer" where
  "PD_ReportBatchSplit raft js clk [] s = (Inr (), s)"
| "PD_ReportBatchSplit raft js clk (r # rs) s =
     (if \<not> raft then PD_ReportBatchSplit raft js clk rs (s\<lparr>sv_meta := PutRegion (Some r) (firstPeer r) (sv_meta s)\<rparr>)
      else
        (case proposeAndWait js clk (PDCommand_zero\<lparr>pc_Type := CmdPutRegion, pc_Region := Some r, pc_Leader := firstPeer r\<rparr>) s of
           (Inl e, s) \<Rightarrow> (Inl e, s)
         | (Inr _, s) \<Rightarrow> PD_ReportBatchSplit raft js clk rs s))"

definition PD_UpdateGCSafePoint :: "bool \<Rightarrow> pdjson \<Rightarrow> pd_clock \<Rightarrow> u64 \<Rightarrow> PDServer \<Rightarrow> (pd_error + u64) \<times> PDServer" where
  "PD_UpdateGCSafePoint raft js clk sp s =
     (if \<not> raft then let (newSP, g) = UpdateSafePoint sp (sv_gcMgr s) in (Inr newSP, s\<lparr>sv_gcMgr := g\<rparr>)
      else
        (case proposeAndWait js clk (PDCommand_zero\<lparr>pc_Type := CmdUpdateGCSafePoint, pc_GCSafePoint := sp\<rparr>) s of
           (Inl e, s) \<Rightarrow> (Inl e, s)
         | (Inr result, s) \<Rightarrow> (Inr (Uint64 (take 8 result)), s)))"

text \<open>\<^verbatim>\<open>RegionHeartbeat\<close>: record the region, then ask the scheduler, which works on the leader's own allocator and
  tracker.\<close>

definition PD_RegionHeartbeat ::
  "'f floats \<Rightarrow> SchedulerCfg \<Rightarrow> map_orders \<Rightarrow> bool \<Rightarrow> pdjson \<Rightarrow> pd_clock \<Rightarrow> Region option \<Rightarrow> Peer option \<Rightarrow> PDServer \<Rightarrow>
   (pd_error + ScheduleCommand option) \<times> PDServer"
where
  "PD_RegionHeartbeat fl cfg ord raft js clk region leader s =
     (let (err, s) =
        (case region of
           None \<Rightarrow> (None, s)
         | Some r \<Rightarrow>
             if \<not> raft then (None, s\<lparr>sv_meta := PutRegion region leader (sv_meta s)\<rparr>)
             else
               (case proposeAndWait js clk (PDCommand_zero\<lparr>pc_Type := CmdPutRegion, pc_Region := region, pc_Leader := leader\<rparr>) s of
                  (Inl e, s) \<Rightarrow> (Some e, s)
                | (Inr _, s) \<Rightarrow> (None, s))) in
      case err of
        Some e \<Rightarrow> (Inl e, s)
      | None \<Rightarrow>
          (case (region, leader) of
             (Some r, Some l) \<Rightarrow>
               (case Schedule_cmd fl cfg (ck_nanos clk) ord (sv_meta s) (rg_Id r) r leader
                       \<lparr>ss_idAlloc = sv_idAlloc s, ss_moveTracker = Some (sv_moveTracker s)\<rparr> of
                  (cmd, ss) \<Rightarrow>
                    (Inr cmd, s\<lparr>sv_idAlloc := ss_idAlloc ss,
                       sv_moveTracker := (case ss_moveTracker ss of None \<Rightarrow> sv_moveTracker s | Some t \<Rightarrow> t)\<rparr>))
           | _ \<Rightarrow> (Inr None, s)))"

record SplitID =
  sid_NewRegionId :: u64
  sid_NewPeerIds :: "u64 list"

text \<open>\<open>alloc\<close> hands out one identifier: the local allocator on a single node, the id buffer on the leader.\<close>

fun allocMany :: "('s \<Rightarrow> (pd_error + u64) \<times> 's) \<Rightarrow> nat \<Rightarrow> 's \<Rightarrow> (pd_error + u64 list) \<times> 's" where
  "allocMany alloc 0 s = (Inr [], s)"
| "allocMany alloc (Suc n) s =
     (case alloc s of
        (Inl e, s) \<Rightarrow> (Inl e, s)
      | (Inr i, s) \<Rightarrow>
          (case allocMany alloc n s of
             (Inl e, s) \<Rightarrow> (Inl e, s)
           | (Inr is, s) \<Rightarrow> (Inr (i # is), s)))"

fun askSplit_loop :: "('s \<Rightarrow> (pd_error + u64) \<times> 's) \<Rightarrow> nat \<Rightarrow> nat \<Rightarrow> 's \<Rightarrow> (pd_error + SplitID list) \<times> 's" where
  "askSplit_loop alloc maxPeerCount 0 s = (Inr [], s)"
| "askSplit_loop alloc maxPeerCount (Suc n) s =
     (case alloc s of
        (Inl e, s) \<Rightarrow> (Inl e, s)
      | (Inr newRegionID, s) \<Rightarrow>
          (case allocMany alloc maxPeerCount s of
             (Inl e, s) \<Rightarrow> (Inl e, s)
           | (Inr peerIDs, s) \<Rightarrow>
               (case askSplit_loop alloc maxPeerCount n s of
                  (Inl e, s) \<Rightarrow> (Inl e, s)
                | (Inr rest, s) \<Rightarrow> (Inr (\<lparr>sid_NewRegionId = newRegionID, sid_NewPeerIds = peerIDs\<rparr> # rest), s))))"

definition PD_AllocID :: "bool \<Rightarrow> pdjson \<Rightarrow> pd_clock \<Rightarrow> IDBuffer \<times> PDServer \<Rightarrow> (pd_error + u64) \<times> IDBuffer \<times> PDServer" where
  "PD_AllocID raft js clk bs =
     (if \<not> raft
      then let (b, s) = bs; (i, a) = ID_Alloc (sv_idAlloc s) in (Inr i, b, s\<lparr>sv_idAlloc := a\<rparr>)
      else IDBuffer_Alloc
        (\<lambda>n. proposeAndWait js clk (PDCommand_zero\<lparr>pc_Type := CmdIDAlloc, pc_IDBatchSize := int n\<rparr>)) bs)"

definition PD_AskBatchSplit ::
  "bool \<Rightarrow> pdjson \<Rightarrow> pd_clock \<Rightarrow> PDServerConfig \<Rightarrow> nat \<Rightarrow> IDBuffer \<times> PDServer \<Rightarrow> (pd_error + SplitID list) \<times> IDBuffer \<times> PDServer"
where
  "PD_AskBatchSplit raft js clk cfg splitCount bs =
     askSplit_loop (PD_AllocID raft js clk) (pcf_MaxPeerCount cfg) (if splitCount = 0 then 1 else splitCount) bs"

text \<open>One request of the \<^verbatim>\<open>Tso\<close> stream.\<close>

definition PD_Tso :: "bool \<Rightarrow> pdjson \<Rightarrow> pd_clock \<Rightarrow> nat \<Rightarrow> TSOBuffer \<times> PDServer \<Rightarrow> (pd_error + Timestamp) \<times> TSOBuffer \<times> PDServer" where
  "PD_Tso raft js clk count bs =
     (let count = int (if count = 0 then 1 else count) in
      if \<not> raft
      then
        let (b, s) = bs; (ts, t) = TSO_Allocate (ck_millis clk) (ck_millis2 clk) count (sv_tso s) in
        (ts, b, s\<lparr>sv_tso := t\<rparr>)
      else GetTS
        (\<lambda>n s. let (r, s) = proposeAndWait js clk (PDCommand_zero\<lparr>pc_Type := CmdTSOAllocate, pc_TSOBatchSize := n\<rparr>) s in
                (res_bind r (js_UnmarshalTimestamp js), s)) count bs)"

subsection \<open>Encoding\<close>

text \<open>What the code relies on of \<^verbatim>\<open>encoding/json\<close>, for the values it encodes.\<close>

definition json_ok :: "pdjson \<Rightarrow> PDCommand list \<Rightarrow> bool" where
  "json_ok js cs \<longleftrightarrow> (\<forall>c \<in> set cs. \<exists>d. js_MarshalCommand js c = Inr d \<and> d \<noteq> [] \<and> js_UnmarshalCommand js d = Inr c)"

definition json_snapshot_ok :: "pdjson \<Rightarrow> PDSnapshot \<Rightarrow> bool" where
  "json_snapshot_ok js sp \<longleftrightarrow> (\<exists>d. js_MarshalSnapshot js sp = Inr d \<and> js_UnmarshalSnapshot js d = Inr sp)"

lemma PDCommand_roundtrip_lemma:
  assumes "json_ok js [c]" "1 \<le> pc_Type c" "pc_Type c \<le> maxPDCommandType"
  shows "\<exists>d. PDCommand_Marshal js c = Inr d \<and> hd d = pc_Type c \<and> UnmarshalPDCommand js d = Inr c"
proof -
  obtain d where d: "js_MarshalCommand js c = Inr d" "d \<noteq> []" "js_UnmarshalCommand js d = Inr c"
    using assms(1) by (auto simp: json_ok_def)
  then have "Suc 0 < length (pc_Type c # d)" by (cases d) simp_all
  then show ?thesis using assms(2,3) d by (simp add: PDCommand_Marshal_def UnmarshalPDCommand_def Let_def not_less [symmetric])
qed

lemma proposeAndWait_ok:
  "json_ok js [c] \<Longrightarrow> 1 \<le> pc_Type c \<Longrightarrow> pc_Type c \<le> maxPDCommandType \<Longrightarrow> proposeAndWait js clk c s = applyCommand js clk c s"
  using PDCommand_roundtrip_lemma [of js c] by (auto simp: proposeAndWait_def)

text \<open>A snapshot carries all state but the cooldowns and the heartbeat counter of the tracker, the
  configured durations and the raft log.\<close>

lemma ApplySnapshot_generated:
  assumes "json_snapshot_ok js (snapshotOf s)"
  shows "\<exists>d. GenerateSnapshot js s = Inr d \<and>
    ApplySnapshot js d s0 = (None, s\<lparr>
      sv_meta := (sv_meta s)\<lparr>md_disconnectDuration := md_disconnectDuration (sv_meta s0), md_downDuration := md_downDuration (sv_meta s0)\<rparr>,
      sv_moveTracker := (sv_moveTracker s0)\<lparr>mt_moves := mt_moves (sv_moveTracker s)\<rparr>,
      sv_raftStorage := sv_raftStorage s0\<rparr>)"
proof -
  obtain d where "js_MarshalSnapshot js (snapshotOf s) = Inr d" "js_UnmarshalSnapshot js d = Inr (snapshotOf s)"
    using assms by (auto simp: json_snapshot_ok_def)
  then show ?thesis by (simp add: GenerateSnapshot_def ApplySnapshot_def snapshotOf_def)
qed

subsection \<open>Replicas\<close>

text \<open>The state that no clock influences.\<close>

definition meta_core ::
  "MetadataStore \<Rightarrow> bool \<times> (u64 \<rightharpoonup> MetaStore) \<times> (u64 \<rightharpoonup> Region) \<times> (u64 \<rightharpoonup> Peer) \<times> (u64 \<rightharpoonup> StoreStats option)"
where
  "meta_core m = (md_bootstrapped m, md_stores m, md_regions m, md_leaders m, md_storeStats m)"

definition same_core :: "PDServer \<Rightarrow> PDServer \<Rightarrow> bool" where
  "same_core s s' \<longleftrightarrow> meta_core (sv_meta s) = meta_core (sv_meta s') \<and> sv_idAlloc s = sv_idAlloc s' \<and> sv_gcMgr s = sv_gcMgr s'"

fun applyAll :: "pdjson \<Rightarrow> (pd_clock \<times> PDCommand) list \<Rightarrow> PDServer \<Rightarrow> PDServer" where
  "applyAll js [] s = s"
| "applyAll js ((clk, cmd) # cmds) s = applyAll js cmds (snd (applyCommand js clk cmd s))"

named_theorems core_cong

lemma SetBootstrapped_core [core_cong]:
  "meta_core m = meta_core m' \<Longrightarrow> meta_core (SetBootstrapped b m) = meta_core (SetBootstrapped b m')"
  by (simp add: meta_core_def SetBootstrapped_def)

lemma PutStore_core [core_cong]:
  "meta_core m = meta_core m' \<Longrightarrow> meta_core (PutStore st m) = meta_core (PutStore st m')"
  by (cases st) (simp_all add: meta_core_def PutStore_def)

lemma PutRegion_core [core_cong]:
  assumes "meta_core m = meta_core m'"
  shows "meta_core (PutRegion r l m) = meta_core (PutRegion r l m')"
proof (cases r)
  case (Some x)
  have "md_regions m = md_regions m'" using assms by (simp add: meta_core_def)
  then show ?thesis using assms Some by (cases l) (simp_all add: meta_core_def PutRegion_def Let_def split: option.split)
qed (use assms in \<open>simp add: PutRegion_def\<close>)

lemma UpdateStoreStats_core [core_cong]:
  "meta_core m = meta_core m' \<Longrightarrow> meta_core (UpdateStoreStats t i ss m) = meta_core (UpdateStoreStats t' i ss m')"
  by (simp add: meta_core_def UpdateStoreStats_def Let_def)

lemma SetStoreState_core [core_cong]:
  "meta_core m = meta_core m' \<Longrightarrow> meta_core (SetStoreState i st m) = meta_core (SetStoreState i st m')"
  by (simp add: meta_core_def SetStoreState_def)

named_theorems apply_simps

lemma applyCommand_meta [apply_simps]:
  "pc_Type cmd = CmdPutStore \<Longrightarrow> applyCommand js clk cmd s = (Inr [], s\<lparr>sv_meta := PutStore (pc_Store cmd) (sv_meta s)\<rparr>)"
  "pc_Type cmd = CmdPutRegion \<Longrightarrow>
   applyCommand js clk cmd s = (Inr [], s\<lparr>sv_meta := PutRegion (pc_Region cmd) (pc_Leader cmd) (sv_meta s)\<rparr>)"
  "pc_Type cmd = CmdUpdateStoreStats \<Longrightarrow> applyCommand js clk cmd s =
     (Inr [], s\<lparr>sv_meta := UpdateStoreStats (ck_nanos clk) (pc_StoreID cmd) (pc_StoreStats cmd) (sv_meta s)\<rparr>)"
  "pc_Type cmd = CmdSetStoreState \<Longrightarrow> pc_StoreState cmd = None \<Longrightarrow> applyCommand js clk cmd s = (Inl ErrPDMissingField, s)"
  "pc_Type cmd = CmdSetStoreState \<Longrightarrow> pc_StoreState cmd = Some st \<Longrightarrow>
   applyCommand js clk cmd s = (Inr [], s\<lparr>sv_meta := SetStoreState (pc_StoreID cmd) st (sv_meta s)\<rparr>)"
  by (simp_all add: applyCommand_def cmd_types)

lemma Put_nil [simp]: "PutStore None m = m" "PutRegion None l m = m"
  by (simp_all add: PutStore_def PutRegion_def)

lemma applyCommand_bootstrap [apply_simps]:
  "pc_Type cmd = CmdSetBootstrapped \<Longrightarrow> pc_Bootstrapped cmd = None \<Longrightarrow> applyCommand js clk cmd s = (Inl ErrPDMissingField, s)"
  "pc_Type cmd = CmdSetBootstrapped \<Longrightarrow> pc_Bootstrapped cmd = Some b \<Longrightarrow> applyCommand js clk cmd s =
     (Inr [], s\<lparr>sv_meta := PutRegion (pc_Region cmd) (pc_Leader cmd) (PutStore (pc_Store cmd) (SetBootstrapped b (sv_meta s)))\<rparr>)"
  by (simp_all add: applyCommand_def cmd_types Let_def)

lemma applyCommand_alloc [apply_simps]:
  "pc_Type cmd = CmdTSOAllocate \<Longrightarrow> applyCommand js clk cmd s =
     (let (r, t) = TSO_Allocate (ck_millis clk) (ck_millis2 clk) (pc_TSOBatchSize cmd) (sv_tso s) in
      (res_bind r (js_MarshalTimestamp js), s\<lparr>sv_tso := t\<rparr>))"
  "pc_Type cmd = CmdIDAlloc \<Longrightarrow> applyCommand js clk cmd s =
     (let (lastID, a) = ID_AllocBatch (nat (max 1 (pc_IDBatchSize cmd))) 0 (sv_idAlloc s) in
      (Inr (PutUint64 lastID), s\<lparr>sv_idAlloc := a\<rparr>))"
  "pc_Type cmd = CmdUpdateGCSafePoint \<Longrightarrow> applyCommand js clk cmd s =
     (let (newSP, g) = UpdateSafePoint (pc_GCSafePoint cmd) (sv_gcMgr s) in (Inr (PutUint64 newSP), s\<lparr>sv_gcMgr := g\<rparr>))"
  by (auto simp add: applyCommand_def cmd_types Let_def res_bind_def max_def split: prod.split sum.split)

definition core_free :: "PDCommand \<Rightarrow> bool" where
  "core_free cmd \<longleftrightarrow> pc_Type cmd \<notin> {CmdSetBootstrapped, CmdPutStore, CmdPutRegion, CmdUpdateStoreStats, CmdSetStoreState,
     CmdTSOAllocate, CmdIDAlloc, CmdUpdateGCSafePoint}"

lemma applyCommand_free:
  assumes "core_free cmd"
  obtains r t st where "\<And>s. fst (applyCommand js clk cmd s) = r"
    "\<And>s. applyCommand js clk cmd s = (r, s\<lparr>sv_moveTracker := t s, sv_raftStorage := st s\<rparr>)"
proof -
  define t where "t s = sv_moveTracker (snd (applyCommand js clk cmd s))" for s
  define st where "st s = sv_raftStorage (snd (applyCommand js clk cmd s))" for s
  define r where "r = (if pc_Type cmd \<in> {CmdStartMove, CmdAdvanceMove, CmdCleanupStaleMove, CmdCompactLog} then Inr [] else Inl ErrPDCommandType :: pd_error + bytes)"
  have "applyCommand js clk cmd s = (r, s\<lparr>sv_moveTracker := t s, sv_raftStorage := st s\<rparr>)" for s
    using assms unfolding t_def st_def r_def core_free_def by (simp add: applyCommand_def)
  then show thesis using that by (metis fst_conv)
qed

lemma applyCommand_core:
  assumes "same_core s s'"
  shows "same_core (snd (applyCommand js clk cmd s)) (snd (applyCommand js clk' cmd s'))"
    "pc_Type cmd \<noteq> CmdTSOAllocate \<Longrightarrow> fst (applyCommand js clk cmd s) = fst (applyCommand js clk' cmd s')"
proof -
  have m: "meta_core (sv_meta s) = meta_core (sv_meta s')" and i: "sv_idAlloc s = sv_idAlloc s'" "sv_gcMgr s = sv_gcMgr s'"
    using assms by (simp_all add: same_core_def)
  have "same_core (snd (applyCommand js clk cmd s)) (snd (applyCommand js clk' cmd s')) \<and>
    (pc_Type cmd \<noteq> CmdTSOAllocate \<longrightarrow> fst (applyCommand js clk cmd s) = fst (applyCommand js clk' cmd s'))"
  proof (cases "core_free cmd")
    case True
    obtain r t st where e: "\<And>s. applyCommand js clk cmd s = (r, s\<lparr>sv_moveTracker := t s, sv_raftStorage := st s\<rparr>)"
      using applyCommand_free [OF True, of js clk] by metis
    obtain r' t' st' where e': "\<And>s. applyCommand js clk' cmd s = (r', s\<lparr>sv_moveTracker := t' s, sv_raftStorage := st' s\<rparr>)"
      using applyCommand_free [OF True, of js clk'] by metis
    have "r = r'" using True arg_cong [OF e [of s], of fst] arg_cong [OF e' [of s], of fst]
      by (simp add: applyCommand_def core_free_def split: if_splits)
    then show ?thesis using m i by (simp add: e e' same_core_def)
  next
    case False
    then consider "pc_Type cmd = CmdSetBootstrapped" | "pc_Type cmd = CmdPutStore" | "pc_Type cmd = CmdPutRegion" | "pc_Type cmd = CmdUpdateStoreStats"
      | "pc_Type cmd = CmdSetStoreState" | "pc_Type cmd = CmdTSOAllocate" | "pc_Type cmd = CmdIDAlloc" | "pc_Type cmd = CmdUpdateGCSafePoint"
      by (auto simp: core_free_def)
    then show ?thesis
    proof cases
      case 1
      show ?thesis
        by (cases "pc_Bootstrapped cmd") (simp_all add: apply_simps 1 same_core_def m i, intro core_cong m)
    next
      case 5
      show ?thesis
        by (cases "pc_StoreState cmd") (simp_all add: apply_simps 5 same_core_def m i, intro core_cong m)
    next
      case 6
      then show ?thesis using m i by (simp add: apply_simps same_core_def split: prod.split)
    qed (simp add: apply_simps same_core_def m i split: prod.split, (intro core_cong m)?)+
  qed
  then show "same_core (snd (applyCommand js clk cmd s)) (snd (applyCommand js clk' cmd s'))"
    "pc_Type cmd \<noteq> CmdTSOAllocate \<Longrightarrow> fst (applyCommand js clk cmd s) = fst (applyCommand js clk' cmd s')" by simp_all
qed

lemma applyAll_core:
  "map snd xs = map snd ys \<Longrightarrow> same_core s s' \<Longrightarrow> same_core (applyAll js xs s) (applyAll js ys s')"
proof (induction xs arbitrary: ys s s')
  case (Cons x xs)
  obtain c clk where x: "x = (clk, c)" by force
  then obtain clk' ys' where ys: "ys = (clk', c) # ys'" "map snd xs = map snd ys'" using Cons.prems(1) by (cases ys) auto
  then show ?case using Cons.IH [OF ys(2) applyCommand_core(1) [OF Cons.prems(2)]] x by simp
qed simp

subsection \<open>What a restart reads\<close>

lemma PD_RecoverFromEngine_eq:
  assumes "log_exact pb eng cid F" "lg_entries F \<noteq> []" "hardState_stored pb eng cid hs"
  defines "es \<equiv> lg_entries F"
  defines "cache \<equiv> (if maxCacheSize < length es then drop (length es - maxCacheSize) es else es)"
  shows "PD_RecoverFromEngine pb (NewPDRaftStorage cid eng) =
      (None, (NewPDRaftStorage cid eng)\<lparr>pr_hardState := hs, pr_persistedLastIndex := en_Index (last es), pr_entries := cache\<rparr>)"
    "cache_repr cache F" "cache \<noteq> []"
proof -
  have wf: "log_wf F" and num: "numbered (Suc (lg_index F)) es" using assms(1) by (auto simp: log_exact_def log_wf_def es_def)
  have ne: "es \<noteq> []" using assms(2) by (simp add: es_def)
  have mx: "maxIndex es = en_Index (last es)" using maxIndex_numbered [OF num _ ne] by simp
  have pos: "0 < maxIndex es" unfolding mx word_less_nat_alt numbered_last [OF num ne] using ne by simp
  show "cache_repr cache F" "cache \<noteq> []"
    using cache_repr_all [OF wf assms(2)] cache_repr_drop [of es F] ne by (auto simp: maxCacheSize_def cache_def es_def)
  show "PD_RecoverFromEngine pb (NewPDRaftStorage cid eng) =
      (None, (NewPDRaftStorage cid eng)\<lparr>pr_hardState := hs, pr_persistedLastIndex := en_Index (last es), pr_entries := cache\<rparr>)"
    using assms(3) recover_exact [OF assms(1), folded es_def] pos mx
    by (auto simp: PD_RecoverFromEngine_def NewPDRaftStorage_def hardState_stored_def eng_get_def cache_def)
qed

lemma log_exact_last:
  assumes "log_exact pb eng cid F" "lg_entries F \<noteq> []"
  shows "unat (en_Index (last (lg_entries F))) = lg_last F" "Suc (lg_last F) < 2 ^ 64"
    "unat (en_Index (last (lg_entries F)) + 1) = Suc (lg_last F)"
proof -
  have n: "numbered (Suc (lg_index F)) (lg_entries F)" and l: "Suc (lg_last F) < 2 ^ 64"
    using assms(1) by (auto simp: log_exact_def log_wf_def)
  show u: "unat (en_Index (last (lg_entries F))) = lg_last F" using numbered_last [OF n assms(2)] by (simp add: lg_last_def)
  show "Suc (lg_last F) < 2 ^ 64" by (fact l)
  show "unat (en_Index (last (lg_entries F)) + 1) = Suc (lg_last F)" using u l by (subst unat_Suc_word) simp_all
qed

text \<open>What the replay reads: the whole log when nothing has been compacted, nothing otherwise, because the first entry
  is gone and the truncation point is not restored.\<close>

lemma restarted_entries:
  assumes ex: "log_exact pb eng cid F" "lg_entries F \<noteq> []" and hs: "hardState_stored pb eng cid hs"
    and st: "PD_RecoverFromEngine pb (NewPDRaftStorage cid eng) = (None, st)"
  shows "PD_Entries pb 1 (PD_LastIndex st + 1) 0 st = Inr (if lg_index F = 0 then lg_entries F else [])"
    "pr_applyState st = ApplyState_zero" "unat (PD_LastIndex st) = lg_last F"
proof -
  let ?es = "lg_entries F"
  let ?cache = "if maxCacheSize < length ?es then drop (length ?es - maxCacheSize) ?es else ?es"
  let ?st = "(NewPDRaftStorage cid eng)\<lparr>pr_hardState := hs, pr_persistedLastIndex := en_Index (last ?es), pr_entries := ?cache\<rparr>"
  note r = PD_RecoverFromEngine_eq [OF ex hs]
  have st': "st = ?st" using r(1) st by simp
  have c: "cache_repr (pr_entries st) F" "pr_entries st \<noteq> []" using r(2,3) by (simp_all add: st')
  have last: "unat (en_Index (last (pr_entries st))) = lg_last F" using c by (simp add: cache_repr_def)
  then show l: "unat (PD_LastIndex st) = lg_last F" using c(2) by (simp add: PD_LastIndex_def PD_lastIndexLocked_def)
  show a: "pr_applyState st = ApplyState_zero" by (simp add: st' NewPDRaftStorage_def)
  have suc: "unat (PD_LastIndex st + 1) = Suc (lg_last F)" using l log_exact_last(2) [OF ex] by (subst unat_Suc_word) simp_all
  have f: "PD_firstIndexLocked st = 1" by (simp add: PD_firstIndexLocked_def a ApplyState_zero_def)
  show "PD_Entries pb 1 (PD_LastIndex st + 1) 0 st = Inr (if lg_index F = 0 then ?es else [])"
  proof (cases "lg_index F = 0")
    case True
    have wf: "log_wf F" "log_stored pb eng cid F" using ex(1) by (simp_all add: log_exact_def)
    have z: "lg_from ApplyState_zero F = F\<lparr>lg_term := 0\<rparr>" using True by (simp add: lg_from_def ApplyState_zero_def)
    have idx: "lg_index F \<le> unat (as_TruncatedIndex ApplyState_zero)" "unat (as_TruncatedIndex ApplyState_zero) \<le> lg_last F"
      using True by (simp_all add: ApplyState_zero_def)
    have "log_repr pb (as_peer st) (lg_from ApplyState_zero F)"
      using log_wf_from [OF wf(1) idx] cache_repr_from [OF c(1) idx] c(2) wf(2)
      by (simp add: log_repr_def a) (simp add: st' NewPDRaftStorage_def z log_stored_def ApplyState_zero_def lg_from_def)
    then have p: "pd_repr pb st (F\<lparr>lg_term := 0\<rparr>)" by (simp add: pd_repr_def z)
    have "PD_Entries pb 1 (PD_LastIndex st + 1) 0 st = lg_Entries (F\<lparr>lg_term := 0\<rparr>) 1 (PD_LastIndex st + 1)"
      using PD_Entries_eq [OF p] Storage_Entries_repr [of pb "as_peer st" "F\<lparr>lg_term := 0\<rparr>" 1 "PD_LastIndex st + 1" 0] p
      by (cases "lg_Entries (F\<lparr>lg_term := 0\<rparr>) 1 (PD_LastIndex st + 1)") (simp_all add: pd_repr_def)
    also have "\<dots> = Inr (map (lg_at (F\<lparr>lg_term := 0\<rparr>)) [1..<Suc (lg_last F)])"
      using suc True by (simp add: lg_Entries_def word_less_nat_alt lg_last_def)
    also have "map (lg_at (F\<lparr>lg_term := 0\<rparr>)) [1..<Suc (lg_last F)] = ?es"
      using True by (intro nth_equalityI) (auto simp: lg_at_def lg_last_def simp del: upt_Suc)
    finally show ?thesis using True by simp
  next
    case False
    have low: "Suc (lg_index F) \<le> unat (en_Index e)" if "e \<in> set ?es" for e
      using ex(1) that by (auto simp: log_exact_def log_wf_def numbered_def in_set_conv_nth)
    have "set (pr_entries st) \<subseteq> set ?es" by (auto simp: st' dest: in_set_dropD)
    then have "Suc (lg_index F) \<le> unat (en_Index (hd (pr_entries st)))" using low hd_in_set [OF c(2)] by blast
    then have nc: "\<not> en_Index (hd (pr_entries st)) \<le> 1" using False by (simp add: word_le_nat_alt)
    have "RaftLogKey cid 1 \<notin> (\<lambda>e. RaftLogKey cid (en_Index e)) ` set ?es"
    proof
      assume "RaftLogKey cid 1 \<in> (\<lambda>e. RaftLogKey cid (en_Index e)) ` set ?es"
      then obtain e where e: "e \<in> set ?es" "en_Index e = 1" by auto
      have "Suc (lg_index F) \<le> 1" using low [OF e(1)] e(2) by simp
      then show False using False by simp
    qed
    then have "cf_get (eng CFRaft) (RaftLogKey cid 1) = None"
      using ex(1) in_RaftLogKeyRange [of cid cid 1] unfolding log_exact_def by blast
    moreover obtain n where "unat (PD_LastIndex st + 1) - unat (1 :: u64) = Suc n"
      using suc ex(2) by (cases ?es) (auto simp: lg_last_def)
    ultimately have "PD_readEntriesFromEngine pb 1 (PD_LastIndex st + 1) st = Inr []"
      by (simp add: PD_readEntriesFromEngine_def st' NewPDRaftStorage_def eng_get_def)
    moreover have "\<not> PD_LastIndex st + 1 < 1" using suc by (simp add: word_less_nat_alt)
    ultimately show ?thesis using nc f False
      by (simp add: PD_Entries_def PD_LastIndex_def [symmetric] PD_limitSize_def)
  qed
qed

subsection \<open>Handlers with and without replication\<close>

datatype PDRequest = ReqBootstrap "MetaStore option" "Region option" | ReqPutStore "MetaStore option"
  | ReqStoreHeartbeat "StoreStats option" | ReqReportBatchSplit "Region list" | ReqUpdateGCSafePoint u64

fun PD_handle :: "bool \<Rightarrow> pdjson \<Rightarrow> pd_clock \<Rightarrow> PDRequest \<Rightarrow> PDServer \<Rightarrow> (pd_error + u64) \<times> PDServer" where
  "PD_handle raft js clk (ReqBootstrap st rg) s = map_prod (map_sum id (\<lambda>_. 0)) id (PD_Bootstrap raft js clk st rg s)"
| "PD_handle raft js clk (ReqPutStore st) s = map_prod (map_sum id (\<lambda>_. 0)) id (PD_PutStore raft js clk st s)"
| "PD_handle raft js clk (ReqStoreHeartbeat ss) s = map_prod (map_sum id (\<lambda>_. 0)) id (PD_StoreHeartbeat raft js clk ss s)"
| "PD_handle raft js clk (ReqReportBatchSplit rs) s = map_prod (map_sum id (\<lambda>_. 0)) id (PD_ReportBatchSplit raft js clk rs s)"
| "PD_handle raft js clk (ReqUpdateGCSafePoint sp) s = PD_UpdateGCSafePoint raft js clk sp s"

text \<open>The commands a request makes the leader propose.\<close>

fun req_cmds :: "PDRequest \<Rightarrow> PDCommand list" where
  "req_cmds (ReqBootstrap st rg) =
     [PDCommand_zero\<lparr>pc_Type := CmdSetBootstrapped, pc_Bootstrapped := Some True, pc_Store := st, pc_Region := rg\<rparr>]"
| "req_cmds (ReqPutStore st) = [PDCommand_zero\<lparr>pc_Type := CmdPutStore, pc_Store := st\<rparr>]"
| "req_cmds (ReqStoreHeartbeat ss) =
     (case ss of None \<Rightarrow> []
      | Some st \<Rightarrow> [PDCommand_zero\<lparr>pc_Type := CmdUpdateStoreStats, pc_StoreID := sts_StoreId st, pc_StoreStats := Some st\<rparr>])"
| "req_cmds (ReqReportBatchSplit rs) =
     map (\<lambda>r. PDCommand_zero\<lparr>pc_Type := CmdPutRegion, pc_Region := Some r, pc_Leader := firstPeer r\<rparr>) rs"
| "req_cmds (ReqUpdateGCSafePoint sp) = [PDCommand_zero\<lparr>pc_Type := CmdUpdateGCSafePoint, pc_GCSafePoint := sp\<rparr>]"

fun PD_serve :: "bool \<Rightarrow> pdjson \<Rightarrow> (pd_clock \<times> PDRequest) list \<Rightarrow> PDServer \<Rightarrow> (pd_error + u64) list \<times> PDServer" where
  "PD_serve raft js [] s = ([], s)"
| "PD_serve raft js ((clk, req) # reqs) s =
     (let (r, s) = PD_handle raft js clk req s; (rs, s) = PD_serve raft js reqs s in (r # rs, s))"

lemma SetBootstrapped_commute:
  "PutStore st (SetBootstrapped b m) = SetBootstrapped b (PutStore st m)"
  "PutRegion rg l (SetBootstrapped b m) = SetBootstrapped b (PutRegion rg l m)"
  by (auto simp: PutStore_def PutRegion_def SetBootstrapped_def Let_def split: option.split)

lemma json_ok_Cons: "json_ok js (c # cs) \<longleftrightarrow> json_ok js [c] \<and> json_ok js cs"
  by (simp add: json_ok_def)

lemma cmd_valid [simp]:
  "1 \<le> CmdSetBootstrapped" "CmdSetBootstrapped \<le> maxPDCommandType" "1 \<le> CmdPutStore" "CmdPutStore \<le> maxPDCommandType"
  "1 \<le> CmdPutRegion" "CmdPutRegion \<le> maxPDCommandType" "1 \<le> CmdUpdateStoreStats" "CmdUpdateStoreStats \<le> maxPDCommandType"
  "1 \<le> CmdUpdateGCSafePoint" "CmdUpdateGCSafePoint \<le> maxPDCommandType"
  by (simp_all add: cmd_types)

lemma PDCommand_zero_Leader [simp]: "pc_Leader PDCommand_zero = None"
  by (simp add: PDCommand_zero_def)

lemma ReportBatchSplit_equiv:
  "json_ok js (req_cmds (ReqReportBatchSplit rs)) \<Longrightarrow>
   PD_ReportBatchSplit True js clk rs s = PD_ReportBatchSplit False js clk rs s"
proof (induction rs arbitrary: s)
  case (Cons r rs)
  have "json_ok js [PDCommand_zero\<lparr>pc_Type := CmdPutRegion, pc_Region := Some r, pc_Leader := firstPeer r\<rparr>]"
    "json_ok js (req_cmds (ReqReportBatchSplit rs))" using Cons.prems by (simp_all add: json_ok_def)
  then show ?case using Cons.IH by (simp add: proposeAndWait_ok apply_simps)
qed simp

lemma PD_handle_equiv: "json_ok js (req_cmds req) \<Longrightarrow> PD_handle True js clk req s = PD_handle False js clk req s"
proof (cases req)
  case (ReqReportBatchSplit rs)
  then show "json_ok js (req_cmds req) \<Longrightarrow> ?thesis" by (simp add: ReportBatchSplit_equiv del: PD_ReportBatchSplit.simps)
next
  case (ReqBootstrap st rg)
  then show "json_ok js (req_cmds req) \<Longrightarrow> ?thesis"
    by (simp add: PD_Bootstrap_def proposeAndWait_ok apply_simps SetBootstrapped_commute Let_def)
next
  case (ReqUpdateGCSafePoint sp)
  then show "json_ok js (req_cmds req) \<Longrightarrow> ?thesis"
    by (simp add: PD_UpdateGCSafePoint_def proposeAndWait_ok apply_simps split: prod.split)
qed (auto simp: PD_PutStore_def PD_StoreHeartbeat_def proposeAndWait_ok apply_simps split: option.split)

lemma PD_serve_equiv:
  "json_ok js (concat (map (\<lambda>r. req_cmds (snd r)) reqs)) \<Longrightarrow> PD_serve True js reqs s = PD_serve False js reqs s"
proof (induction reqs arbitrary: s)
  case (Cons r reqs)
  obtain clk req where r: "r = (clk, req)" by force
  have "json_ok js (req_cmds req)" "json_ok js (concat (map (\<lambda>r. req_cmds (snd r)) reqs))" using Cons.prems by (auto simp: r json_ok_def)
  then show ?case using Cons.IH by (simp add: r PD_handle_equiv del: PD_handle.simps split: prod.split)
qed simp

subsection \<open>Restart\<close>

lemma lg_last_pos: "lg_entries F \<noteq> [] \<Longrightarrow> 0 < lg_last F"
  by (cases "lg_entries F") (simp_all add: lg_last_def)

lemma restartPD_eq:
  assumes ex: "log_exact pb eng (pcf_ClusterID cfg) F" "lg_entries F \<noteq> []" and hs: "hardState_stored pb eng (pcf_ClusterID cfg) hs"
  defines "s0 \<equiv> NewPDServer cfg eng"
  shows "\<exists>st st'. restartPD pb js clks cfg eng =
      (None, (replayEntries js clks (if lg_index F = 0 then lg_entries F else []) (s0\<lparr>sv_raftStorage := st\<rparr>))\<lparr>sv_raftStorage := st'\<rparr>) \<and>
    as_TruncatedIndex (pr_applyState st') = 0 \<and> unat (as_AppliedIndex (pr_applyState st')) = lg_last F"
proof -
  obtain st where st: "PD_RecoverFromEngine pb (NewPDRaftStorage (pcf_ClusterID cfg) eng) = (None, st)"
    using PD_RecoverFromEngine_eq(1) [OF ex hs] by blast
  note r = restarted_entries [OF ex hs st]
  let ?s = "replayEntries js clks (if lg_index F = 0 then lg_entries F else []) (s0\<lparr>sv_raftStorage := st\<rparr>)"
  have "\<not> PD_LastIndex st \<le> 0" using r(3) lg_last_pos [OF ex(2)] by (metis gr_implies_not0 unsigned_0 word_le_0_iff)
  then have "restartPD pb js clks cfg eng =
    (None, ?s\<lparr>sv_raftStorage := PD_SetApplyState (ApplyState_zero\<lparr>as_AppliedIndex := PD_LastIndex st\<rparr>) (sv_raftStorage ?s)\<rparr>)"
    using st r(1,2) by (simp add: restartPD_def s0_def NewPDServer_def replayRaftLog_def Let_def ApplyState_zero_def)
  then show ?thesis using r(3) by (intro exI conjI) (assumption, simp_all add: PD_SetApplyState_def ApplyState_zero_def)
qed

subsection \<open>Properties\<close>

definition sampleClock :: "int \<Rightarrow> pd_clock" where
  "sampleClock t = \<lparr>ck_nanos = t, ck_millis = t, ck_millis2 = t\<rparr>"

definition sampleCmd :: PDCommand where
  "sampleCmd = PDCommand_zero\<lparr>pc_Type := CmdUpdateGCSafePoint, pc_GCSafePoint := 9\<rparr>"

definition sampleServer :: PDServer where
  "sampleServer = NewPDServer DefaultPDServerConfig (\<lambda>_. [])"

text \<open>An encoder for one command and one snapshot.\<close>

definition sampleJson :: pdjson where
  "sampleJson = \<lparr>js_MarshalCommand = (\<lambda>_. Inr [1]), js_UnmarshalCommand = (\<lambda>_. Inr sampleCmd),
     js_MarshalTimestamp = (\<lambda>ts. Inr (PutUint64 (of_int (ts_Physical ts)) @ PutUint64 (of_int (ts_Logical ts)))),
     js_UnmarshalTimestamp = (\<lambda>d. Inr \<lparr>ts_Physical = uint (Uint64 (take 8 d)), ts_Logical = uint (Uint64 (drop 8 d))\<rparr>),
     js_MarshalSnapshot = (\<lambda>_. Inr [2]), js_UnmarshalSnapshot = (\<lambda>_. Inr (snapshotOf sampleServer))\<rparr>"

lemma sampleJson_ok: "json_ok sampleJson [sampleCmd]" "json_snapshot_ok sampleJson (snapshotOf sampleServer)"
  by (simp_all add: json_ok_def json_snapshot_ok_def sampleJson_def)

lemma same_core_refl: "same_core s s"
  by (simp add: same_core_def)

text \<open>C13: Replicas of the placement driver that apply the same commands in the same order, each with its own clock, agree on
  the stores, regions, leaders and statistics, on the id allocator and on the GC safe point, and answer
  every further command except a timestamp allocation alike.\<close>

theorem pd_replicas_agree:
  assumes "map snd xs = map snd ys" "same_core s s'"
  shows "same_core (applyAll js xs s) (applyAll js ys s') \<and>
    (pc_Type cmd = CmdTSOAllocate \<or>
     fst (applyCommand js clk cmd (applyAll js xs s)) = fst (applyCommand js clk' cmd (applyAll js ys s')))"
  using applyAll_core [OF assms] applyCommand_core(2) [OF applyAll_core [OF assms]] by blast

theorem pd_replicas_agree_witness:
  "fst (applyCommand sampleJson (sampleClock 1) sampleCmd (applyAll sampleJson [(sampleClock 5, sampleCmd)] sampleServer)) =
   fst (applyCommand sampleJson (sampleClock 2) sampleCmd (applyAll sampleJson [(sampleClock 8, sampleCmd)] sampleServer))"
  using pd_replicas_agree [of "[(sampleClock 5, sampleCmd)]" "[(sampleClock 8, sampleCmd)]" sampleServer sampleServer
      sampleJson sampleCmd "sampleClock 1" "sampleClock 2", OF _ same_core_refl]
  by (simp add: sampleCmd_def cmd_types)





text \<open>C30: What a restart rebuilds. The log holds the entries after its compaction point. When nothing was
  compacted the server replays every stored entry on an empty state. After any compaction it replays nothing, although
  it records the whole log as applied: the truncation point is not restored and the first entry is missing.\<close>

theorem pd_restart:
  assumes "log_exact pb eng (pcf_ClusterID cfg) F" "lg_entries F \<noteq> []" "hardState_stored pb eng (pcf_ClusterID cfg) hs"
  shows "\<exists>st st'. restartPD pb js clks cfg eng =
      (None, (replayEntries js clks (if lg_index F = 0 then lg_entries F else [])
                ((NewPDServer cfg eng)\<lparr>sv_raftStorage := st\<rparr>))\<lparr>sv_raftStorage := st'\<rparr>) \<and>
    as_TruncatedIndex (pr_applyState st') = 0 \<and> unat (as_AppliedIndex (pr_applyState st')) = lg_last F"
  by (rule restartPD_eq [OF assms])

definition compactedLog :: rlog where
  "compactedLog = \<lparr>lg_index = 1, lg_term = 1, lg_entries = [sampleEntry 2]\<rparr>"

definition compactedEngine :: store where
  "compactedEngine = (\<lambda>_. [])(CFRaft := [(RaftLogKey 1 2, 0 # PutUint64 1 @ PutUint64 2 @ [7]),
     (RaftStateKey 1, PutUint64 1 @ PutUint64 1 @ PutUint64 2)])"

lemma compactedEngine_stored:
  "log_exact sample_raftpb compactedEngine 1 compactedLog" "lg_entries compactedLog \<noteq> []"
  "hardState_stored sample_raftpb compactedEngine 1 \<lparr>hs_Term = 1, hs_Vote = 1, hs_Commit = 2\<rparr>"
proof -
  have less: "RaftLogKey 1 2 < RaftStateKey 1" using in_RaftLogKeyRange [of 1 1 2] by (simp add: in_key_range_def RaftLogKeyRange_def)
  have so: "cf_sorted (compactedEngine CFRaft)" using less by (simp add: compactedEngine_def cf_sorted_def)
  have "cf_get (compactedEngine CFRaft) k = None" if "in_key_range (RaftLogKeyRange 1) k" "k \<noteq> RaftLogKey 1 2" for k
    using that not_in_RaftLogKeyRange(1) [of 1 1] by (auto simp: compactedEngine_def cf_get_def)
  then show "log_exact sample_raftpb compactedEngine 1 compactedLog"
    using so by (auto simp: log_exact_def log_wf_def compactedLog_def numbered_def lg_last_def log_stored_def sampleEntry_def
        compactedEngine_def cf_get_def sample_raftpb_def)
  show "lg_entries compactedLog \<noteq> []" by (simp add: compactedLog_def)
  show "hardState_stored sample_raftpb compactedEngine 1 \<lparr>hs_Term = 1, hs_Vote = 1, hs_Commit = 2\<rparr>"
    using less by (auto simp: hardState_stored_def compactedEngine_def cf_get_def sample_raftpb_def)
qed

theorem pd_restart_witness:
  "\<exists>s. restartPD sample_raftpb sampleJson (\<lambda>_. sampleClock 3) DefaultPDServerConfig compactedEngine = (None, s) \<and>
    sv_gcMgr s = NewGCSafePointManager \<and> unat (as_AppliedIndex (pr_applyState (sv_raftStorage s))) = 2"
  using pd_restart [of sample_raftpb compactedEngine DefaultPDServerConfig compactedLog
      "\<lparr>hs_Term = 1, hs_Vote = 1, hs_Commit = 2\<rparr>" sampleJson "\<lambda>_. sampleClock 3"] compactedEngine_stored
  by (auto simp: compactedLog_def NewPDServer_def lg_last_def DefaultPDServerConfig_def)

text \<open>Timestamps may go back when the leader changes. Each replica applies an allocation with its own
  clock, so a new leader whose clock is behind hands out a smaller timestamp than one already handed out.\<close>

theorem tso_failover:
  assumes "T' \<le> T''" "0 < T''" "T'' < T"
    "cmd = PDCommand_zero\<lparr>pc_Type := CmdTSOAllocate, pc_TSOBatchSize := 1\<rparr>"
    "b = snd (applyCommand js (sampleClock T') cmd (NewPDServer cfg eng))"
  shows "\<exists>(tsA :: Timestamp) (tsB :: Timestamp). fst (applyCommand js (sampleClock T) cmd (NewPDServer cfg eng)) = js_MarshalTimestamp js tsA \<and>
    fst (applyCommand js (sampleClock T'') cmd b) = js_MarshalTimestamp js tsB \<and> ts_Physical tsB < ts_Physical tsA"
proof -
  have "fst (applyCommand js (sampleClock T) cmd (NewPDServer cfg eng)) = js_MarshalTimestamp js \<lparr>ts_Physical = T, ts_Logical = 1\<rparr>"
    using assms(2-4) by (simp add: apply_simps sampleClock_def NewPDServer_def NewTSOAllocator_def TSO_Allocate_def Let_def)
  moreover have "\<exists>l. fst (applyCommand js (sampleClock T'') cmd b) = js_MarshalTimestamp js \<lparr>ts_Physical = T'', ts_Logical = l\<rparr>"
    using assms(1,2,4,5) by (cases "T' = T''"; cases "0 < T'") (simp_all add: apply_simps sampleClock_def NewPDServer_def NewTSOAllocator_def TSO_Allocate_def Let_def, force+)
  ultimately show ?thesis using assms(3) by force
qed

theorem tso_failover_witness:
  "\<exists>(tsA :: Timestamp) (tsB :: Timestamp). ts_Physical tsB < ts_Physical tsA \<and>
    fst (applyCommand sampleJson (sampleClock 100) (PDCommand_zero\<lparr>pc_Type := CmdTSOAllocate, pc_TSOBatchSize := 1\<rparr>) (NewPDServer DefaultPDServerConfig (\<lambda>_. []))) =
      js_MarshalTimestamp sampleJson tsA"
proof -
  have "(40 :: int) \<le> 50" "(0 :: int) < 50" "(50 :: int) < 100" by simp_all
  from tso_failover [OF this refl refl, of sampleJson DefaultPDServerConfig "\<lambda>_. []"] show ?thesis by blast
qed

subsection \<open>Identifiers\<close>

definition split_ids :: "SplitID list \<Rightarrow> u64 list" where
  "split_ids ids = concat (map (\<lambda>x. sid_NewRegionId x # sid_NewPeerIds x) ids)"

text \<open>What a split relies on: as long as the identifiers last, each one handed out is above all earlier ones. The
  invariant bounds the identifiers still to come from below and counts the allocations that are safe from wrap-around.\<close>

locale id_source =
  fixes alloc :: "'s \<Rightarrow> (pd_error + u64) \<times> 's" and inv :: "nat \<Rightarrow> nat \<Rightarrow> 's \<Rightarrow> bool"
  assumes alloc_fresh: "inv k b s \<Longrightarrow> 0 < k \<Longrightarrow> alloc s = (Inr i, s') \<Longrightarrow> b \<le> unat i \<and> inv (k - 1) (Suc (unat i)) s'"
begin

lemma allocMany_fresh:
  "inv k b s \<Longrightarrow> n \<le> k \<Longrightarrow> allocMany alloc n s = (Inr is, s') \<Longrightarrow>
   length is = n \<and> (\<exists>b' \<ge> b. inv (k - n) b' s' \<and> (\<forall>i \<in> set is. b \<le> unat i \<and> unat i < b')) \<and> sorted_wrt (<) (map unat is)"
proof (induction n arbitrary: k b s "is")
  case (Suc n)
  obtain i s1 where a: "alloc s = (Inr i, s1)" using Suc.prems(3) by (auto split: prod.splits sum.splits)
  obtain js where j: "allocMany alloc n s1 = (Inr js, s')" "is = i # js" using Suc.prems(3) a by (auto split: prod.splits sum.splits)
  have f: "b \<le> unat i" "inv (k - 1) (Suc (unat i)) s1" using alloc_fresh [OF Suc.prems(1) _ a] Suc.prems(2) by auto
  have le: "n \<le> k - 1" using Suc.prems(2) by simp
  obtain b' where r: "length js = n" "Suc (unat i) \<le> b'" "inv (k - 1 - n) b' s'" "\<forall>j \<in> set js. Suc (unat i) \<le> unat j \<and> unat j < b'"
      "sorted_wrt (<) (map unat js)"
    using Suc.IH [OF f(2) le j(1)] by auto
  have "\<exists>b' \<ge> b. inv (k - Suc n) b' s' \<and> (\<forall>i \<in> set is. b \<le> unat i \<and> unat i < b')"
    using f(1) r j(2) by (intro exI [of _ b']) auto
  then show ?case using r(1,4,5) j(2) by (auto simp: Suc_le_eq)
qed auto

lemma askSplit_fresh:
  "inv k b s \<Longrightarrow> n * Suc m \<le> k \<Longrightarrow> askSplit_loop alloc m n s = (Inr ids, s') \<Longrightarrow>
   length ids = n \<and> (\<forall>x \<in> set ids. length (sid_NewPeerIds x) = m) \<and>
   (\<exists>b' \<ge> b. inv (k - n * Suc m) b' s' \<and> (\<forall>i \<in> set (split_ids ids). b \<le> unat i \<and> unat i < b')) \<and>
   sorted_wrt (<) (map unat (split_ids ids))"
proof (induction n arbitrary: k b s ids)
  case (Suc n)
  obtain i s1 where a: "alloc s = (Inr i, s1)" using Suc.prems(3) by (auto split: prod.splits sum.splits)
  obtain ps s2 where p: "allocMany alloc m s1 = (Inr ps, s2)" using Suc.prems(3) a by (auto split: prod.splits sum.splits)
  obtain rest where r: "askSplit_loop alloc m n s2 = (Inr rest, s')" "ids = \<lparr>sid_NewRegionId = i, sid_NewPeerIds = ps\<rparr> # rest"
    using Suc.prems(3) a p by (auto split: prod.splits sum.splits)
  have f: "b \<le> unat i" "inv (k - 1) (Suc (unat i)) s1" using alloc_fresh [OF Suc.prems(1) _ a] Suc.prems(2) by auto
  have le: "m \<le> k - 1" "n * Suc m \<le> k - 1 - m" using Suc.prems(2) by simp_all
  obtain b1 where m: "length ps = m" "Suc (unat i) \<le> b1" "inv (k - 1 - m) b1 s2" "\<forall>j \<in> set ps. Suc (unat i) \<le> unat j \<and> unat j < b1"
      "sorted_wrt (<) (map unat ps)"
    using allocMany_fresh [OF f(2) le(1) p] by auto
  obtain b2 where n: "length rest = n" "\<forall>x \<in> set rest. length (sid_NewPeerIds x) = m" "b1 \<le> b2" "inv (k - 1 - m - n * Suc m) b2 s'"
      "\<forall>j \<in> set (split_ids rest). b1 \<le> unat j \<and> unat j < b2" "sorted_wrt (<) (map unat (split_ids rest))"
    using Suc.IH [OF m(3) le(2) r(1)] by auto
  have k: "k - Suc n * Suc m = k - 1 - m - n * Suc m" by simp
  have e: "split_ids ids = i # ps @ split_ids rest" by (simp add: r(2) split_ids_def)
  have "b \<le> unat x \<and> unat x < b2" if "x \<in> set (split_ids ids)" for x
  proof -
    consider "x = i" | "x \<in> set ps" | "x \<in> set (split_ids rest)" using \<open>x \<in> set (split_ids ids)\<close> unfolding e by auto
    then show ?thesis
    proof cases
      case 2
      then have "Suc (unat i) \<le> unat x" "unat x < b1" using m(4) by auto
      then show ?thesis using f(1) n(3) by simp
    next
      case 3
      then have "b1 \<le> unat x" "unat x < b2" using n(5) by auto
      then show ?thesis using f(1) m(2) by simp
    qed (use f(1) m(2) n(3) in simp)
  qed
  then have "\<exists>b' \<ge> b. inv (k - Suc n * Suc m) b' s' \<and> (\<forall>i \<in> set (split_ids ids). b \<le> unat i \<and> unat i < b')"
    unfolding k using f(1) m(2) n(3,4) by (intro exI [of _ b2]) simp
  moreover have "sorted_wrt (<) (map unat (split_ids ids))"
  proof -
    have "unat x < unat y" if "x \<in> set ps" "y \<in> set (split_ids rest)" for x y
      using that m(4) n(5) by (meson order_less_le_trans)
    moreover have "unat i < unat y" if "y \<in> set (split_ids rest)" for y
      using that m(2) n(5) by (meson Suc_le_lessD order_trans)
    ultimately show ?thesis using m(4,5) n(6) unfolding e by (auto simp: sorted_wrt_append)
  qed
  ultimately show ?case using m(1) n(1,2) by (simp add: r(2))
qed (auto simp: split_ids_def)

end

text \<open>A single node allocates directly; the leader from its buffer, which it refills through a proposal.\<close>

definition direct_inv :: "nat \<Rightarrow> nat \<Rightarrow> IDBuffer \<times> PDServer \<Rightarrow> bool" where
  "direct_inv k b bs \<longleftrightarrow> b \<le> unat (ida_nextID (sv_idAlloc (snd bs))) \<and> unat (ida_nextID (sv_idAlloc (snd bs))) + k < 2 ^ 64"

definition buffer_inv :: "pdjson \<Rightarrow> nat \<Rightarrow> nat \<Rightarrow> IDBuffer \<times> PDServer \<Rightarrow> bool" where
  "buffer_inv js k b bs \<longleftrightarrow>
     json_ok js [PDCommand_zero\<lparr>pc_Type := CmdIDAlloc, pc_IDBatchSize := int idBatchSize\<rparr>] \<and>
     ib_inv b (fst bs) (sv_idAlloc (snd bs)) \<and> unat (ida_nextID (sv_idAlloc (snd bs))) + k * idBatchSize < 2 ^ 64"

lemma direct_inv_step:
  assumes "direct_inv k b bs" "0 < k" "PD_AllocID False js clk bs = (Inr i, bs')"
  shows "b \<le> unat i \<and> direct_inv (k - 1) (Suc (unat i)) bs'"
proof -
  obtain bf s where bs: "bs = (bf, s)" by force
  have i: "i = ida_nextID (sv_idAlloc s)" "ida_nextID (sv_idAlloc (snd bs')) = i + 1"
    using assms(3) by (auto simp: PD_AllocID_def bs ID_Alloc_def)
  have "unat i + k < 2 ^ 64" "b \<le> unat i" using assms(1) by (simp_all add: direct_inv_def bs i(1))
  moreover from this assms(2) have "unat (i + 1) = Suc (unat i)" by (subst unat_Suc_word) simp_all
  ultimately show ?thesis using assms(2) by (simp add: direct_inv_def i(2))
qed

interpretation direct_ids: id_source "PD_AllocID False js clk" direct_inv for js clk
  by unfold_locales (rule direct_inv_step)

lemma cmd_valid_id: "1 \<le> CmdIDAlloc" "CmdIDAlloc \<le> maxPDCommandType"
  by (simp_all add: cmd_types)

lemma proposeAndWait_IDAlloc:
  assumes "json_ok js [PDCommand_zero\<lparr>pc_Type := CmdIDAlloc, pc_IDBatchSize := int idBatchSize\<rparr>]"
  shows "proposeAndWait js clk (PDCommand_zero\<lparr>pc_Type := CmdIDAlloc, pc_IDBatchSize := int idBatchSize\<rparr>) s =
    (let (r, a) = propose_ids idBatchSize (sv_idAlloc s) in (r, s\<lparr>sv_idAlloc := a\<rparr>))"
  using assms by (subst proposeAndWait_ok) (simp_all add: apply_simps propose_ids_def idBatchSize_def cmd_valid_id split: prod.split)

lemma PD_AllocID_raft:
  assumes "json_ok js [PDCommand_zero\<lparr>pc_Type := CmdIDAlloc, pc_IDBatchSize := int idBatchSize\<rparr>]"
  shows "PD_AllocID True js clk (b, s) =
    (let (r, b, a) = IDBuffer_Alloc propose_ids (b, sv_idAlloc s) in (r, b, s\<lparr>sv_idAlloc := a\<rparr>))"
  using proposeAndWait_IDAlloc [OF assms, of clk s]
  by (auto simp: PD_AllocID_def IDBuffer_Alloc_def Let_def split: prod.split sum.split)

lemma buffer_inv_step:
  assumes "buffer_inv js k b bs" "0 < k" "PD_AllocID True js clk bs = (Inr i, bs')"
  shows "b \<le> unat i \<and> buffer_inv js (k - 1) (Suc (unat i)) bs'"
proof -
  obtain bf s where bs: "bs = (bf, s)" by force
  have j: "json_ok js [PDCommand_zero\<lparr>pc_Type := CmdIDAlloc, pc_IDBatchSize := int idBatchSize\<rparr>]"
    and inv: "ib_inv b bf (sv_idAlloc s)" and sum: "unat (ida_nextID (sv_idAlloc s)) + k * idBatchSize < 2 ^ 64"
    using assms(1) by (simp_all add: buffer_inv_def bs)
  obtain bf' a where a: "IDBuffer_Alloc propose_ids (bf, sv_idAlloc s) = (Inr i, bf', a)" "bs' = (bf', s\<lparr>sv_idAlloc := a\<rparr>)"
    using assms(3) by (auto simp: bs PD_AllocID_raft [OF j] split: prod.splits)
  have k: "k * idBatchSize = idBatchSize + (k - 1) * idBatchSize" using assms(2) by (cases k) simp_all
  have "id_step IdGet (bf, sv_idAlloc s) = (Some i, bf', a)" by (simp add: id_step_def a)
  from id_step_inv [OF inv _ this] have "b \<le> unat i" "ib_inv (Suc (unat i)) bf' a"
    "unat (ida_nextID a) \<le> unat (ida_nextID (sv_idAlloc s)) + idBatchSize" using sum k by simp_all
  then show ?thesis using sum k j by (simp add: buffer_inv_def a(2))
qed

interpretation buffered_ids: id_source "PD_AllocID True js clk" "buffer_inv js" for js clk
  by unfold_locales (rule buffer_inv_step)



subsection \<open>The ready loop of the raft peer\<close>

record PDRaftPeer =
  prp_nodeID :: u64
  prp_isLeader :: bool
  prp_leaderID :: u64
  prp_pendingProposals :: "pd_callback list"

text \<open>A ready batch: the leader when the soft state changed, a snapshot with data, its index and its term, what is
  to be persisted, and the committed entries. Sending messages and advancing the raft library have no state here.\<close>

record PDReady =
  prd_Lead :: "u64 option"
  prd_Snapshot :: "(bytes \<times> u64 \<times> u64) option"
  prd_Ready :: Ready
  prd_CommittedEntries :: "Entry list"

definition drainProposals :: "pd_callback list \<Rightarrow> (nat \<times> (pd_error + bytes)) list" where
  "drainProposals pending = List.map_filter (map_option (\<lambda>c. (c, Inl ErrNotLeader))) pending"

definition PD_softState :: "u64 option \<Rightarrow> PDRaftPeer \<Rightarrow> (nat \<times> (pd_error + bytes)) list \<times> PDRaftPeer" where
  "PD_softState lead p =
     (case lead of
        None \<Rightarrow> ([], p)
      | Some l \<Rightarrow>
          let wasLeader = prp_isLeader p; nowLeader = (l = prp_nodeID p);
              p = p\<lparr>prp_isLeader := nowLeader, prp_leaderID := l\<rparr> in
          if wasLeader \<and> \<not> nowLeader
          then (drainProposals (prp_pendingProposals p), p\<lparr>prp_pendingProposals := []\<rparr>)
          else ([], p))"

definition PD_receiveSnapshot :: "pdjson \<Rightarrow> (bytes \<times> u64 \<times> u64) option \<Rightarrow> PDServer \<Rightarrow> PDServer" where
  "PD_receiveSnapshot js snap s =
     (case snap of
        None \<Rightarrow> s
      | Some (data, index, term) \<Rightarrow>
          if data = [] then s
          else
            (case ApplySnapshot js data s of
               (Some _, s) \<Rightarrow> s
             | (None, s) \<Rightarrow>
                 s\<lparr>sv_raftStorage := PD_SetApplyState ((pr_applyState (sv_raftStorage s))\<lparr>as_AppliedIndex := index,
                      as_TruncatedIndex := index, as_TruncatedTerm := term\<rparr>) (sv_raftStorage s)\<rparr>))"

definition PD_handleReady ::
  "raftpb \<Rightarrow> pdjson \<Rightarrow> (nat \<Rightarrow> pd_clock) \<Rightarrow> PDReady \<Rightarrow> PDRaftPeer \<times> PDServer \<Rightarrow>
   (nat \<times> (pd_error + bytes)) list \<times> PDRaftPeer \<times> PDServer"
where
  "PD_handleReady pb js clks rd ps =
     (let (p, s) = ps; (drained, p) = PD_softState (prd_Lead rd) p;
          s = PD_receiveSnapshot js (prd_Snapshot rd) s in
      case PD_SaveReady pb (prd_Ready rd) (sv_raftStorage s) of
        (Some _, st) \<Rightarrow> (drained, p, s\<lparr>sv_raftStorage := st\<rparr>)
      | (None, st) \<Rightarrow>
          let (evs, pending, s) = handleCommitted js clks (prd_CommittedEntries rd) (prp_pendingProposals p) (s\<lparr>sv_raftStorage := st\<rparr>) in
          (drained @ evs, p\<lparr>prp_pendingProposals := pending\<rparr>, s))"

text \<open>The entries that carry a command, and the results of applying them one after the other.\<close>

definition isCommandEntry :: "Entry \<Rightarrow> bool" where
  "isCommandEntry e \<longleftrightarrow> en_Data e \<noteq> [] \<and> en_Type e = EntryNormal"

definition applyEntry :: "pdjson \<Rightarrow> pd_clock \<Rightarrow> Entry \<Rightarrow> PDServer \<Rightarrow> (pd_error + bytes) \<times> PDServer" where
  "applyEntry js clk e s =
     (case UnmarshalPDCommand js (en_Data e) of Inl err \<Rightarrow> (Inl err, s) | Inr cmd \<Rightarrow> applyCommand js clk cmd s)"

fun entryResults :: "pdjson \<Rightarrow> (nat \<Rightarrow> pd_clock) \<Rightarrow> Entry list \<Rightarrow> PDServer \<Rightarrow> (pd_error + bytes) list \<times> PDServer" where
  "entryResults js clks [] s = ([], s)"
| "entryResults js clks (e # es) s =
     (if isCommandEntry e
      then let (r, s) = applyEntry js (clks (length es)) e s; (rs, s) = entryResults js clks es s in (r # rs, s)
      else entryResults js clks es s)"

lemma applyCommitted_Cons:
  "applyCommitted js clks (e # es) pending s =
     (if isCommandEntry e
      then
        let (r, s) = applyEntry js (clks (length es)) e s in
        (case pending of
           [] \<Rightarrow> applyCommitted js clks es [] s
         | cb # pending \<Rightarrow>
             let (evs, x) = applyCommitted js clks es pending s in
             ((case cb of None \<Rightarrow> evs | Some c \<Rightarrow> (c, r) # evs), x))
      else applyCommitted js clks es pending s)"
  by (cases "en_Type e") (auto simp: isCommandEntry_def applyEntry_def split: sum.split)

lemma applyCommitted_aligned:
  "length (filter isCommandEntry es) = length cbs \<Longrightarrow>
   applyCommitted js clks es (map Some cbs @ rest) s =
     (let (rs, s') = entryResults js clks es s in (zip cbs rs, rest, s')) \<and> length (fst (entryResults js clks es s)) = length cbs"
proof (induction es arbitrary: cbs s)
  case (Cons e es)
  show ?case
  proof (cases "isCommandEntry e")
    case True
    then obtain c cs where c: "cbs = c # cs" "length (filter isCommandEntry es) = length cs" using Cons.prems by (cases cbs) auto
    obtain r s1 where a: "applyEntry js (clks (length es)) e s = (r, s1)" by force
    obtain rs s2 where r: "entryResults js clks es s1 = (rs, s2)" by force
    show ?thesis
      using Cons.IH [OF c(2), of s1] True a r by (simp add: applyCommitted_Cons c(1) del: applyCommitted.simps(2))
  next
    case False
    then show ?thesis using Cons.IH [of cbs] Cons.prems by (simp add: applyCommitted_Cons del: applyCommitted.simps(2))
  qed
qed simp

text \<open>C27: A leader whose queue is aligned answers every proposal with the result of its own command: when the committed
  entries of a ready batch are the commands of the first callbacks of the queue, in order, each of these callbacks is called
  once, with what applying its command returned, and the queue keeps the others. Entries without a command take no callback. Nothing is
  answered, and nothing applied, when the entries could not be saved.\<close>

theorem proposals_answered:
  assumes "prd_Lead rd = None" "prd_Snapshot rd = None" "prp_pendingProposals p = map Some cbs @ rest"
    "length (filter isCommandEntry (prd_CommittedEntries rd)) = length cbs"
  shows "(case PD_SaveReady pb (prd_Ready rd) (sv_raftStorage s) of
      (Some _, st) \<Rightarrow> PD_handleReady pb js clks rd (p, s) = ([], p, s\<lparr>sv_raftStorage := st\<rparr>)
    | (None, st) \<Rightarrow> \<exists>rs s' st'. entryResults js clks (prd_CommittedEntries rd) (s\<lparr>sv_raftStorage := st\<rparr>) = (rs, s') \<and>
        length rs = length cbs \<and>
        PD_handleReady pb js clks rd (p, s) = (zip cbs rs, p\<lparr>prp_pendingProposals := rest\<rparr>, s'\<lparr>sv_raftStorage := st'\<rparr>))"
proof -
  note a = applyCommitted_aligned [OF assms(4), of js clks rest]
  have h: "\<exists>rs s' st'. entryResults js clks (prd_CommittedEntries rd) s1 = (rs, s') \<and> length rs = length cbs \<and>
    handleCommitted js clks (prd_CommittedEntries rd) (map Some cbs @ rest) s1 = (zip cbs rs, rest, s'\<lparr>sv_raftStorage := st'\<rparr>)" for s1
  proof (cases "prd_CommittedEntries rd = []")
    case True
    then have "cbs = []" using assms(4) by simp
    then show ?thesis using True by (intro exI [of _ "[]"] exI [of _ s1] exI [of _ "sv_raftStorage s1"]) (simp add: handleCommitted_def)
  next
    case False
    then show ?thesis using a [of s1] by (auto simp: handleCommitted_def Let_def split: prod.splits)
  qed
  obtain err st where st: "PD_SaveReady pb (prd_Ready rd) (sv_raftStorage s) = (err, st)" by force
  obtain rs s' st' where r: "entryResults js clks (prd_CommittedEntries rd) (s\<lparr>sv_raftStorage := st\<rparr>) = (rs, s')" "length rs = length cbs"
    "handleCommitted js clks (prd_CommittedEntries rd) (map Some cbs @ rest) (s\<lparr>sv_raftStorage := st\<rparr>) =
     (zip cbs rs, rest, s'\<lparr>sv_raftStorage := st'\<rparr>)"
    using h by blast
  show ?thesis
  proof (cases err)
    case None
    then have "PD_handleReady pb js clks rd (p, s) = (zip cbs rs, p\<lparr>prp_pendingProposals := rest\<rparr>, s'\<lparr>sv_raftStorage := st'\<rparr>)"
      using assms(1-3) st r by (simp add: PD_handleReady_def PD_softState_def PD_receiveSnapshot_def)
    then show ?thesis using st r(1,2) None by auto
  qed (use st assms(1,2) in \<open>simp add: PD_handleReady_def PD_softState_def PD_receiveSnapshot_def\<close>)
qed

definition sampleCommandEntry :: Entry where
  "sampleCommandEntry = \<lparr>en_Type = EntryNormal, en_Term = 1, en_Index = 1, en_Data = [8, 1]\<rparr>"

definition samplePDReady :: PDReady where
  "samplePDReady = \<lparr>prd_Lead = None, prd_Snapshot = None, prd_Ready = \<lparr>rd_HardState = HardState_zero, rd_Entries = []\<rparr>,
     prd_CommittedEntries = [sampleCommandEntry]\<rparr>"

definition samplePDPeer :: PDRaftPeer where
  "samplePDPeer = \<lparr>prp_nodeID = 1, prp_isLeader = True, prp_leaderID = 1, prp_pendingProposals = [Some 7]\<rparr>"

theorem proposals_answered_witness:
  "\<exists>rs p' s'. PD_handleReady sample_raftpb sampleJson (\<lambda>_. sampleClock 1) samplePDReady (samplePDPeer, sampleServer) = (zip [7] rs, p', s') \<and>
    length rs = 1 \<and> prp_pendingProposals p' = []"
proof -
  have s: "PD_SaveReady sample_raftpb (prd_Ready samplePDReady) (sv_raftStorage sampleServer) = (None, sv_raftStorage sampleServer)"
    by (simp add: PD_SaveReady_def samplePDReady_def HardState_zero_def IsEmptyHardState_def wb_commit_def)
  have "length (filter isCommandEntry (prd_CommittedEntries samplePDReady)) = length [7 :: nat]"
    by (simp add: samplePDReady_def sampleCommandEntry_def isCommandEntry_def)
  then have "case PD_SaveReady sample_raftpb (prd_Ready samplePDReady) (sv_raftStorage sampleServer) of
      (Some _, st) \<Rightarrow> PD_handleReady sample_raftpb sampleJson (\<lambda>_. sampleClock 1) samplePDReady (samplePDPeer, sampleServer) =
        ([], samplePDPeer, sampleServer\<lparr>sv_raftStorage := st\<rparr>)
    | (None, st) \<Rightarrow> \<exists>rs s' st'. entryResults sampleJson (\<lambda>_. sampleClock 1) (prd_CommittedEntries samplePDReady)
          (sampleServer\<lparr>sv_raftStorage := st\<rparr>) = (rs, s') \<and> length rs = length [7 :: nat] \<and>
        PD_handleReady sample_raftpb sampleJson (\<lambda>_. sampleClock 1) samplePDReady (samplePDPeer, sampleServer) =
          (zip [7] rs, samplePDPeer\<lparr>prp_pendingProposals := []\<rparr>, s'\<lparr>sv_raftStorage := st'\<rparr>)"
    by (intro proposals_answered) (simp_all add: samplePDReady_def samplePDPeer_def)
  then show ?thesis unfolding s by auto
qed

end
