(* ===== verification/Spec2Isabelle.thy ===== *)
theory Spec2Isabelle
  imports Keys Gc Rocks RawStorage Scanner RaftLogProperties RegionOps PdServer
begin

text \<open>
  A verification library for gookv, a distributed transactional key-value store in the style of TiKV.

  \<^bold>\<open>The program.\<close> A client sends transactional and raw requests to a store. The store keeps four column families
  (default, lock, write, raft) in one Pebble database (\<^verbatim>\<open>internal/engine\<close>). Transactions are percolator-style two-phase
  commits over multi-version keys (\<^verbatim>\<open>internal/storage/mvcc\<close>, \<^verbatim>\<open>internal/storage/txn\<close>), serialised per key by latches,
  behind the service \<^verbatim>\<open>internal/server/storage.go\<close>; old versions are collected by \<^verbatim>\<open>internal/storage/gc\<close>. In a
  cluster every region of the key space is replicated by raft (\<^verbatim>\<open>internal/raftstore\<close>): a command's modifications are
  proposed, logged by \<^verbatim>\<open>PeerStorage\<close> and applied on every replica. The placement driver (\<^verbatim>\<open>internal/pd\<close>), itself
  replicated by raft, hands out timestamps and identifiers, keeps the metadata of stores and regions, and schedules the
  moves of replicas.

  \<^bold>\<open>The theories and the code.\<close> Each component has its records and datatypes, one definition per operation under the
  name the source uses (with a prefix where names clash), and its lemmas.
  \<^item> \<open>Gookv_Prelude\<close>: byte strings, 64-bit words, errors as values, the parts of Go's \<^verbatim>\<open>encoding/binary\<close> in use, shared lemmas.
  \<^item> \<open>Codec\<close> (\<^verbatim>\<open>pkg/codec\<close>), \<open>Keys\<close> (\<^verbatim>\<open>pkg/keys\<close>), \<open>Txntypes\<close> (\<^verbatim>\<open>pkg/txntypes\<close>, \<^verbatim>\<open>pkg/cfnames\<close>): encodings. The locales
    \<open>codec\<close>, \<open>ordered_codec\<close>, \<open>canonical_codec\<close> and \<open>codec_pair\<close> state what an encoding promises; every encoder is an interpretation.
  \<^item> \<open>Engine\<close> (\<^verbatim>\<open>internal/engine/traits\<close>): the interface of the storage engine as sorted entry lists; \<open>Rocks\<close>
    (\<^verbatim>\<open>internal/engine/rocks\<close>): the engine over a Pebble database, which is a parameter with the laws of the locale \<open>pebble\<close>.
  \<^item> \<open>Mvcc\<close>, \<open>Mvcc_Store\<close>, \<open>Scanner\<close> (\<^verbatim>\<open>internal/storage/mvcc\<close>): key format, write accumulator, reader, point getter, range scanner.
  \<^item> \<open>TxnActions\<close>, \<open>TxnProperties\<close> (\<^verbatim>\<open>internal/storage/txn\<close>): the actions of transactions on one key. \<open>Latch\<close>
    and \<open>Concurrency\<close>: the latches and the concurrency manager, both also as step relations over any number of threads.
  \<^item> \<open>Storage\<close>, \<open>StorageProperties\<close> (\<^verbatim>\<open>internal/server/storage.go\<close>): the service that composes them, standalone and cluster form.
    \<open>RawStorage\<close> (\<^verbatim>\<open>internal/server/raw_storage.go\<close>): the raw operations. \<open>Gc\<close> (\<^verbatim>\<open>internal/storage/gc\<close>): the collector.
  \<^item> \<open>Metapb\<close>: the region and peer messages. \<open>RaftLog\<close>, \<open>RaftLogProperties\<close> (\<^verbatim>\<open>storage.go\<close>, \<^verbatim>\<open>raftlog_gc.go\<close>,
    \<^verbatim>\<open>raft_log_writer.go\<close>, \<^verbatim>\<open>store_worker.go\<close> of \<^verbatim>\<open>internal/raftstore\<close>): the raft log of a region. The locale \<open>raft_storage\<close> is what the
    raft library relies on; it is interpreted on the storage of a region and on that of the placement driver.
  \<^item> \<open>RegionOps\<close> (\<^verbatim>\<open>conf_change.go\<close>, \<^verbatim>\<open>split_admin.go\<close>, \<^verbatim>\<open>merge.go\<close>, \<^verbatim>\<open>split/checker.go\<close> of \<^verbatim>\<open>internal/raftstore\<close>):
    membership changes, splits and merges of regions.
  \<^item> \<open>PdMeta\<close>, \<open>PdSchedule\<close>, \<open>PdRaftLog\<close>, \<open>PdServer\<close> (\<^verbatim>\<open>internal/pd\<close>): metadata and allocators, the move tracker and the
    scheduler, the raft log, and the replicated state machine with its request handlers and its ready loop. The locale
    \<open>id_source\<close> is what a split relies on, interpreted on the direct and on the buffered allocator.

  \<^bold>\<open>What is shown.\<close> Encodings round-trip, preserve order, and decode exactly the encoder's image. The Pebble engine refines the
  engine interface, iterators included. Reads return the newest visible version; each transaction action succeeds exactly under its
  conditions and changes exactly what it should; a two-phase commit over several keys is atomic for readers; every sequence of storage commands
  keeps the well-formedness of the column families and frees the latches; latches exclude each other and do not deadlock; garbage collection changes no
  read at or above the safe point. The raft log storage refines an abstract log through its cache, its batched writer,
  its compaction and its recovery. Splits partition the key range of a region, merges join two, and membership changes are tracked exactly. Timestamps and identifiers are handed out once; replicas of the placement
  driver agree; moves never remove a replica before its replacement was seen; handlers do the same with and without replication. Some theorems
  are about behaviour the authors did not intend: a late prewrite after a rollback, lost wake-ups, a stale log suffix after a restart, the
  metadata lost by a restart after compaction.

  \<^bold>\<open>Third-party code\<close> is an argument of the definitions: Pebble (\<open>Pebble\<close>), the marshalling of raft messages
  (\<open>raftpb\<close>, with \<open>raftpb_ok\<close>), JSON (\<open>pdjson\<close>, with \<open>json_ok\<close>), floating point (\<open>floats\<close>), readings of the clock, and
  the order in which Go visits a map.

  \<^bold>\<open>Bounds and fuel.\<close> Machine words keep their width. Loops over data are structural recursions. The loop of \<open>readEntries_loop\<close> counts
  the indices of its range, so its fuel is exact. Loops that may not end (\<open>GetWrite\<close>, the scanner, \<open>GC\<close>) are partial
  functions, and that they return is part of the theorems. The search of \<open>Prewrite\<close> has the bound 64 of the source.

  \<^bold>\<open>Not modelled.\<close> The etcd raft library and the event loops around it; network transport, gRPC plumbing and request
  forwarding; process start-up, configuration files, logging and metrics; the command-line tools and demonstration scripts; and the
  client library. I/O faults of the engine are outside the model, as is the physical deletion order of background goroutines.
\<close>

end
